(* ===== verification/Router_Prelude.thy ===== *)
theory Router_Prelude
  imports Main "HOL-Library.Word"
begin

text \<open>
  Shared vocabulary of the development: the Go values the router is written
  with (instants and durations in nanoseconds, 64-bit integers, byte strings)
  and the list and string operations of the Go standard library that several
  components call.  Every definition is executable.

  Conventions.  A Go \<open>time.Time\<close> is the number of nanoseconds since the Unix
  epoch, an unbounded \<^typ>\<open>int\<close>; a \<open>time.Duration\<close> is an \<^typ>\<open>int\<close> that the
  code keeps within 64 bits, so \<open>Time.Sub\<close> saturates (\<open>time_sub\<close>).  A Go
  string is its sequence of bytes.  An \<open>int64\<close> is an \<^typ>\<open>int\<close> whose arithmetic
  is wrapped by \<open>wrap64\<close> wherever an operand is not bounded by the code itself;
  an \<open>atomic.Uint64\<close> cursor is a 64-bit word.
\<close>

named_theorems go_simps \<open>evaluation of the Go run-time operations\<close>

section \<open>Time and fixed-width integers\<close>

type_synonym time = int
type_synonym duration = int

abbreviation Millisecond :: duration where "Millisecond \<equiv> 1000000"
abbreviation Second :: duration where "Second \<equiv> 1000000000"
abbreviation Minute :: duration where "Minute \<equiv> 60000000000"
abbreviation Hour :: duration where "Hour \<equiv> 3600000000000"

abbreviation max_int64 :: int where "max_int64 \<equiv> 9223372036854775807"
abbreviation min_int64 :: int where "min_int64 \<equiv> -9223372036854775808"

text \<open>The zero \<open>time.Time\<close>: 1 January of year 1, in Unix nanoseconds.\<close>

definition zero_time :: time where
  "zero_time = -62135596800000000000"

definition wrap64 :: "int \<Rightarrow> int" where
  "wrap64 x = (x + 9223372036854775808) mod 18446744073709551616 - 9223372036854775808"

text \<open>\<open>time.Time.Sub\<close>: the difference, saturated to the \<open>Duration\<close> range.\<close>

definition time_sub :: "time \<Rightarrow> time \<Rightarrow> duration" where
  "time_sub t u = max min_int64 (min max_int64 (t - u))"

text \<open>\<open>time.Time.UnixNano\<close>: the nanosecond count as an \<open>int64\<close>.\<close>

definition UnixNano :: "time \<Rightarrow> int" where
  "UnixNano t = wrap64 t"

definition in_int64 :: "int \<Rightarrow> bool" where
  "in_int64 x \<longleftrightarrow> min_int64 \<le> x \<and> x \<le> max_int64"

text \<open>Go's integer division and remainder truncate toward zero.\<close>

definition go_quot :: "int \<Rightarrow> int \<Rightarrow> int" where
  "go_quot a b = sgn a * sgn b * (\<bar>a\<bar> div \<bar>b\<bar>)"

definition go_rem :: "int \<Rightarrow> int \<Rightarrow> int" where
  "go_rem a b = a - go_quot a b * b"

lemma wrap64_id [simp, go_simps]: "in_int64 x \<Longrightarrow> wrap64 x = x"
  by (simp add: wrap64_def in_int64_def)

lemma wrap64_in_int64 [simp, intro]: "in_int64 (wrap64 x)"
proof -
  have "0 \<le> (x + 9223372036854775808) mod 18446744073709551616"
    "(x + 9223372036854775808) mod 18446744073709551616 < 18446744073709551616"
    by simp_all
  then show ?thesis unfolding wrap64_def in_int64_def by linarith
qed

lemma in_int64_numeral [simp]:
  "in_int64 0" "in_int64 1" "in_int64 (numeral n) \<longleftrightarrow> numeral n \<le> max_int64"
  "in_int64 (- numeral n) \<longleftrightarrow> min_int64 \<le> - numeral n"
  by (auto simp: in_int64_def intro: order_trans [of _ 0])

lemma time_sub_exact: "in_int64 (t - u) \<Longrightarrow> time_sub t u = t - u"
  by (simp add: time_sub_def in_int64_def)

lemma time_sub_ge_iff:
  assumes "min_int64 < d" "d \<le> max_int64"
  shows "d \<le> time_sub t u \<longleftrightarrow> u + d \<le> t"
  using assms by (auto simp: time_sub_def)

lemma go_quot_nonneg: "0 \<le> a \<Longrightarrow> 0 < b \<Longrightarrow> go_quot a b = a div b"
  by (cases "a = 0") (auto simp: go_quot_def)

lemma go_rem_nonneg: "0 \<le> a \<Longrightarrow> 0 < b \<Longrightarrow> go_rem a b = a mod b"
  by (simp add: go_rem_def go_quot_nonneg minus_div_mult_eq_mod)

lemma unat_mod_less: "0 < n \<Longrightarrow> unat w mod n < (n::nat)"
  by simp

section \<open>Strings\<close>

definition HasPrefix :: "string \<Rightarrow> string \<Rightarrow> bool" where
  "HasPrefix s p \<longleftrightarrow> take (length p) s = p"

definition HasSuffix :: "string \<Rightarrow> string \<Rightarrow> bool" where
  "HasSuffix s p \<longleftrightarrow> HasPrefix (rev s) (rev p)"

definition TrimPrefix :: "string \<Rightarrow> string \<Rightarrow> string" where
  "TrimPrefix s p = (if HasPrefix s p then drop (length p) s else s)"

text \<open>\<open>strings.Index\<close>: the first position at which \<open>sub\<close> occurs.\<close>

fun str_index :: "string \<Rightarrow> string \<Rightarrow> nat option" where
  "str_index [] sub = (if sub = [] then Some 0 else None)"
| "str_index (c # s) sub =
     (if HasPrefix (c # s) sub then Some 0 else map_option Suc (str_index s sub))"

definition str_contains :: "string \<Rightarrow> string \<Rightarrow> bool" where
  "str_contains s sub \<longleftrightarrow> str_index s sub \<noteq> None"

text \<open>\<open>strings.Cut\<close>: the text around the first occurrence of \<open>sep\<close>.\<close>

definition str_cut :: "string \<Rightarrow> string \<Rightarrow> (string \<times> string) option" where
  "str_cut s sep = map_option (\<lambda>i. (take i s, drop (i + length sep) s)) (str_index s sep)"

text \<open>The UTF-8 encodings of the white space of \<open>unicode.IsSpace\<close>.\<close>

definition utf8_spaces :: "string list" where
  "utf8_spaces =
    [[CHR 0x09], [CHR 0x0A], [CHR 0x0B], [CHR 0x0C], [CHR 0x0D], [CHR 0x20],
     [CHR 0xC2, CHR 0x85], [CHR 0xC2, CHR 0xA0], [CHR 0xE1, CHR 0x9A, CHR 0x80],
     [CHR 0xE2, CHR 0x80, CHR 0x80], [CHR 0xE2, CHR 0x80, CHR 0x81],
     [CHR 0xE2, CHR 0x80, CHR 0x82], [CHR 0xE2, CHR 0x80, CHR 0x83],
     [CHR 0xE2, CHR 0x80, CHR 0x84], [CHR 0xE2, CHR 0x80, CHR 0x85],
     [CHR 0xE2, CHR 0x80, CHR 0x86], [CHR 0xE2, CHR 0x80, CHR 0x87],
     [CHR 0xE2, CHR 0x80, CHR 0x88], [CHR 0xE2, CHR 0x80, CHR 0x89],
     [CHR 0xE2, CHR 0x80, CHR 0x8A], [CHR 0xE2, CHR 0x80, CHR 0xA8],
     [CHR 0xE2, CHR 0x80, CHR 0xA9], [CHR 0xE2, CHR 0x80, CHR 0xAF],
     [CHR 0xE2, CHR 0x81, CHR 0x9F], [CHR 0xE3, CHR 0x80, CHR 0x80]]"

fun trim_left_spaces :: "nat \<Rightarrow> string list \<Rightarrow> string \<Rightarrow> string" where
  "trim_left_spaces 0 sps s = s"
| "trim_left_spaces (Suc n) sps s =
     (case find (HasPrefix s) sps of
        Some p \<Rightarrow> trim_left_spaces n sps (drop (length p) s)
      | None \<Rightarrow> s)"

text \<open>\<open>strings.TrimSpace\<close>: every step drops at least one byte, so the length of
  the string bounds the number of steps.\<close>

definition TrimSpace :: "string \<Rightarrow> string" where
  "TrimSpace s =
     (let l = trim_left_spaces (length s) utf8_spaces s
      in rev (trim_left_spaces (length l) (map rev utf8_spaces) (rev l)))"

text \<open>Case mapping.  Go maps ASCII strings byte by byte and every other string
  through the Unicode tables, which are the parameter \<open>uni\<close> here.\<close>

definition is_ascii :: "string \<Rightarrow> bool" where
  "is_ascii s \<longleftrightarrow> list_all (\<lambda>c. of_char c < (128::int)) s"

definition ascii_lower :: "char \<Rightarrow> char" where
  "ascii_lower c =
     (let n = of_char c :: int in if 65 \<le> n \<and> n \<le> 90 then char_of (n + 32) else c)"

definition ToLower :: "(string \<Rightarrow> string) \<Rightarrow> string \<Rightarrow> string" where
  "ToLower uni s = (if is_ascii s then map ascii_lower s else uni s)"

definition EqualFold :: "(string \<Rightarrow> string \<Rightarrow> bool) \<Rightarrow> string \<Rightarrow> string \<Rightarrow> bool" where
  "EqualFold ufold s t =
     (if is_ascii s \<and> is_ascii t then map ascii_lower s = map ascii_lower t else ufold s t)"

text \<open>The first \<open>k\<close> bytes of a string; the limits of bounded reads are 64-bit integers.\<close>

fun take_bytes :: "int \<Rightarrow> string \<Rightarrow> string" where
  "take_bytes k [] = []"
| "take_bytes k (c # s) = (if k \<le> 0 then [] else c # take_bytes (k - 1) s)"

lemma take_bytes_eq: "take_bytes k s = take (nat k) s"
proof (induction k s rule: take_bytes.induct)
  case (2 k c s)
  then show ?case by (cases "nat k") (auto simp: nat_diff_distrib)
qed simp

lemma HasPrefix_iff: "HasPrefix s p \<longleftrightarrow> (\<exists>r. s = p @ r)"
  unfolding HasPrefix_def by (metis append_eq_conv_conj append_take_drop_id)

lemma HasPrefix_Nil [simp]: "HasPrefix s []"
  by (simp add: HasPrefix_def)

lemma HasPrefix_append [simp]: "HasPrefix (p @ r) p"
  by (simp add: HasPrefix_def)

lemma HasSuffix_iff: "HasSuffix s p \<longleftrightarrow> (\<exists>r. s = r @ p)"
  unfolding HasSuffix_def HasPrefix_iff by (metis rev_append rev_rev_ident)

text \<open>\<open>TrimSpace\<close> leaves nothing to trim: its result has no white space at either end.\<close>

lemma trim_left_suffix: "\<exists>p. s = p @ trim_left_spaces n sps s"
proof (induction n arbitrary: s)
  case (Suc n)
  show ?case
  proof (cases "find (HasPrefix s) sps")
    case (Some p)
    obtain q where "drop (length p) s = q @ trim_left_spaces n sps (drop (length p) s)" using Suc by blast
    then have "s = (take (length p) s @ q) @ trim_left_spaces n sps (drop (length p) s)"
      by (metis append.assoc append_take_drop_id)
    moreover have "trim_left_spaces (Suc n) sps s = trim_left_spaces n sps (drop (length p) s)"
      using Some by simp
    ultimately show ?thesis by metis
  qed simp
qed simp

lemma trim_left_done:
  assumes "[] \<notin> set sps" "length s \<le> n"
  shows "find (HasPrefix (trim_left_spaces n sps s)) sps = None"
  using assms(2)
proof (induction n arbitrary: s)
  case 0
  then show ?case using assms(1) by (auto simp: find_None_iff HasPrefix_def)
next
  case (Suc n)
  show ?case
  proof (cases "find (HasPrefix s) sps")
    case (Some p)
    then have "HasPrefix s p" "p \<in> set sps" by (auto simp: find_Some_iff)
    then have "HasPrefix s p" "p \<noteq> []" using assms(1) by auto
    then have "length (drop (length p) s) \<le> n" using Suc.prems by (cases p) (auto simp: HasPrefix_iff)
    with Some Suc.IH show ?thesis by simp
  qed simp
qed

lemma trim_left_id: "find (HasPrefix s) sps = None \<Longrightarrow> trim_left_spaces n sps s = s"
  by (cases n) auto

lemma utf8_spaces_nonempty: "[] \<notin> set utf8_spaces" "[] \<notin> set (map rev utf8_spaces)"
  by (simp_all add: utf8_spaces_def)

lemma TrimSpace_idem [simp]: "TrimSpace (TrimSpace s) = TrimSpace s"
proof -
  define l where "l = trim_left_spaces (length s) utf8_spaces s"
  define t where "t = trim_left_spaces (length l) (map rev utf8_spaces) (rev l)"
  have r: "TrimSpace s = rev t" by (simp add: TrimSpace_def Let_def l_def t_def)
  have "find (HasPrefix l) utf8_spaces = None"
    unfolding l_def using utf8_spaces_nonempty by (intro trim_left_done) auto
  moreover obtain p where "rev l = p @ t" using trim_left_suffix unfolding t_def by blast
  then have "l = rev t @ rev p" by (metis rev_append rev_rev_ident)
  ultimately have "find (HasPrefix (rev t)) utf8_spaces = None"
    by (auto simp: find_None_iff HasPrefix_iff)
  moreover have "find (HasPrefix t) (map rev utf8_spaces) = None"
    unfolding t_def using utf8_spaces_nonempty by (intro trim_left_done) auto
  ultimately have "TrimSpace (rev t) = rev t" by (simp add: TrimSpace_def Let_def trim_left_id)
  with r show ?thesis by simp
qed

lemma str_index_SomeD:
  "str_index s sub = Some i \<Longrightarrow> i \<le> length s \<and> HasPrefix (drop i s) sub"
  by (induction s sub arbitrary: i rule: str_index.induct) (auto split: if_splits)

lemma str_contains_iff: "str_contains s sub \<longleftrightarrow> (\<exists>u v. s = u @ sub @ v)"
proof
  assume "str_contains s sub"
  then obtain i where i: "str_index s sub = Some i" by (auto simp: str_contains_def)
  from str_index_SomeD [OF i] obtain v where "drop i s = sub @ v"
    unfolding HasPrefix_iff by blast
  then have "s = take i s @ sub @ v" by (metis append_take_drop_id)
  then show "\<exists>u v. s = u @ sub @ v" by blast
next
  assume "\<exists>u v. s = u @ sub @ v"
  then obtain u v where s: "s = u @ sub @ v" by blast
  have "str_index (u @ sub @ v) sub \<noteq> None"
  proof (induction u)
    case Nil
    show ?case by (cases "sub @ v") (simp_all, metis HasPrefix_append)
  qed auto
  with s show "str_contains s sub" by (simp add: str_contains_def)
qed

lemma ascii_lower_idem [simp]: "ascii_lower (ascii_lower c) = ascii_lower c"
  by (auto simp: ascii_lower_def Let_def)

lemma EqualFold_ascii_refl [simp]: "is_ascii s \<Longrightarrow> EqualFold uf s s"
  by (simp add: EqualFold_def)

section \<open>Lists\<close>

text \<open>The elements of a list with their positions, Go's \<open>for i := range xs\<close>.\<close>

abbreviation indexed :: "'a list \<Rightarrow> (nat \<times> 'a) list" where
  "indexed xs \<equiv> zip [0 ..< length xs] xs"

lemma set_indexed: "set (indexed xs) = {(i, xs ! i) | i. i < length xs}"
  by (force simp: set_zip)

lemma list_update_map_nth:
  "i < length xs \<Longrightarrow> map f (xs[i := x]) = (map f xs)[i := f x]"
  by (simp add: map_update)

lemma nth_list_update_if: "i < length xs \<Longrightarrow> xs[i := x] ! j = (if i = j then x else xs ! j)"
  by simp

lemma length_filter_all_iff: "length (filter P xs) = length xs \<longleftrightarrow> (\<forall>x \<in> set xs. P x)"
proof (induction xs)
  case (Cons x xs)
  have "length (filter P xs) \<noteq> Suc (length xs)" using length_filter_le [of P xs] by linarith
  with Cons show ?case by simp
qed simp

text \<open>The number of elements with a property, as the counters of the code hold it.\<close>

definition count_if :: "('a \<Rightarrow> bool) \<Rightarrow> 'a list \<Rightarrow> int" where
  "count_if P xs = int (length (filter P xs))"

lemma count_if_simps [simp]:
  "count_if P [] = 0"
  "count_if P (x # xs) = (if P x then 1 else 0) + count_if P xs"
  "count_if P (xs @ ys) = count_if P xs + count_if P ys"
  by (simp_all add: count_if_def)

lemma count_if_nonneg [simp]: "0 \<le> count_if P xs"
  by (simp add: count_if_def)

lemma count_if_update:
  assumes "i < length xs"
  shows "count_if P (xs[i := y]) =
         count_if P xs - (if P (xs ! i) then 1 else 0) + (if P y then 1 else 0)"
proof -
  have "count_if P xs = count_if P (take i xs @ xs ! i # drop (Suc i) xs)"
    using id_take_nth_drop [OF assms] by simp
  then show ?thesis unfolding upd_conv_take_nth_drop [OF assms] by simp
qed

lemma count_if_pos: "i < length xs \<Longrightarrow> P (xs ! i) \<Longrightarrow> 0 < count_if P xs"
  using nth_mem [of i xs] by (fastforce simp: count_if_def filter_empty_conv)

lemma count_if_mono: "(\<And>x. P x \<Longrightarrow> Q x) \<Longrightarrow> count_if P xs \<le> count_if Q xs"
  by (induction xs) auto

lemma count_if_disjoint:
  "(\<And>x. \<not> (P x \<and> Q x)) \<Longrightarrow> count_if (\<lambda>x. P x \<or> Q x) xs = count_if P xs + count_if Q xs"
  by (induction xs) auto

lemma count_if_cong: "(\<And>x. P x \<longleftrightarrow> Q x) \<Longrightarrow> count_if P xs = count_if Q xs"
  by (induction xs) auto

end
