(* ===== verification/Circuit.thy ===== *)
theory Circuit
  imports Router_Prelude
begin

text \<open>
  The per-upstream circuit breaker, \<open>internal/circuit/breaker.go\<close>.  A breaker is
  the record \<open>Breaker\<close>; its methods run under the breaker's mutex, so each is one
  function on the pair of the breaker and the process-wide state gauge it reports
  to.  The clock reading of a method is an argument.  \<open>cb_step\<close> is the transition
  relation of a breaker under its three operations, \<open>cb_inv\<close> its invariant, and
  \<open>trailing_failures\<close> the abstract reading of a history that the failure counter
  implements.
\<close>

named_theorems circuit_defs \<open>definitions of the breaker operations\<close>

section \<open>State and operations\<close>

text \<open>\<open>State\<close> is a Go string; the fourth constructor is its zero value, which only a
  breaker built without \<open>NewBreaker\<close> has.\<close>

datatype State = Closed | Open | HalfOpen | UnsetState

record Breaker =
  cb_state :: State
  cb_failures :: int
  cb_threshold :: int
  cb_cooldown :: duration
  cb_openedAt :: time
  cb_nodeName :: string

type_synonym StateGauge = "string \<times> State \<Rightarrow> int option"
type_synonym breaker_env = "Breaker \<times> StateGauge"

definition NewBreaker :: "int \<Rightarrow> duration \<Rightarrow> Breaker" where
  "NewBreaker threshold cooldown =
     \<lparr> cb_state = Closed, cb_failures = 0,
       cb_threshold = (if threshold \<le> 0 then 5 else threshold),
       cb_cooldown = (if cooldown \<le> 0 then 30 * Second else cooldown),
       cb_openedAt = zero_time, cb_nodeName = [] \<rparr>"

definition recordState :: "State \<Rightarrow> breaker_env \<Rightarrow> breaker_env" where
  "recordState st = (\<lambda>(cb, g).
     if cb_nodeName cb = [] then (cb, g)
     else (cb, fold (\<lambda>s g. g((cb_nodeName cb, s) \<mapsto> (if s = st then 1 else 0)))
                    [Closed, Open, HalfOpen] g))"

definition transition :: "State \<Rightarrow> breaker_env \<Rightarrow> breaker_env" where
  "transition next = (\<lambda>(cb, g). recordState next (cb\<lparr>cb_state := next\<rparr>, g))"

definition WithName :: "string \<Rightarrow> breaker_env \<Rightarrow> breaker_env" where
  "WithName name = (\<lambda>(cb, g). recordState (cb_state cb) (cb\<lparr>cb_nodeName := name\<rparr>, g))"

definition Allow :: "time \<Rightarrow> breaker_env \<Rightarrow> bool \<times> breaker_env" where
  "Allow now = (\<lambda>(cb, g).
     case cb_state cb of
       Closed \<Rightarrow> (True, (cb, g))
     | Open \<Rightarrow> (if cb_cooldown cb \<le> time_sub now (cb_openedAt cb)
                then (True, transition HalfOpen (cb, g)) else (False, (cb, g)))
     | HalfOpen \<Rightarrow> (True, (cb, g))
     | UnsetState \<Rightarrow> (True, (cb, g)))"

definition RecordSuccess :: "breaker_env \<Rightarrow> breaker_env" where
  "RecordSuccess = (\<lambda>(cb, g).
     let cb = cb\<lparr>cb_failures := 0\<rparr>
     in if cb_state cb \<noteq> Closed then transition Closed (cb, g) else (cb, g))"

definition RecordFailure :: "time \<Rightarrow> breaker_env \<Rightarrow> breaker_env" where
  "RecordFailure now = (\<lambda>(cb, g).
     case cb_state cb of
       HalfOpen \<Rightarrow> transition Open (cb\<lparr>cb_openedAt := now\<rparr>, g)
     | Closed \<Rightarrow>
         (let cb = cb\<lparr>cb_failures := cb_failures cb + 1\<rparr>
          in if cb_threshold cb \<le> cb_failures cb
             then transition Open (cb\<lparr>cb_openedAt := now\<rparr>, g) else (cb, g))
     | Open \<Rightarrow> (cb, g)
     | UnsetState \<Rightarrow> (cb, g))"

definition GetState :: "Breaker \<Rightarrow> State" where
  "GetState cb = cb_state cb"

record BreakerStats =
  bs_State :: State
  bs_ConsecutiveFailures :: int
  bs_Threshold :: int
  bs_CooldownRemaining :: duration
  bs_NodeName :: string

definition Stats :: "time \<Rightarrow> Breaker \<Rightarrow> BreakerStats" where
  "Stats now cb =
     (let remaining =
        (if cb_state cb = Open
         then let r = wrap64 (cb_cooldown cb - time_sub now (cb_openedAt cb))
              in if r < 0 then 0 else r
         else 0)
      in \<lparr> bs_State = cb_state cb, bs_ConsecutiveFailures = cb_failures cb,
           bs_Threshold = cb_threshold cb, bs_CooldownRemaining = remaining,
           bs_NodeName = cb_nodeName cb \<rparr>)"

lemmas breaker_ops = transition_def recordState_def WithName_def Allow_def RecordSuccess_def
  RecordFailure_def

declare breaker_ops [circuit_defs] NewBreaker_def [circuit_defs]

section \<open>Histories\<close>

datatype cb_event = EvAllow time | EvSuccess | EvFailure time

fun cb_apply :: "cb_event \<Rightarrow> breaker_env \<Rightarrow> breaker_env" where
  "cb_apply (EvAllow t) e = snd (Allow t e)"
| "cb_apply EvSuccess e = RecordSuccess e"
| "cb_apply (EvFailure t) e = RecordFailure t e"

definition cb_run :: "cb_event list \<Rightarrow> breaker_env \<Rightarrow> breaker_env" where
  "cb_run evs e = fold cb_apply evs e"

inductive cb_step :: "breaker_env \<Rightarrow> cb_event \<Rightarrow> breaker_env \<Rightarrow> bool" where
  "Allow t e = (ok, e') \<Longrightarrow> cb_step e (EvAllow t) e'"
| "RecordSuccess e = e' \<Longrightarrow> cb_step e EvSuccess e'"
| "RecordFailure t e = e' \<Longrightarrow> cb_step e (EvFailure t) e'"

inductive_simps cb_step_simps [simp]:
  "cb_step e (EvAllow t) e'" "cb_step e EvSuccess e'" "cb_step e (EvFailure t) e'"

inductive cb_reach :: "breaker_env \<Rightarrow> breaker_env \<Rightarrow> bool" for e0 where
  cb_init: "cb_reach e0 e0"
| cb_next: "cb_reach e0 e \<Longrightarrow> cb_step e ev e' \<Longrightarrow> cb_reach e0 e'"

text \<open>The number of failures reported since the last success, ignoring admission
  checks: what \<open>ConsecutiveFailures\<close> means.\<close>

fun trailing_failures :: "cb_event list \<Rightarrow> int \<Rightarrow> int" where
  "trailing_failures [] n = n"
| "trailing_failures (EvAllow t # evs) n = trailing_failures evs n"
| "trailing_failures (EvSuccess # evs) n = trailing_failures evs 0"
| "trailing_failures (EvFailure t # evs) n = trailing_failures evs (n + 1)"

section \<open>Invariant\<close>

text \<open>The gauge of a named breaker shows 1 for its state and 0 for the other two.\<close>

definition gauge_one_hot :: "breaker_env \<Rightarrow> bool" where
  "gauge_one_hot = (\<lambda>(cb, g).
     \<forall>s \<in> {Closed, Open, HalfOpen}.
       g (cb_nodeName cb, s) = Some (if s = cb_state cb then 1 else 0))"

definition cb_inv :: "breaker_env \<Rightarrow> bool" where
  "cb_inv = (\<lambda>(cb, g).
     cb_state cb \<noteq> UnsetState \<and> 0 < cb_threshold cb \<and> 0 < cb_cooldown cb
     \<and> 0 \<le> cb_failures cb
     \<and> (cb_state cb = Closed \<longrightarrow> cb_failures cb < cb_threshold cb)
     \<and> (cb_state cb \<noteq> Closed \<longrightarrow> cb_failures cb = cb_threshold cb)
     \<and> (cb_nodeName cb \<noteq> [] \<longrightarrow> gauge_one_hot (cb, g)))"

lemma cb_inv_New: "cb_inv (WithName name (NewBreaker th cd, g))"
  by (simp add: cb_inv_def gauge_one_hot_def circuit_defs)

lemma Allow_inv:
  assumes "cb_inv e" "Allow t e = (ok, e')" shows "cb_inv e'"
  using assms
  by (cases e) (auto simp: cb_inv_def gauge_one_hot_def circuit_defs
      split: State.splits if_splits)

lemma RecordSuccess_inv: "cb_inv e \<Longrightarrow> cb_inv (RecordSuccess e)"
  by (cases e) (auto simp: cb_inv_def gauge_one_hot_def circuit_defs Let_def)

lemma RecordFailure_inv: "cb_inv e \<Longrightarrow> cb_inv (RecordFailure t e)"
  by (cases e) (auto simp: cb_inv_def gauge_one_hot_def circuit_defs Let_def
      split: State.splits)

lemma cb_reach_inv: "cb_reach e0 e \<Longrightarrow> cb_inv e0 \<Longrightarrow> cb_inv e"
proof (induction rule: cb_reach.induct)
  case (cb_next e ev e')
  then show ?case by (cases ev) (auto intro: Allow_inv RecordSuccess_inv RecordFailure_inv)
qed

section \<open>Histories and the failure count\<close>

text \<open>The simulation relation between a breaker and the failure count of its history:
  the counter of a closed breaker is the count, and a breaker that is not closed
  has seen at least the threshold.\<close>

definition counts :: "int \<Rightarrow> Breaker \<Rightarrow> int \<Rightarrow> bool" where
  "counts th cb n \<longleftrightarrow> cb_threshold cb = th \<and> 0 \<le> n \<and>
     (case cb_state cb of Closed \<Rightarrow> cb_failures cb = n \<and> n < th
      | Open \<Rightarrow> th \<le> n | HalfOpen \<Rightarrow> th \<le> n | UnsetState \<Rightarrow> False)"

lemma counts_Allow: "counts th (fst e) n \<Longrightarrow> counts th (fst (snd (Allow t e))) n"
  by (cases e) (auto simp: counts_def circuit_defs split: State.splits)

lemma counts_RecordSuccess:
  "0 < th \<Longrightarrow> counts th (fst e) n \<Longrightarrow> counts th (fst (RecordSuccess e)) 0"
  by (cases e) (auto simp: counts_def circuit_defs Let_def split: State.splits)

lemma counts_RecordFailure:
  "counts th (fst e) n \<Longrightarrow> counts th (fst (RecordFailure t e)) (n + 1)"
  by (cases e) (auto simp: counts_def circuit_defs Let_def split: State.splits)

lemma counts_run:
  "0 < th \<Longrightarrow> counts th (fst e) n \<Longrightarrow>
   counts th (fst (cb_run evs e)) (trailing_failures evs n)"
proof (induction evs n arbitrary: e rule: trailing_failures.induct)
  case (2 t evs n)
  then show ?case using counts_Allow [of th e n t] by (simp add: cb_run_def)
next
  case (3 evs n)
  then show ?case using counts_RecordSuccess [of th e n] by (simp add: cb_run_def)
next
  case (4 t evs n)
  then show ?case using counts_RecordFailure [of th e n t] by (simp add: cb_run_def)
qed (simp add: cb_run_def)

lemma WithName_fst [simp]: "fst (WithName name (cb, g)) = cb\<lparr>cb_nodeName := name\<rparr>"
  by (simp add: WithName_def recordState_def)

section \<open>Properties\<close>

text \<open>Every state a named breaker reaches from construction is one of the three
  documented ones, its failure counter lies between zero and the threshold and is
  below it exactly while the breaker is closed, and the gauge shows 1 for the
  current state and 0 for the other two.\<close>

theorem breaker_invariant:
  assumes "cb_reach (WithName name (NewBreaker th cd, g)) (cb, g')"
  shows "cb_state cb \<in> {Closed, Open, HalfOpen}
    \<and> 0 \<le> cb_failures cb \<and> cb_failures cb \<le> cb_threshold cb
    \<and> (cb_state cb = Closed \<longleftrightarrow> cb_failures cb < cb_threshold cb)
    \<and> (cb_nodeName cb = [] \<or>
       map (\<lambda>s. g' (cb_nodeName cb, s)) [Closed, Open, HalfOpen]
       = map (\<lambda>s. Some (if s = cb_state cb then 1 else 0)) [Closed, Open, HalfOpen])"
proof -
  have "cb_inv (cb, g')" using cb_reach_inv [OF assms cb_inv_New] .
  then show ?thesis
    by (cases "cb_state cb") (auto simp: cb_inv_def gauge_one_hot_def)
qed

theorem breaker_invariant_witness:
  "cb_state (fst (RecordFailure 7 (WithName ''n'' (NewBreaker 1 5, \<lambda>_. None)))) = Open
   \<and> 0 \<le> cb_failures (fst (RecordFailure 7 (WithName ''n'' (NewBreaker 1 5, \<lambda>_. None))))"
proof -
  let ?e = "WithName ''n'' (NewBreaker 1 5, \<lambda>_. None)"
  have "cb_reach ?e (RecordFailure 7 ?e)"
    by (rule cb_next [OF cb_init, where ev = "EvFailure 7"]) simp
  then have "cb_reach ?e (fst (RecordFailure 7 ?e), snd (RecordFailure 7 ?e))" by simp
  from breaker_invariant [OF this] show ?thesis by (simp add: circuit_defs Let_def)
qed

text \<open>C35: After any history of admission checks, successes and failures, in any order
  and at any times, a breaker is closed exactly when fewer than \<open>threshold\<close> failures
  were reported since the last success; a closed breaker's counter is that number.\<close>

theorem breaker_closed_iff_few_failures:
  assumes "0 < th"
  shows "(cb_state (fst (cb_run evs (WithName name (NewBreaker th cd, g)))) = Closed
         \<longleftrightarrow> trailing_failures evs 0 < th)
    \<and> (cb_state (fst (cb_run evs (WithName name (NewBreaker th cd, g)))) = Closed
         \<longrightarrow> cb_failures (fst (cb_run evs (WithName name (NewBreaker th cd, g))))
             = trailing_failures evs 0)"
proof -
  have "counts th (fst (WithName name (NewBreaker th cd, g))) 0"
    using assms by (simp add: counts_def NewBreaker_def)
  from counts_run [OF assms this, of evs] show ?thesis
    by (auto simp: counts_def split: State.splits)
qed

theorem breaker_closed_iff_few_failures_witness:
  "cb_state (fst (cb_run [EvFailure 1, EvFailure 2, EvSuccess, EvFailure 3]
                    (WithName ''n'' (NewBreaker 2 5, \<lambda>_. None)))) = Closed
   \<and> cb_state (fst (cb_run [EvFailure 1, EvFailure 2, EvAllow 9]
                    (WithName ''n'' (NewBreaker 2 5, \<lambda>_. None)))) \<noteq> Closed"
  using breaker_closed_iff_few_failures [where th = 2] by simp

text \<open>An open breaker refuses until its cooldown has elapsed and admits (half-opens)
  from that instant on; \<open>CooldownRemaining\<close> of \<open>Stats\<close> is exactly the time to wait.\<close>

theorem open_breaker_admits_after_cooldown:
  assumes "cb_state cb = Open" "0 < cb_cooldown cb" "cb_cooldown cb \<le> max_int64"
    and "cb_openedAt cb \<le> now" "now - cb_openedAt cb \<le> max_int64" "now \<le> t"
  shows "(fst (Allow t (cb, g)) \<longleftrightarrow> now + bs_CooldownRemaining (Stats now cb) \<le> t)
    \<and> cb_state (fst (snd (Allow t (cb, g)))) = (if fst (Allow t (cb, g)) then HalfOpen else Open)"
proof -
  have sub: "time_sub now (cb_openedAt cb) = now - cb_openedAt cb"
    using assms by (intro time_sub_exact) (simp add: in_int64_def)
  have "in_int64 (cb_cooldown cb - (now - cb_openedAt cb))"
    using assms by (simp add: in_int64_def)
  with assms have "fst (Allow t (cb, g)) \<longleftrightarrow> now + bs_CooldownRemaining (Stats now cb) \<le> t"
    using time_sub_ge_iff [of "cb_cooldown cb" t "cb_openedAt cb"]
    by (auto simp: Allow_def Stats_def sub Let_def)
  moreover have "cb_state (fst (snd (Allow t (cb, g))))
    = (if fst (Allow t (cb, g)) then HalfOpen else Open)"
    using assms(1) by (simp add: circuit_defs)
  ultimately show ?thesis by blast
qed

theorem open_breaker_admits_after_cooldown_witness:
  "\<not> fst (Allow 11 ((NewBreaker 1 5)\<lparr>cb_state := Open, cb_openedAt := 7\<rparr>, \<lambda>_. None))
   \<and> fst (Allow 12 ((NewBreaker 1 5)\<lparr>cb_state := Open, cb_openedAt := 7\<rparr>, \<lambda>_. None))"
  using open_breaker_admits_after_cooldown
    [of "(NewBreaker 1 5)\<lparr>cb_state := Open, cb_openedAt := 7\<rparr>" 8 11 "\<lambda>_. None"]
    open_breaker_admits_after_cooldown
    [of "(NewBreaker 1 5)\<lparr>cb_state := Open, cb_openedAt := 7\<rparr>" 8 12 "\<lambda>_. None"]
  by (simp add: NewBreaker_def Stats_def time_sub_def wrap64_def Let_def)

end
