(* ===== verification/Keypool.thy ===== *)
theory Keypool
  imports Router_Prelude
begin

text \<open>
  A node's API-key pool with exhaustion cooldowns, \<open>internal/keypool/keypool.go\<close>.
  The cursor is the 64-bit word of the Go \<open>atomic.Uint64\<close> and wraps with it; the
  deadlines are Unix nanoseconds.  \<open>cooldown_pool\<close> is the interface the failover
  path relies on.
\<close>

named_theorems keypool_defs \<open>definitions of the key pool\<close>

section \<open>State and operations\<close>

record Pool =
  kp_keys :: "string list"
  kp_cooldown :: duration
  kp_idx :: "64 word"
  kp_coolUntil :: "int list"

definition NewPool :: "string list \<Rightarrow> duration \<Rightarrow> Pool" where
  "NewPool keys cooldown =
     \<lparr> kp_keys = keys, kp_cooldown = cooldown, kp_idx = 0,
       kp_coolUntil = replicate (length keys) 0 \<rparr>"

text \<open>The probing loop of \<open>Next\<close>: \<open>off\<close> counts up to \<open>n\<close>, \<open>start + off\<close> wraps at 64
  bits.\<close>

function next_scan :: "int list \<Rightarrow> int \<Rightarrow> 64 word \<Rightarrow> nat \<Rightarrow> nat \<Rightarrow> nat option" where
  "next_scan cool nowNano start n off =
     (if off < n
      then let i = unat (start + of_nat off) mod n
           in if cool ! i \<le> nowNano then Some i else next_scan cool nowNano start n (off + 1)
      else None)"
  by pat_completeness auto
termination by (relation "measure (\<lambda>(cool, nowNano, start, n, off). n - off)") auto

declare next_scan.simps [simp del]

definition Next :: "time \<Rightarrow> Pool \<Rightarrow> (string \<times> int) \<times> Pool" where
  "Next now p =
     (let n = length (kp_keys p) in
      if n = 0 then (([], -1), p)
      else let start = kp_idx p; p' = p\<lparr>kp_idx := start + 1\<rparr>;
               i = (case next_scan (kp_coolUntil p) (UnixNano now) start n 0 of
                      Some i \<Rightarrow> i | None \<Rightarrow> unat start mod n)
           in ((kp_keys p ! i, int i), p'))"

definition MarkExhausted :: "time \<Rightarrow> int \<Rightarrow> Pool \<Rightarrow> Pool" where
  "MarkExhausted now idx p =
     (if idx < 0 \<or> int (length (kp_keys p)) \<le> idx \<or> kp_cooldown p \<le> 0 then p
      else p\<lparr>kp_coolUntil := (kp_coolUntil p)[nat idx := UnixNano (now + kp_cooldown p)]\<rparr>)"

definition Cooling :: "time \<Rightarrow> Pool \<Rightarrow> nat" where
  "Cooling now p = length (filter (\<lambda>c. UnixNano now < c) (kp_coolUntil p))"

definition AllCooling :: "time \<Rightarrow> Pool \<Rightarrow> bool" where
  "AllCooling now p \<longleftrightarrow> 0 < length (kp_keys p) \<and> Cooling now p = length (kp_keys p)"

definition Size :: "Pool \<Rightarrow> nat" where
  "Size p = length (kp_keys p)"

declare NewPool_def [keypool_defs] Next_def [keypool_defs] MarkExhausted_def [keypool_defs]
  Cooling_def [keypool_defs] AllCooling_def [keypool_defs] Size_def [keypool_defs]

definition pool_wf :: "Pool \<Rightarrow> bool" where
  "pool_wf p \<longleftrightarrow> length (kp_coolUntil p) = length (kp_keys p)"

text \<open>A key is cooling at \<open>now\<close> when its deadline lies in the future.\<close>

definition key_cooling :: "time \<Rightarrow> Pool \<Rightarrow> nat \<Rightarrow> bool" where
  "key_cooling now p i \<longleftrightarrow> UnixNano now < kp_coolUntil p ! i"

section \<open>Lemmas\<close>

lemma pool_wf_ops [simp, intro]:
  "pool_wf (NewPool ks d)"
  "pool_wf p \<Longrightarrow> pool_wf (snd (Next now p))"
  "pool_wf p \<Longrightarrow> pool_wf (MarkExhausted now i p)"
  by (simp_all add: pool_wf_def keypool_defs Let_def)

lemma next_scan_SomeD:
  "next_scan cool t start n off = Some i \<Longrightarrow> 0 < n \<Longrightarrow> i < n \<and> cool ! i \<le> t"
  by (induction cool t start n off rule: next_scan.induct)
    (subst (asm) (2) next_scan.simps, auto simp: Let_def split: if_splits)

lemma next_scan_NoneD:
  "next_scan cool t start n off = None \<Longrightarrow> off \<le> k \<Longrightarrow> k < n \<Longrightarrow>
   t < cool ! (unat (start + of_nat k) mod n)"
proof (induction cool t start n off rule: next_scan.induct)
  case (1 cool t start n off)
  from "1.prems" have off: "off < n" by simp
  from "1.prems"(1) off have no: "t < cool ! (unat (start + of_nat off) mod n)"
    and rest: "next_scan cool t start n (off + 1) = None"
    by (auto simp: next_scan.simps [of cool t start n off] Let_def split: if_splits)
  show ?case
  proof (cases "k = off")
    case False
    with "1.prems" have "off + 1 \<le> k" by simp
    from "1.IH" [OF off refl _ rest this "1.prems"(3)] no show ?thesis by simp
  qed (use no in simp)
qed

text \<open>While the cursor does not wrap within one scan, the scan probes every key.\<close>

lemma probe_covers:
  assumes "unat start + n \<le> 2 ^ 64" "j < n"
  shows "\<exists>k<n. unat (start + of_nat k :: 64 word) mod n = j"
proof -
  let ?s = "unat start"
  define k where "k = (j + (n - ?s mod n)) mod n"
  have n: "0 < n" using assms by simp
  have k: "k < n" using n by (simp add: k_def)
  have "unat (start + of_nat k :: 64 word) = ?s + k"
    using assms k by (simp add: unat_plus_if' unat_of_nat)
  moreover have "(?s + k) mod n = j"
  proof -
    have "(?s + k) mod n = (?s mod n + (j + (n - ?s mod n))) mod n"
      by (simp add: k_def mod_simps)
    also have "?s mod n + (j + (n - ?s mod n)) = j + n"
      using n mod_less_divisor [of n ?s] by linarith
    finally show ?thesis using assms by simp
  qed
  ultimately show ?thesis using k by auto
qed

lemma Cooling_eq_length_iff:
  "pool_wf p \<Longrightarrow> Cooling now p = length (kp_keys p) \<longleftrightarrow>
   (\<forall>i < length (kp_keys p). key_cooling now p i)"
  using length_filter_all_iff [of "\<lambda>c. UnixNano now < c" "kp_coolUntil p"]
  by (simp add: Cooling_def pool_wf_def key_cooling_def all_set_conv_all_nth)

text \<open>The cursor has room for one more scan before it wraps.\<close>

definition cursor_room :: "Pool \<Rightarrow> bool" where
  "cursor_room p \<longleftrightarrow> unat (kp_idx p) + length (kp_keys p) \<le> 2 ^ 64"

definition pool_ready :: "Pool \<Rightarrow> bool" where
  "pool_ready p \<longleftrightarrow> pool_wf p \<and> cursor_room p \<and> kp_keys p \<noteq> []"

definition next_index :: "time \<Rightarrow> Pool \<Rightarrow> nat" where
  "next_index now p = nat (snd (fst (Next now p)))"

lemma Next_range:
  assumes "kp_keys p \<noteq> []"
  shows "0 \<le> snd (fst (Next now p))" "next_index now p < length (kp_keys p)"
    "fst (fst (Next now p)) = kp_keys p ! next_index now p"
  using assms
  by (auto simp: Next_def next_index_def Let_def split: option.splits dest: next_scan_SomeD)

lemma Next_healthy:
  assumes "pool_ready p" "\<not> AllCooling now p"
  shows "\<not> key_cooling now p (next_index now p)"
proof -
  let ?n = "length (kp_keys p)"
  let ?scan = "next_scan (kp_coolUntil p) (UnixNano now) (kp_idx p) ?n 0"
  have n: "0 < ?n" and wf: "pool_wf p" using assms by (auto simp: pool_ready_def)
  from assms n obtain j where j: "j < ?n" "\<not> key_cooling now p j"
    by (auto simp: AllCooling_def Cooling_eq_length_iff [OF wf])
  from assms(1) obtain k where k: "k < ?n" "unat (kp_idx p + of_nat k) mod ?n = j"
    using probe_covers [OF _ j(1), of "kp_idx p"] by (auto simp: pool_ready_def cursor_room_def)
  have "?scan \<noteq> None"
    using next_scan_NoneD [of "kp_coolUntil p" "UnixNano now" "kp_idx p" ?n 0 k] k j
    by (auto simp: key_cooling_def)
  then obtain i where i: "?scan = Some i" by blast
  then have "next_index now p = i" using n by (auto simp: next_index_def Next_def Let_def)
  with next_scan_SomeD [OF i n] show ?thesis by (simp add: key_cooling_def)
qed

section \<open>Interface\<close>

text \<open>What the failover path of the router relies on: a served index is in range, it is
  not cooling unless all are, and marking a key makes it cool until its deadline.\<close>

locale cooldown_pool =
  fixes next_idx :: "time \<Rightarrow> 'p \<Rightarrow> nat"
    and mark :: "time \<Rightarrow> nat \<Rightarrow> 'p \<Rightarrow> 'p"
    and all_cooling :: "time \<Rightarrow> 'p \<Rightarrow> bool"
    and cooling :: "time \<Rightarrow> 'p \<Rightarrow> nat \<Rightarrow> bool"
    and size_of :: "'p \<Rightarrow> nat"
    and ready :: "'p \<Rightarrow> bool"
    and deadline_after :: "time \<Rightarrow> 'p \<Rightarrow> time \<Rightarrow> bool"
  assumes next_range: "ready p \<Longrightarrow> next_idx now p < size_of p"
    and next_healthy: "ready p \<Longrightarrow> \<not> all_cooling now p \<Longrightarrow> \<not> cooling now p (next_idx now p)"
    and all_cooling_iff: "ready p \<Longrightarrow> all_cooling now p \<longleftrightarrow> (\<forall>i < size_of p. cooling now p i)"
    and mark_ready: "ready p \<Longrightarrow> ready (mark now i p)"
    and mark_size: "size_of (mark now i p) = size_of p"
    and mark_cools: "ready p \<Longrightarrow> i < size_of p \<Longrightarrow> deadline_after now p t \<Longrightarrow>
                     cooling t (mark now i p) i"
begin

lemma retry_moves_on:
  assumes "ready p" "deadline_after now p t"
    and "\<not> all_cooling t (mark now (next_idx now p) p)"
  shows "next_idx t (mark now (next_idx now p) p) \<noteq> next_idx now p"
proof
  let ?q = "mark now (next_idx now p) p"
  assume eq: "next_idx t ?q = next_idx now p"
  have "cooling t ?q (next_idx now p)" using assms next_range by (blast intro: mark_cools)
  moreover have "\<not> cooling t ?q (next_idx t ?q)" using assms mark_ready next_healthy by blast
  ultimately show False using eq by simp
qed

lemma single_key_exhausts:
  assumes "ready p" "size_of p = 1" "deadline_after now p t"
  shows "all_cooling t (mark now (next_idx now p) p)"
  using assms next_range [of p now] mark_cools [of p "next_idx now p" now t]
  by (simp add: all_cooling_iff mark_ready mark_size)

end

text \<open>An instant before the cooldown of a key marked at \<open>now\<close> expires, with both within
  the range of Unix nanoseconds.\<close>

definition before_deadline :: "time \<Rightarrow> Pool \<Rightarrow> time \<Rightarrow> bool" where
  "before_deadline now p t \<longleftrightarrow> 0 < kp_cooldown p \<and> in_int64 t \<and> in_int64 (now + kp_cooldown p)
     \<and> t < now + kp_cooldown p"

interpretation pool: cooldown_pool next_index "\<lambda>now i. MarkExhausted now (int i)" AllCooling
  key_cooling "\<lambda>p. length (kp_keys p)" pool_ready before_deadline
proof (standard, goal_cases)
  case (1 p now)
  then show ?case using Next_range by (simp add: pool_ready_def)
next
  case (2 p now)
  then show ?case by (rule Next_healthy)
next
  case (3 p now)
  then show ?case by (auto simp: AllCooling_def pool_ready_def Cooling_eq_length_iff)
next
  case (4 p now i)
  then show ?case by (auto simp: pool_ready_def cursor_room_def MarkExhausted_def pool_wf_def)
next
  case (5 now i p)
  then show ?case by (simp add: MarkExhausted_def)
next
  case (6 p i now t)
  then show ?case
    by (auto simp: pool_ready_def pool_wf_def MarkExhausted_def key_cooling_def
        before_deadline_def UnixNano_def)
qed

section \<open>Properties\<close>

text \<open>C38: \<open>Next\<close> returns a configured key and its index, and it is not cooling unless
  every key is; the cursor advances by one whatever was skipped.  The cursor must
  have room for one scan below \<open>2^64\<close>: past that \<open>start + off\<close> wraps and the scan may
  miss a key.\<close>

theorem next_returns_healthy_key:
  assumes "length (kp_coolUntil p) = length (kp_keys p)" "kp_keys p \<noteq> []"
    and "unat (kp_idx p) + length (kp_keys p) \<le> 2 ^ 64"
    and "Next now p = ((key, idx), p')"
  shows "0 \<le> idx \<and> nat idx < length (kp_keys p) \<and> key = kp_keys p ! nat idx
    \<and> (AllCooling now p \<or> kp_coolUntil p ! nat idx \<le> UnixNano now)
    \<and> p' = p\<lparr>kp_idx := kp_idx p + 1\<rparr>"
proof -
  have r: "pool_ready p" using assms by (simp add: pool_ready_def pool_wf_def cursor_room_def)
  have i: "next_index now p = nat idx" using assms by (simp add: next_index_def)
  have "p' = p\<lparr>kp_idx := kp_idx p + 1\<rparr>"
    using assms(2,4) by (auto simp: Next_def Let_def)
  moreover have "AllCooling now p \<or> kp_coolUntil p ! nat idx \<le> UnixNano now"
    using Next_healthy [OF r, of now] i by (cases "AllCooling now p") (simp_all add: key_cooling_def)
  ultimately show ?thesis using Next_range [OF assms(2), of now] i assms(4) by simp
qed

theorem next_returns_healthy_key_witness:
  "kp_coolUntil (MarkExhausted 100 0 (NewPool [''a'', ''b''] 50)) ! 1 \<le> UnixNano 120"
proof -
  let ?p = "MarkExhausted 100 0 (NewPool [''a'', ''b''] 50)"
  have pre: "length (kp_coolUntil ?p) = length (kp_keys ?p)" "kp_keys ?p \<noteq> []"
    "unat (kp_idx ?p) + length (kp_keys ?p) \<le> 2 ^ 64"
    by (simp_all add: MarkExhausted_def NewPool_def)
  have nc: "\<not> AllCooling 120 ?p" and i: "snd (fst (Next 120 ?p)) = 1"
    by code_simp+
  have "Next 120 ?p = ((fst (fst (Next 120 ?p)), snd (fst (Next 120 ?p))), snd (Next 120 ?p))"
    by simp
  from next_returns_healthy_key [OF pre this] nc i show ?thesis by simp
qed

text \<open>After a key is marked exhausted, the next selection before its cooldown
  expires takes a different key, unless every key is then cooling.\<close>

theorem exhausted_key_not_reused:
  assumes "pool_wf p" "cursor_room p" "kp_keys p \<noteq> []" "before_deadline now p t"
    and "\<not> AllCooling t (MarkExhausted now (int (next_index now p)) p)"
  shows "next_index t (MarkExhausted now (int (next_index now p)) p) \<noteq> next_index now p"
  using assms by (intro pool.retry_moves_on) (simp_all add: pool_ready_def)

theorem exhausted_key_not_reused_witness:
  "next_index 120 (MarkExhausted 100 (int (next_index 100 (NewPool [''a'', ''b''] 50)))
     (NewPool [''a'', ''b''] 50)) \<noteq> next_index 100 (NewPool [''a'', ''b''] 50)"
proof (rule exhausted_key_not_reused)
  let ?p = "NewPool [''a'', ''b''] 50"
  show "pool_wf ?p" by (simp add: pool_wf_def NewPool_def)
  show "cursor_room ?p" by (simp add: cursor_room_def NewPool_def)
  show "kp_keys ?p \<noteq> []" by (simp add: NewPool_def)
  show "before_deadline 100 ?p 120" by (simp add: before_deadline_def NewPool_def)
  show "\<not> AllCooling 120 (MarkExhausted 100 (int (next_index 100 ?p)) ?p)" by code_simp
qed

end
