(* ===== verification/Rotation.thy ===== *)
theory Rotation
  imports Router_Prelude
begin

text \<open>
  Key-selection policies of a gateway route, \<open>internal/channel/rotation.go\<close>: the
  snapshot \<open>KeyState\<close> a policy reads, the three policies with their 64-bit cursors
  and \<open>pickMin\<close>.  \<open>key_selector\<close> is the contract of \<open>RotationPolicy.Select\<close>, and
  \<open>pickMin\<close> is shown to choose among exactly the minimum-scoring keys, in
  round-robin order.
\<close>

named_theorems rotation_defs \<open>definitions of the selection policies\<close>

section \<open>Snapshots and policies\<close>

type_synonym RetireReason = string

definition ReasonCap :: RetireReason where "ReasonCap = ''cap''"
definition ReasonQuota :: RetireReason where "ReasonQuota = ''quota''"
definition ReasonError :: RetireReason where "ReasonError = ''error''"
definition ReasonRateLimit :: RetireReason where "ReasonRateLimit = ''rate''"
definition ReasonBalance :: RetireReason where "ReasonBalance = ''balance''"

lemmas reason_defs = ReasonCap_def ReasonQuota_def ReasonError_def ReasonRateLimit_def
  ReasonBalance_def

record KeyState =
  ks_Index :: nat
  ks_Requests :: int
  ks_Tokens :: int
  ks_InFlight :: int
  ks_Errors :: int
  ks_Reclaimed :: int
  ks_Estimated :: bool
  ks_Selectable :: bool
  ks_SoftRetired :: bool
  ks_Drained :: bool
  ks_RetiredUntil :: time
  ks_Reason :: RetireReason

datatype RotationPolicy =
    roundRobinPolicy "64 word"
  | leastUsedPolicy "64 word"
  | leastTokensPolicy "64 word"

definition PolicyRoundRobin :: string where "PolicyRoundRobin = ''round_robin''"
definition PolicyLeastUsed :: string where "PolicyLeastUsed = ''least_used''"
definition PolicyLeastTokens :: string where "PolicyLeastTokens = ''least_tokens''"

datatype policy_error = UnknownPolicy string

definition NewPolicy :: "string \<Rightarrow> policy_error + RotationPolicy" where
  "NewPolicy n =
     (if n = [] \<or> n = PolicyRoundRobin then Inr (roundRobinPolicy 0)
      else if n = PolicyLeastUsed then Inr (leastUsedPolicy 0)
      else if n = PolicyLeastTokens then Inr (leastTokensPolicy 0)
      else Inl (UnknownPolicy n))"

definition byLoad :: "KeyState \<Rightarrow> int" where
  "byLoad k = wrap64 (ks_Requests k + ks_InFlight k)"

text \<open>The scan of \<open>pickMin\<close> from position \<open>i\<close> on, with the best score so far and the
  positions that have it.\<close>

fun pickMin_loop :: "(KeyState \<Rightarrow> int) \<Rightarrow> KeyState list \<Rightarrow> nat \<Rightarrow> int \<Rightarrow> nat list \<Rightarrow> nat list" where
  "pickMin_loop score [] i best tied = tied"
| "pickMin_loop score (s # states) i best tied =
     (let v = score s in
      if v < best then pickMin_loop score states (i + 1) v [i]
      else if v = best then pickMin_loop score states (i + 1) best (tied @ [i])
      else pickMin_loop score states (i + 1) best tied)"

definition pickMin :: "64 word \<Rightarrow> KeyState list \<Rightarrow> (KeyState \<Rightarrow> int) \<Rightarrow> int \<times> 64 word" where
  "pickMin cursor states score =
     (case states of
        [] \<Rightarrow> (-1, cursor)
      | s0 # rest \<Rightarrow>
          (let tied = pickMin_loop score rest 1 (score s0) [0]
           in (int (tied ! (unat cursor mod length tied)), cursor + 1)))"

definition roundRobin_Select :: "64 word \<Rightarrow> KeyState list \<Rightarrow> int \<times> 64 word" where
  "roundRobin_Select cursor states =
     (if states = [] then (-1, cursor)
      else (int (unat cursor mod length states), cursor + 1))"

definition leastUsed_Select :: "64 word \<Rightarrow> KeyState list \<Rightarrow> int \<times> 64 word" where
  "leastUsed_Select cursor states = pickMin cursor states byLoad"

definition leastTokens_Select :: "64 word \<Rightarrow> KeyState list \<Rightarrow> int \<times> 64 word" where
  "leastTokens_Select cursor states =
     (if \<exists>s \<in> set states. ks_Estimated s then pickMin cursor states byLoad
      else pickMin cursor states ks_Tokens)"

text \<open>Dynamic dispatch of \<open>RotationPolicy.Select\<close>; the cursor inside the policy
  advances.\<close>

fun Select :: "RotationPolicy \<Rightarrow> KeyState list \<Rightarrow> int \<times> RotationPolicy" where
  "Select (roundRobinPolicy c) states = map_prod id roundRobinPolicy (roundRobin_Select c states)"
| "Select (leastUsedPolicy c) states = map_prod id leastUsedPolicy (leastUsed_Select c states)"
| "Select (leastTokensPolicy c) states = map_prod id leastTokensPolicy (leastTokens_Select c states)"

declare NewPolicy_def [rotation_defs] byLoad_def [rotation_defs] pickMin_def [rotation_defs]
  roundRobin_Select_def [rotation_defs] leastUsed_Select_def [rotation_defs]
  leastTokens_Select_def [rotation_defs]

section \<open>\<open>pickMin\<close> finds the minima\<close>

text \<open>The positions, in ascending order, whose score is the least one.\<close>

definition min_positions :: "(KeyState \<Rightarrow> int) \<Rightarrow> KeyState list \<Rightarrow> nat list" where
  "min_positions score states =
     filter (\<lambda>i. \<forall>s \<in> set states. score (states ! i) \<le> score s) [0 ..< length states]"

lemma min_positions_eq:
  assumes "s0 \<in> set states" "\<forall>s \<in> set states. score s0 \<le> score s"
  shows "min_positions score states =
         filter (\<lambda>i. score (states ! i) = score s0) [0 ..< length states]"
  unfolding min_positions_def
  by (rule filter_cong) (use assms in \<open>auto intro: antisym\<close>)

text \<open>The loop invariant: with the first \<open>length xs\<close> states scanned, \<open>tied\<close> holds the
  positions of the minima among them.\<close>

lemma pickMin_loop_correct:
  assumes "xs \<noteq> []" "s0 \<in> set xs" "\<forall>s \<in> set xs. score s0 \<le> score s"
  shows "pickMin_loop score rest (length xs) (score s0) (min_positions score xs)
         = min_positions score (xs @ rest)"
  using assms
proof (induction rest arbitrary: xs s0)
  case (Cons s rest)
  let ?ys = "xs @ [s]"
  have upt: "[0 ..< length ?ys] = [0 ..< length xs] @ [length xs]" by simp
  have old: "filter (\<lambda>i. score (?ys ! i) = v) [0 ..< length xs]
           = filter (\<lambda>i. score (xs ! i) = v) [0 ..< length xs]" for v
    by (rule filter_cong) (auto simp: nth_append)
  note mx = min_positions_eq [OF Cons.prems(2,3)]
  consider "score s < score s0" | "score s = score s0" | "score s0 < score s" by linarith
  then show ?case
  proof cases
    case 1
    then have all: "\<forall>y \<in> set ?ys. score s \<le> score y" using Cons.prems(3) by force
    have "score (xs ! i) \<noteq> score s" if "i < length xs" for i
      using 1 Cons.prems(3) nth_mem [OF that] by force
    then have "filter (\<lambda>i. score (xs ! i) = score s) [0 ..< length xs] = []"
      by (simp add: filter_empty_conv)
    then have "min_positions score ?ys = [length xs]"
      using min_positions_eq [of s ?ys score] all by (simp add: old)
    with Cons.IH [of ?ys s] all 1 show ?thesis by simp
  next
    case 2
    then have all: "\<forall>y \<in> set ?ys. score s0 \<le> score y" using Cons.prems(3) by simp
    have "min_positions score ?ys = min_positions score xs @ [length xs]"
      using min_positions_eq [of s0 ?ys score] all 2 Cons.prems(2) by (simp add: old mx)
    with Cons.IH [of ?ys s0] all 2 Cons.prems(2) show ?thesis by simp
  next
    case 3
    then have all: "\<forall>y \<in> set ?ys. score s0 \<le> score y" using Cons.prems(3) by simp
    have "min_positions score ?ys = min_positions score xs"
      using min_positions_eq [of s0 ?ys score] all 3 Cons.prems(2) by (simp add: old mx)
    with Cons.IH [of ?ys s0] all 3 Cons.prems(2) show ?thesis by simp
  qed
qed simp

lemma pickMin_eq:
  assumes "states \<noteq> []"
  shows "pickMin cursor states score =
    (int (min_positions score states ! (unat cursor mod length (min_positions score states))),
     cursor + 1)"
proof -
  obtain s0 rest where s: "states = s0 # rest" using assms by (cases states) auto
  have "pickMin_loop score rest (length [s0]) (score s0) (min_positions score [s0])
        = min_positions score ([s0] @ rest)"
    by (rule pickMin_loop_correct) auto
  then show ?thesis by (simp add: s pickMin_def Let_def min_positions_def)
qed

lemma min_positions_nonempty: "states \<noteq> [] \<Longrightarrow> min_positions score states \<noteq> []"
proof -
  assume ne: "states \<noteq> []"
  let ?m = "Min (score ` set states)"
  have "?m \<in> score ` set states" using ne by (intro Min_in) auto
  then obtain i where "i < length states" "score (states ! i) = ?m"
    by (auto simp: in_set_conv_nth)
  then have "i \<in> set (min_positions score states)" by (simp add: min_positions_def)
  then show ?thesis by auto
qed

lemma min_positions_less: "i \<in> set (min_positions score states) \<Longrightarrow> i < length states"
  by (simp add: min_positions_def)

lemma pickMin_Nil [simp]: "pickMin c [] score = (-1, c)"
  by (simp add: pickMin_def)

lemma pickMin_mem:
  assumes "states \<noteq> []"
  shows "nat (fst (pickMin c states score)) \<in> set (min_positions score states)"
    "0 \<le> fst (pickMin c states score)" "snd (pickMin c states score) = c + 1"
  using min_positions_nonempty [OF assms, of score] by (simp_all add: pickMin_eq [OF assms])

section \<open>The policy contract\<close>

locale key_selector =
  fixes select :: "64 word \<Rightarrow> KeyState list \<Rightarrow> int \<times> 64 word"
  assumes declines: "select c [] = (-1, c)"
    and in_range: "states \<noteq> [] \<Longrightarrow>
      0 \<le> fst (select c states) \<and> fst (select c states) < int (length states)"
    and advances: "states \<noteq> [] \<Longrightarrow> snd (select c states) = c + 1"
begin

lemma selected_mem: "states \<noteq> [] \<Longrightarrow> states ! nat (fst (select c states)) \<in> set states"
  using in_range [of states c] by (intro nth_mem) linarith

lemma declines_iff: "fst (select c states) = -1 \<longleftrightarrow> states = []"
  using declines in_range [of states c] by (cases "states = []") auto

end

interpretation round_robin: key_selector roundRobin_Select
  by unfold_locales (auto simp: roundRobin_Select_def)

interpretation least_used: key_selector leastUsed_Select
proof (standard, goal_cases)
  case (2 states c)
  then show ?case
    using pickMin_mem [OF 2, of c byLoad] min_positions_less
    by (fastforce simp: leastUsed_Select_def)
qed (simp_all add: leastUsed_Select_def pickMin_mem)

interpretation least_tokens: key_selector leastTokens_Select
proof (standard, goal_cases)
  case (2 states c)
  then show ?case
    using pickMin_mem [OF 2, of c byLoad] pickMin_mem [OF 2, of c ks_Tokens] min_positions_less
    by (fastforce simp: leastTokens_Select_def)
qed (simp_all add: leastTokens_Select_def pickMin_mem)

text \<open>Every policy honours the contract, so the containment branches of the store are
  never taken.\<close>

lemma Select_in_range:
  "states \<noteq> [] \<Longrightarrow> 0 \<le> fst (Select p states) \<and> fst (Select p states) < int (length states)"
  using round_robin.in_range least_used.in_range least_tokens.in_range
  by (cases p) (auto simp: map_prod_def split_beta)

end
