(* ===== verification/Go_Float.thy ===== *)
theory Go_Float
  imports Router_Prelude "HOL-Library.Log_Nat" Complex_Main
begin

text \<open>
  Go's \<open>float64\<close>, as far as the router computes with it.  A finite double is a
  dyadic rational, so values are \<^typ>\<open>rat\<close> and every arithmetic operation is the
  exact one followed by \<open>f64_round\<close>: round to nearest, ties to even, on the grid
  of 53 significant bits (subnormals included).  Overflow to infinity cannot
  occur for the magnitudes the code handles (64-bit integers and their quotients
  by constants) and is not modelled.
\<close>

definition floor_log2 :: "rat \<Rightarrow> int" where
  "floor_log2 x =
     (let (p, q) = quotient_of x; k = bitlen p - bitlen q
      in if 2 powi k \<le> x then k else k - 1)"

text \<open>Round to the nearest integer, ties to even.\<close>

definition rne :: "rat \<Rightarrow> int" where
  "rne y =
     (let f = \<lfloor>y\<rfloor>; d = y - of_int f
      in if d < 1/2 then f else if 1/2 < d then f + 1 else if even f then f else f + 1)"

definition f64_scale :: "rat \<Rightarrow> int" where
  "f64_scale x = max (floor_log2 \<bar>x\<bar> - 52) (-1074)"

definition f64_round :: "rat \<Rightarrow> rat" where
  "f64_round x =
     (if x = 0 then 0
      else let e = f64_scale x in of_int (rne (x / 2 powi e)) * 2 powi e)"

definition f64_of_int :: "int \<Rightarrow> rat" where "f64_of_int n = f64_round (of_int n)"
definition f64_mul :: "rat \<Rightarrow> rat \<Rightarrow> rat" where "f64_mul x y = f64_round (x * y)"
definition f64_div :: "rat \<Rightarrow> rat \<Rightarrow> rat" where "f64_div x y = f64_round (x / y)"
definition f64_add :: "rat \<Rightarrow> rat \<Rightarrow> rat" where "f64_add x y = f64_round (x + y)"
definition f64_sub :: "rat \<Rightarrow> rat \<Rightarrow> rat" where "f64_sub x y = f64_round (x - y)"

lemma rne_of_int [simp]: "rne (of_int n) = n"
  by (simp add: rne_def)

lemma rne_mono:
  assumes "x \<le> y" shows "rne x \<le> rne y"
proof (cases "\<lfloor>x\<rfloor> = \<lfloor>y\<rfloor>")
  case True
  with assms show ?thesis by (auto simp: rne_def Let_def)
next
  case False
  with assms have "\<lfloor>x\<rfloor> + 1 \<le> \<lfloor>y\<rfloor>" using floor_mono [OF assms] by linarith
  moreover have "rne x \<le> \<lfloor>x\<rfloor> + 1" "\<lfloor>y\<rfloor> \<le> rne y" by (auto simp: rne_def Let_def)
  ultimately show ?thesis by linarith
qed

lemma powi2_nat: "0 \<le> k \<Longrightarrow> (2::rat) powi k = of_int (2 ^ nat k)"
  by (simp add: power_int_def)

lemma bitlen_ge_1: "0 < n \<Longrightarrow> 1 \<le> bitlen n"
  by (simp add: bitlen_def floorlog_def)

lemma bitlen_rat_bounds:
  assumes "0 < n"
  shows "2 powi (bitlen n - 1) \<le> (of_int n :: rat)" "(of_int n :: rat) < 2 powi bitlen n"
proof -
  note b = bitlen_bounds [OF assms] and l = bitlen_ge_1 [OF assms]
  show "2 powi (bitlen n - 1) \<le> (of_int n :: rat)"
    unfolding powi2_nat [OF diff_ge_0_iff_ge [THEN iffD2, OF l]] of_int_le_iff using b by simp
  have l': "0 \<le> bitlen n" using l by linarith
  show "(of_int n :: rat) < 2 powi bitlen n"
    unfolding powi2_nat [OF l'] of_int_less_iff using b by simp
qed

lemma powi2_add: "(2::rat) powi m * 2 powi n = 2 powi (m + n)"
  by (simp add: power_int_add)

lemma powi2_pos [simp]: "0 < (2::rat) powi n"
  by simp

lemma floor_log2_bounds:
  assumes "0 < x"
  shows "2 powi floor_log2 x \<le> x" "x < 2 powi (floor_log2 x + 1)"
proof -
  obtain p q where pq: "quotient_of x = (p, q)" by (cases "quotient_of x")
  have q: "0 < q" using pq quotient_of_denom_pos by blast
  have x: "x = of_int p / of_int q" using pq quotient_of_div by blast
  with assms q have p: "0 < p" by (simp add: zero_less_divide_iff)
  let ?k = "bitlen p - bitlen q"
  have "of_int p < (2::rat) powi bitlen p" using bitlen_rat_bounds p by blast
  also have "\<dots> = 2 powi (?k + 1) * 2 powi (bitlen q - 1)"
    unfolding powi2_add by (rule arg_cong [where f = "(powi) 2"]) linarith
  also have "\<dots> \<le> 2 powi (?k + 1) * of_int q"
    by (rule mult_left_mono [OF bitlen_rat_bounds(1) [OF q]]) (rule less_imp_le, rule powi2_pos)
  finally have up: "x < 2 powi (?k + 1)" using q by (simp only: x divide_less_eq of_int_0_less_iff) simp
  have "(2::rat) powi (?k - 1) * of_int q \<le> 2 powi (?k - 1) * 2 powi bitlen q"
    by (rule mult_left_mono [OF less_imp_le [OF bitlen_rat_bounds(2) [OF q]]])
      (rule less_imp_le, rule powi2_pos)
  also have "\<dots> = 2 powi (bitlen p - 1)"
    unfolding powi2_add by (rule arg_cong [where f = "(powi) 2"]) linarith
  also have "\<dots> \<le> of_int p" using bitlen_rat_bounds(1) [OF p] .
  finally have low: "2 powi (?k - 1) \<le> x"
    using q by (simp only: x le_divide_eq of_int_0_less_iff) simp
  have "floor_log2 x = (if 2 powi ?k \<le> x then ?k else ?k - 1)"
    by (simp only: floor_log2_def pq Let_def prod.case)
  then show "2 powi floor_log2 x \<le> x" "x < 2 powi (floor_log2 x + 1)"
    using up low by (cases "2 powi ?k \<le> x"; simp)+
qed

lemma powi2_mono: "m \<le> n \<Longrightarrow> (2::rat) powi m \<le> 2 powi n"
  by (rule power_int_increasing) auto

lemma floor_log2_mono:
  assumes "0 < x" "x \<le> y" shows "floor_log2 x \<le> floor_log2 y"
proof (rule ccontr)
  assume "\<not> ?thesis"
  then have "(2::rat) powi (floor_log2 y + 1) \<le> 2 powi floor_log2 x"
    by (intro powi2_mono) linarith
  with floor_log2_bounds [of x] floor_log2_bounds [of y] assms show False by linarith
qed

lemma f64_scale_mono: "0 < x \<Longrightarrow> x \<le> y \<Longrightarrow> f64_scale x \<le> f64_scale y"
  unfolding f64_scale_def using floor_log2_mono [of x y] by simp

lemma f64_round_0 [simp]: "f64_round 0 = 0" by (simp add: f64_round_def)

lemma floor_log2_unique:
  assumes "2 powi k \<le> x" "x < 2 powi (k + 1)" shows "floor_log2 x = k"
proof -
  have x: "0 < x" by (rule less_le_trans [OF powi2_pos assms(1)])
  note b = floor_log2_bounds [OF x]
  have "\<not> k < floor_log2 x"
    using powi2_mono [of "k + 1" "floor_log2 x"] b assms by linarith
  moreover have "\<not> floor_log2 x < k"
    using powi2_mono [of "floor_log2 x + 1" k] b assms by linarith
  ultimately show ?thesis by linarith
qed

lemma f64_round_pos:
  "0 < x \<Longrightarrow> f64_round x = of_int (rne (x / 2 powi f64_scale x)) * 2 powi f64_scale x"
  by (simp add: f64_round_def Let_def)

lemma powi2_split:
  assumes "e \<le> k" shows "(2::rat) powi k = of_int (2 ^ nat (k - e)) * 2 powi e"
proof -
  have "(2::rat) powi k = 2 powi (k - e) * 2 powi e" unfolding powi2_add by simp
  then show ?thesis using powi2_nat [of "k - e"] assms by simp
qed

lemma f64_round_le:
  assumes "0 < x" "x \<le> 2 powi k" "f64_scale x \<le> k"
  shows "f64_round x \<le> 2 powi k"
proof -
  let ?e = "f64_scale x"
  note k = powi2_split [OF assms(3)]
  have "x / 2 powi ?e \<le> of_int (2 ^ nat (k - ?e))"
    using assms(2) unfolding k pos_divide_le_eq [OF powi2_pos] .
  then have "rne (x / 2 powi ?e) \<le> 2 ^ nat (k - ?e)" using rne_mono rne_of_int by metis
  then show ?thesis unfolding f64_round_pos [OF assms(1)] k
    by (intro mult_right_mono) (simp_all only: of_int_le_iff less_imp_le [OF powi2_pos])
qed

lemma f64_round_ge:
  assumes "2 powi k \<le> x" "f64_scale x \<le> k"
  shows "2 powi k \<le> f64_round x"
proof -
  let ?e = "f64_scale x"
  note k = powi2_split [OF assms(2)]
  have x: "0 < x" by (rule less_le_trans [OF powi2_pos assms(1)])
  have "of_int (2 ^ nat (k - ?e)) \<le> x / 2 powi ?e"
    using assms(1) unfolding k pos_le_divide_eq [OF powi2_pos] .
  then have "2 ^ nat (k - ?e) \<le> rne (x / 2 powi ?e)" using rne_mono rne_of_int by metis
  then show ?thesis unfolding f64_round_pos [OF x] k
    by (intro mult_right_mono) (simp_all only: of_int_le_iff less_imp_le [OF powi2_pos])
qed

text \<open>Rounding is monotone.\<close>

lemma f64_round_mono_pos:
  assumes "0 < x" "x \<le> y" shows "f64_round x \<le> f64_round y"
proof (cases "f64_scale x = f64_scale y")
  case True
  have "rne (x / 2 powi f64_scale y) \<le> rne (y / 2 powi f64_scale y)"
    by (rule rne_mono, rule divide_right_mono) (use assms in simp_all)
  then show ?thesis using assms True
    by (simp add: f64_round_pos mult_right_mono)
next
  case False
  let ?k = "floor_log2 y"
  have y: "0 < y" using assms by simp
  from False f64_scale_mono [OF assms] have lt: "f64_scale x < f64_scale y" by simp
  with y have ey: "f64_scale y = ?k - 52" using assms(1) by (auto simp: f64_scale_def)
  have "floor_log2 x < ?k" using lt ey assms(1) by (auto simp: f64_scale_def)
  then have "x \<le> 2 powi ?k"
    using floor_log2_bounds(2) [OF assms(1)] powi2_mono [of "floor_log2 x + 1" ?k] by linarith
  then have "f64_round x \<le> 2 powi ?k" using lt ey assms by (intro f64_round_le) auto
  also have "\<dots> \<le> f64_round y"
    using floor_log2_bounds(1) [OF y] ey by (intro f64_round_ge) auto
  finally show ?thesis .
qed

lemma f64_round_nonneg: "0 \<le> x \<Longrightarrow> 0 \<le> f64_round x"
proof (cases "x = 0")
  case False
  assume "0 \<le> x"
  with False have x: "0 < x" by simp
  then have "0 \<le> x / 2 powi f64_scale x" by simp
  then have "0 \<le> rne (x / 2 powi f64_scale x)" using rne_mono [of 0] rne_of_int [of 0] by simp
  then show ?thesis using x by (simp add: f64_round_pos)
qed simp

lemma f64_round_mono: "0 \<le> x \<Longrightarrow> x \<le> y \<Longrightarrow> f64_round x \<le> f64_round y"
  using f64_round_mono_pos [of x y] f64_round_nonneg [of y] by (cases "x = 0") auto

text \<open>Rounding leaves powers of two, the values it produces and the integers up to
  \<open>2^53\<close> unchanged.\<close>

lemma f64_round_powi2: "-1074 \<le> k \<Longrightarrow> f64_round (2 powi k) = 2 powi k"
proof -
  assume k: "-1074 \<le> k"
  have "floor_log2 (2 powi k) = k"
    by (rule floor_log2_unique) (simp_all add: power_int_add)
  then have s: "f64_scale (2 powi k) \<le> k" using k by (simp add: f64_scale_def)
  from f64_round_le [OF powi2_pos order_refl s] f64_round_ge [OF order_refl s]
  show ?thesis by simp
qed

lemma f64_round_int_scale:
  assumes "0 < x" "x = of_int m * 2 powi f64_scale x" shows "f64_round x = x"
proof -
  have "x / 2 powi f64_scale x = of_int m"
    by (subst assms(2)) simp
  then show ?thesis by (subst f64_round_pos [OF assms(1)], subst assms(2)) simp
qed

lemma floor_log2_nonneg: "1 \<le> x \<Longrightarrow> 0 \<le> floor_log2 x"
proof (rule ccontr)
  assume x: "1 \<le> x" and "\<not> 0 \<le> floor_log2 x"
  then have "(2::rat) powi (floor_log2 x + 1) \<le> 2 powi 0" by (intro powi2_mono) simp
  with floor_log2_bounds(2) [of x] x show False by simp
qed

lemma f64_round_idem:
  assumes "0 \<le> x" shows "f64_round (f64_round x) = f64_round x"
proof (cases "f64_round x = 0")
  case False
  let ?k = "floor_log2 x" and ?r = "f64_round x"
  have x: "0 < x" using assms False by (cases "x = 0") auto
  have r: "0 < ?r" using False f64_round_nonneg [OF assms] by simp
  have m: "?r = of_int (rne (x / 2 powi f64_scale x)) * 2 powi f64_scale x" by (rule f64_round_pos [OF x])
  have hi: "?r \<le> 2 powi max (?k + 1) (-1022)"
  proof (rule f64_round_le [OF x])
    show "x \<le> 2 powi max (?k + 1) (-1022)"
      using floor_log2_bounds(2) [OF x] powi2_mono [of "?k + 1" "max (?k + 1) (-1022)"] by simp
    show "f64_scale x \<le> max (?k + 1) (-1022)" using x by (auto simp: f64_scale_def max_def)
  qed
  show ?thesis
  proof (cases "?r = 2 powi max (?k + 1) (-1022)")
    case True
    then show ?thesis using f64_round_powi2 [of "max (?k + 1) (-1022)"] by simp
  next
    case False
    then have lt: "?r < 2 powi max (?k + 1) (-1022)" using hi by simp
    have "floor_log2 ?r < max (?k + 1) (-1022)"
      using floor_log2_bounds(1) [OF r] lt powi2_mono [of "max (?k + 1) (-1022)" "floor_log2 ?r"] by linarith
    moreover have "-1022 \<le> ?k \<Longrightarrow> ?k \<le> floor_log2 ?r"
    proof -
      assume k: "-1022 \<le> ?k"
      then have "2 powi ?k \<le> ?r" using floor_log2_bounds(1) [OF x] x by (intro f64_round_ge) (auto simp: f64_scale_def)
      then show "?k \<le> floor_log2 ?r"
        using floor_log2_bounds(2) [OF r] powi2_mono [of "floor_log2 ?r + 1" ?k] by linarith
    qed
    ultimately have "f64_scale ?r = f64_scale x" using r x by (auto simp: f64_scale_def max_def split: if_splits)
    then show ?thesis using f64_round_int_scale [OF r] m by metis
  qed
qed simp

lemma f64_of_int_exact:
  assumes "0 \<le> n" "n \<le> 2 ^ 53" shows "f64_of_int n = of_int n"
proof (cases "n = 0 \<or> n = 2 ^ 53")
  case True
  then show ?thesis
    using f64_round_powi2 [of 53] by (auto simp: f64_of_int_def)
next
  case False
  with assms have n: "0 < n" "n < 2 ^ 53" by auto
  let ?x = "of_int n :: rat"
  have x: "0 < ?x" "1 \<le> ?x" using n by auto
  have "?x < 2 powi 53" using n(2) by simp
  then have k: "floor_log2 ?x \<le> 52"
    using floor_log2_bounds(1) [OF x(1)] powi2_mono [of 53 "floor_log2 ?x"] by linarith
  have s: "f64_scale ?x \<le> 0" using k unfolding f64_scale_def abs_of_pos [OF x(1)] by simp
  have "1 = of_int (2 ^ nat (0 - f64_scale ?x)) * (2::rat) powi f64_scale ?x"
    using powi2_split [OF s] by simp
  then have "?x = of_int (n * 2 ^ nat (0 - f64_scale ?x)) * 2 powi f64_scale ?x"
    by (metis mult.assoc mult.right_neutral of_int_mult)
  from f64_round_int_scale [OF x(1) this] show ?thesis unfolding f64_of_int_def .
qed

lemma f64_of_int_mono: "0 \<le> m \<Longrightarrow> m \<le> n \<Longrightarrow> f64_of_int m \<le> f64_of_int n"
  by (simp add: f64_of_int_def f64_round_mono)

lemma f64_of_int_nonneg: "0 \<le> n \<Longrightarrow> 0 \<le> f64_of_int n"
  by (simp add: f64_of_int_def f64_round_nonneg)

lemma f64_mul_1 [simp]: "0 \<le> n \<Longrightarrow> f64_mul 1 (f64_of_int n) = f64_of_int n"
  using f64_round_idem [of "of_int n"] by (cases "n = 0") (auto simp: f64_mul_def f64_of_int_def)

lemma f64_mul_le:
  assumes "0 \<le> r" "r \<le> 1" "0 \<le> n"
  shows "f64_mul r (f64_of_int n) \<le> f64_of_int n"
proof -
  have "r * f64_of_int n \<le> 1 * f64_of_int n"
    using assms f64_of_int_nonneg by (intro mult_right_mono) auto
  then have "f64_mul r (f64_of_int n) \<le> f64_mul 1 (f64_of_int n)"
    unfolding f64_mul_def using assms f64_of_int_nonneg [of n] by (intro f64_round_mono) auto
  then show ?thesis using assms by simp
qed

end
