(* ===== verification/Rotation_Store.thy ===== *)
theory Rotation_Store
  imports Rotation Go_Float
begin

text \<open>
  Per-route, per-key accounting with reservations, caps and retirement:
  \<open>internal/channel/rotation_store.go\<close>.  \<open>keyState\<close>, \<open>routeState\<close> and \<open>Store\<close> are
  the Go structs; every exported method holds the store's mutex for its whole body,
  so it is one function from the store and the clock reading to its result and the
  new store, together with the retirement events it reports to the observer.
  Counters that move by one per event are unbounded; token sums and products, whose
  operands come from the upstream and the configuration, wrap at 64 bits.
\<close>

named_theorems store_defs \<open>definitions of the per-key operations\<close>

section \<open>Data\<close>

definition TokensUnknown :: int where "TokensUnknown = -1"

datatype SampleOutcome = OutcomeCompleted | OutcomeFailed

record UsageSample =
  us_Outcome :: SampleOutcome
  us_Tokens :: int
  us_Estimated :: bool

record Budget =
  b_Window :: duration
  b_Tokens :: int
  b_Requests :: int
  b_SoftRatio :: rat
  b_EstimateTokens :: int

definition DefaultSoftRatio :: rat where "DefaultSoftRatio = f64_round (8 / 10)"
definition DefaultMaxRetryAfter :: duration where "DefaultMaxRetryAfter = Hour"
definition MinRetryAfter :: duration where "MinRetryAfter = Second"
definition DefaultQuotaCooldown :: duration where "DefaultQuotaCooldown = 5 * Minute"
definition DefaultLeaseTimeout :: duration where "DefaultLeaseTimeout = 30 * Minute"

record keyState =
  k_requests :: int
  k_tokens :: int
  k_leases :: "time list"
  k_orphaned :: int
  k_reclaimed :: int
  k_errors :: int
  k_estimated :: bool
  k_drained :: bool
  k_softRetired :: bool
  k_retiredUntil :: time
  k_retireReason :: RetireReason

definition zero_keyState :: keyState where
  "zero_keyState =
     \<lparr> k_requests = 0, k_tokens = 0, k_leases = [], k_orphaned = 0, k_reclaimed = 0,
       k_errors = 0, k_estimated = False, k_drained = False, k_softRetired = False,
       k_retiredUntil = zero_time, k_retireReason = [] \<rparr>"

record routeState =
  rs_keys :: "keyState list"
  rs_windowStart :: time

record Store =
  st_routes :: "string \<Rightarrow> routeState option"
  st_policy :: RotationPolicy
  st_fallback :: RotationPolicy
  st_budget :: Budget
  st_maxRetryAfter :: duration
  st_leaseTimeout :: duration

type_synonym retire_event = "string \<times> RetireReason"

section \<open>Per-key operations\<close>

definition inFlight :: "keyState \<Rightarrow> int" where
  "inFlight k = int (length (k_leases k))"

definition releaseLocked :: "keyState \<Rightarrow> keyState" where
  "releaseLocked k =
     (if 0 < k_orphaned k then k\<lparr>k_orphaned := k_orphaned k - 1\<rparr>
      else if k_leases k \<noteq> [] then k\<lparr>k_leases := tl (k_leases k)\<rparr>
      else k)"

definition reclaimStaleLocked :: "duration \<Rightarrow> time \<Rightarrow> keyState \<Rightarrow> keyState" where
  "reclaimStaleLocked leaseTimeout now k =
     (if leaseTimeout \<le> 0 \<or> k_leases k = [] then k
      else let cutoff = now + (- leaseTimeout);
               n = length (takeWhile (\<lambda>t. \<not> cutoff < t) (k_leases k))
           in if n = 0 then k
              else k\<lparr>k_leases := drop n (k_leases k),
                     k_orphaned := k_orphaned k + int n,
                     k_reclaimed := k_reclaimed k + int n\<rparr>)"

definition selectableAt :: "keyState \<Rightarrow> time \<Rightarrow> bool" where
  "selectableAt k now \<longleftrightarrow> \<not> k_drained k \<and> \<not> k_softRetired k \<and> \<not> now < k_retiredUntil k"

definition reasonAt :: "keyState \<Rightarrow> time \<Rightarrow> RetireReason" where
  "reasonAt k now =
     (if k_drained k \<or> k_softRetired k then ReasonCap
      else if now < k_retiredUntil k
           then (if k_retireReason k = [] then ReasonQuota else k_retireReason k)
      else [])"

definition admissibleLocked :: "Budget \<Rightarrow> keyState \<Rightarrow> time \<Rightarrow> bool" where
  "admissibleLocked b k now =
     (if \<not> selectableAt k now then False
      else if b_Window b \<le> 0 then True
      else if 0 < b_Requests b \<and> b_Requests b \<le> k_requests k + inFlight k then False
      else if 0 < b_Tokens b
              \<and> b_Tokens b \<le> wrap64 (k_tokens k + wrap64 (inFlight k * b_EstimateTokens b))
           then False
      else True)"

definition atRatio :: "int \<Rightarrow> int \<Rightarrow> rat \<Rightarrow> bool" where
  "atRatio used limit ratio \<longleftrightarrow>
     0 < limit \<and> f64_mul ratio (f64_of_int limit) \<le> f64_of_int used"

definition applyCapsLocked :: "Budget \<Rightarrow> keyState \<Rightarrow> keyState \<times> RetireReason list" where
  "applyCapsLocked b k =
     (if b_Window b \<le> 0 \<or> (b_Requests b \<le> 0 \<and> b_Tokens b \<le> 0) then (k, [])
      else let wasRetired = k_drained k \<or> k_softRetired k;
               k' = (if atRatio (k_requests k) (b_Requests b) 1 \<or> atRatio (k_tokens k) (b_Tokens b) 1
                     then k\<lparr>k_drained := True, k_softRetired := True\<rparr>
                     else if atRatio (k_requests k) (b_Requests b) (b_SoftRatio b)
                             \<or> atRatio (k_tokens k) (b_Tokens b) (b_SoftRatio b)
                     then k\<lparr>k_softRetired := True\<rparr>
                     else k)
           in if (k_drained k' \<or> k_softRetired k') \<and> \<not> wasRetired then (k', [ReasonCap])
              else (k', []))"

definition settleLocked :: "Budget \<Rightarrow> UsageSample \<Rightarrow> keyState \<Rightarrow> keyState \<times> RetireReason list" where
  "settleLocked b sample k0 =
     (let k = releaseLocked k0 in
      if us_Outcome sample = OutcomeFailed then (k\<lparr>k_errors := k_errors k + 1\<rparr>, [])
      else let k1 = k\<lparr>k_requests := k_requests k + 1\<rparr>;
               charge = (if us_Tokens sample = TokensUnknown then b_EstimateTokens b
                         else us_Tokens sample);
               k2 = (if us_Tokens sample = TokensUnknown then k1\<lparr>k_estimated := True\<rparr> else k1)
           in applyCapsLocked b (k2\<lparr>k_tokens := wrap64 (k_tokens k2 + charge)\<rparr>))"

definition retireLocked ::
  "keyState \<Rightarrow> time \<Rightarrow> time \<Rightarrow> RetireReason \<Rightarrow> keyState \<times> RetireReason list" where
  "retireLocked k now until reason =
     (if \<not> now < until then (k, [])
      else let alreadyOut = now < k_retiredUntil k;
               k' = (if k_retiredUntil k < until
                     then k\<lparr>k_retiredUntil := until, k_retireReason := reason\<rparr> else k)
           in if alreadyOut then (k', []) else (k', [reason]))"

definition keyStateLocked :: "nat \<Rightarrow> keyState \<Rightarrow> time \<Rightarrow> KeyState" where
  "keyStateLocked i k now =
     \<lparr> ks_Index = i, ks_Requests = k_requests k, ks_Tokens = k_tokens k,
       ks_InFlight = inFlight k, ks_Errors = k_errors k, ks_Reclaimed = k_reclaimed k,
       ks_Estimated = k_estimated k, ks_Selectable = selectableAt k now,
       ks_SoftRetired = k_softRetired k, ks_Drained = k_drained k,
       ks_RetiredUntil = k_retiredUntil k, ks_Reason = reasonAt k now \<rparr>"

section \<open>Per-route operations\<close>

definition roll_key :: "time \<Rightarrow> keyState \<Rightarrow> keyState" where
  "roll_key now k =
     (let k' = k\<lparr>k_requests := 0, k_tokens := 0, k_errors := 0, k_estimated := False,
                 k_drained := False, k_softRetired := False\<rparr>
      in if \<not> now < k_retiredUntil k' then k'\<lparr>k_retiredUntil := zero_time, k_retireReason := []\<rparr>
         else k')"

definition rollLocked :: "duration \<Rightarrow> time \<Rightarrow> routeState \<Rightarrow> routeState" where
  "rollLocked w now rs =
     (if w \<le> 0 then rs
      else let elapsed = time_sub now (rs_windowStart rs)
           in if elapsed < w then rs
              else rs\<lparr>rs_windowStart := rs_windowStart rs + go_quot elapsed w * w,
                      rs_keys := map (roll_key now) (rs_keys rs)\<rparr>)"

definition advanceLocked :: "Store \<Rightarrow> time \<Rightarrow> routeState \<Rightarrow> routeState" where
  "advanceLocked s now rs =
     rollLocked (b_Window (st_budget s)) now
       (rs\<lparr>rs_keys := map (reclaimStaleLocked (st_leaseTimeout s) now) (rs_keys rs)\<rparr>)"

definition waitForLocked :: "Store \<Rightarrow> routeState \<Rightarrow> keyState \<Rightarrow> time \<Rightarrow> duration" where
  "waitForLocked s rs k now =
     (let w0 = (if now < k_retiredUntil k then time_sub (k_retiredUntil k) now else 0)
      in if k_drained k \<or> k_softRetired k
         then (if 0 < b_Window (st_budget s)
               then let d = time_sub (rs_windowStart rs + b_Window (st_budget s)) now
                    in if w0 < d then d else w0
               else if w0 = 0 then st_maxRetryAfter s
               else w0)
         else w0)"

definition set_route :: "string \<Rightarrow> routeState \<Rightarrow> Store \<Rightarrow> Store" where
  "set_route route rs s = s\<lparr>st_routes := (st_routes s)(route \<mapsto> rs)\<rparr>"

section \<open>Store methods\<close>

record StoreOpts =
  so_policy :: "RotationPolicy option"
  so_budget :: Budget
  so_maxRetryAfter :: duration
  so_leaseTimeout :: duration

datatype StoreOption =
    WithPolicy "RotationPolicy option"
  | WithBudget Budget
  | WithMaxRetryAfter duration
  | WithLeaseTimeout duration

fun apply_option :: "StoreOption \<Rightarrow> StoreOpts \<Rightarrow> StoreOpts" where
  "apply_option (WithPolicy p) o' = o'\<lparr>so_policy := p\<rparr>"
| "apply_option (WithBudget b) o' = o'\<lparr>so_budget := b\<rparr>"
| "apply_option (WithMaxRetryAfter d) o' = o'\<lparr>so_maxRetryAfter := d\<rparr>"
| "apply_option (WithLeaseTimeout d) o' = o'\<lparr>so_leaseTimeout := d\<rparr>"

definition zero_Budget :: Budget where
  "zero_Budget = \<lparr> b_Window = 0, b_Tokens = 0, b_Requests = 0, b_SoftRatio = 0,
                   b_EstimateTokens = 0 \<rparr>"

text \<open>\<open>keys\<close> maps a route name to its key count; routes without keys are left out.\<close>

definition NewStore :: "time \<Rightarrow> (string \<Rightarrow> int option) \<Rightarrow> StoreOption list \<Rightarrow> Store" where
  "NewStore start keys opts =
     (let o' = fold apply_option opts
                 \<lparr> so_policy = Some (roundRobinPolicy 0), so_budget = zero_Budget,
                   so_maxRetryAfter = DefaultMaxRetryAfter, so_leaseTimeout = 0 \<rparr>;
          b = so_budget o'
      in \<lparr> st_routes = (\<lambda>name. case keys name of
                          None \<Rightarrow> None
                        | Some n \<Rightarrow> if n \<le> 0 then None
                            else Some \<lparr> rs_keys = replicate (nat n) zero_keyState,
                                        rs_windowStart = start \<rparr>),
           st_policy = (case so_policy o' of None \<Rightarrow> roundRobinPolicy 0 | Some p \<Rightarrow> p),
           st_fallback = roundRobinPolicy 0,
           st_budget = (if b_SoftRatio b \<le> 0 \<or> 1 < b_SoftRatio b
                        then b\<lparr>b_SoftRatio := DefaultSoftRatio\<rparr> else b),
           st_maxRetryAfter = (if so_maxRetryAfter o' \<le> 0 then DefaultMaxRetryAfter
                               else so_maxRetryAfter o'),
           st_leaseTimeout = (if so_leaseTimeout o' \<le> 0 then DefaultLeaseTimeout
                              else so_leaseTimeout o') \<rparr>)"

datatype admissionRefusal = refusalNone | refusalDrained | refusalAdmission

text \<open>The two filters of \<open>reserve\<close>: the number of selectable keys and the snapshots of
  the admissible ones, in index order.\<close>

definition selectable_count :: "routeState \<Rightarrow> time \<Rightarrow> nat" where
  "selectable_count rs now = length (filter (\<lambda>k. selectableAt k now) (rs_keys rs))"

definition candidate_states :: "Budget \<Rightarrow> routeState \<Rightarrow> time \<Rightarrow> KeyState list" where
  "candidate_states b rs now =
     map (\<lambda>(i, k). keyStateLocked i k now)
       (filter (\<lambda>(i, k). selectableAt k now \<and> admissibleLocked b k now) (indexed (rs_keys rs)))"

definition out_of_range :: "int \<Rightarrow> KeyState list \<Rightarrow> bool" where
  "out_of_range pos states \<longleftrightarrow> pos < 0 \<or> int (length states) \<le> pos"

definition reserve :: "time \<Rightarrow> string \<Rightarrow> Store \<Rightarrow> (int \<times> admissionRefusal) \<times> Store" where
  "reserve now route s =
     (case st_routes s route of
        None \<Rightarrow> ((-1, refusalDrained), s)
      | Some rs0 \<Rightarrow>
          (let rs = advanceLocked s now rs0;
               states = candidate_states (st_budget s) rs now;
               s1 = set_route route rs s
           in if states = []
              then (if 0 < selectable_count rs now then ((-1, refusalAdmission), s1)
                    else ((-1, refusalDrained), s1))
              else let (pos1, pol) = Select (st_policy s) states;
                       (pos2, fb) = (if out_of_range pos1 states then Select (st_fallback s) states
                                     else (pos1, st_fallback s));
                       pos = (if out_of_range pos2 states then 0 else pos2);
                       idx = ks_Index (states ! nat pos);
                       rs' = rs\<lparr>rs_keys := (rs_keys rs)[idx :=
                               (rs_keys rs ! idx)\<lparr>k_leases := k_leases (rs_keys rs ! idx) @ [now]\<rparr>]\<rparr>
                   in ((int idx, refusalNone),
                       (set_route route rs' s)\<lparr>st_policy := pol, st_fallback := fb\<rparr>)))"

definition Store_Next :: "time \<Rightarrow> string \<Rightarrow> Store \<Rightarrow> int \<times> Store" where
  "Store_Next now route s = (case reserve now route s of ((idx, _), s') \<Rightarrow> (idx, s'))"

text \<open>Apply \<open>f\<close> to key \<open>idx\<close> of a route after bringing the route up to date: the
  critical section shared by the settling and the retiring methods.\<close>

definition on_key ::
  "time \<Rightarrow> string \<Rightarrow> int \<Rightarrow> (routeState \<Rightarrow> keyState \<Rightarrow> keyState \<times> RetireReason list)
   \<Rightarrow> Store \<Rightarrow> Store \<times> retire_event list" where
  "on_key now route idx f s =
     (case st_routes s route of
        Some rs0 \<Rightarrow>
          (if 0 \<le> idx \<and> idx < int (length (rs_keys rs0))
           then let rs = advanceLocked s now rs0;
                    (k, events) = f rs (rs_keys rs ! nat idx)
                in (set_route route (rs\<lparr>rs_keys := (rs_keys rs)[nat idx := k]\<rparr>) s,
                    map (Pair route) events)
           else (s, []))
      | None \<Rightarrow> (s, []))"

definition normalise_sample :: "UsageSample \<Rightarrow> UsageSample" where
  "normalise_sample sample =
     (if us_Tokens sample < 0 then sample\<lparr>us_Tokens := TokensUnknown, us_Estimated := True\<rparr>
      else sample)"

definition RecordSample ::
  "time \<Rightarrow> string \<Rightarrow> int \<Rightarrow> UsageSample \<Rightarrow> Store \<Rightarrow> Store \<times> retire_event list" where
  "RecordSample now route idx sample s =
     on_key now route idx (\<lambda>_. settleLocked (st_budget s) (normalise_sample sample)) s"

definition RecordUsage ::
  "time \<Rightarrow> string \<Rightarrow> int \<Rightarrow> int \<Rightarrow> Store \<Rightarrow> Store \<times> retire_event list" where
  "RecordUsage now route idx tokens s =
     RecordSample now route idx
       \<lparr>us_Outcome = OutcomeCompleted, us_Tokens = tokens, us_Estimated = False\<rparr> s"

definition RetireWithReason ::
  "time \<Rightarrow> string \<Rightarrow> int \<Rightarrow> time \<Rightarrow> RetireReason \<Rightarrow> Store \<Rightarrow> Store \<times> retire_event list" where
  "RetireWithReason now route idx until reason s =
     on_key now route idx
       (\<lambda>_ k. retireLocked k now until (if reason = [] then ReasonQuota else reason)) s"

definition Retire :: "time \<Rightarrow> string \<Rightarrow> int \<Rightarrow> time \<Rightarrow> Store \<Rightarrow> Store \<times> retire_event list" where
  "Retire now route idx until s = RetireWithReason now route idx until ReasonQuota s"

definition retireForWindow ::
  "time \<Rightarrow> string \<Rightarrow> int \<Rightarrow> RetireReason \<Rightarrow> Store \<Rightarrow> Store \<times> retire_event list" where
  "retireForWindow now route idx reason s =
     on_key now route idx
       (\<lambda>rs k. retireLocked k now
          (if 0 < b_Window (st_budget s) then rs_windowStart rs + b_Window (st_budget s)
           else now + DefaultQuotaCooldown)
          (if reason = [] then ReasonQuota else reason)) s"

text \<open>The scan of \<open>RetryAfter\<close>: \<open>None\<close> as soon as a selectable key is met, otherwise the
  shortest wait (-1 before the first key).\<close>

fun shortest_wait :: "Store \<Rightarrow> routeState \<Rightarrow> time \<Rightarrow> keyState list \<Rightarrow> duration \<Rightarrow> duration option" where
  "shortest_wait s rs now [] best = Some best"
| "shortest_wait s rs now (k # ks) best =
     (if selectableAt k now then None
      else let w = waitForLocked s rs k now
           in shortest_wait s rs now ks (if best < 0 \<or> w < best then w else best))"

definition RetryAfter :: "time \<Rightarrow> string \<Rightarrow> Store \<Rightarrow> (duration \<times> bool) \<times> Store" where
  "RetryAfter now route s =
     (case st_routes s route of
        None \<Rightarrow> ((0, False), s)
      | Some rs0 \<Rightarrow>
          (if rs_keys rs0 = [] then ((0, False), s)
           else let rs = advanceLocked s now rs0; s' = set_route route rs s
                in case shortest_wait s rs now (rs_keys rs) (-1) of
                     None \<Rightarrow> ((0, False), s')
                   | Some best \<Rightarrow>
                       (if best < 0 then ((0, False), s')
                        else let b1 = (if st_maxRetryAfter s < best then st_maxRetryAfter s else best);
                                 b2 = (if b1 < MinRetryAfter then MinRetryAfter else b1)
                             in ((b2, True), s'))))"

definition Snapshot :: "time \<Rightarrow> string \<Rightarrow> Store \<Rightarrow> KeyState list \<times> Store" where
  "Snapshot now route s =
     (case st_routes s route of
        None \<Rightarrow> ([], s)
      | Some rs0 \<Rightarrow>
          (let rs = advanceLocked s now rs0
           in (map (\<lambda>(i, k). keyStateLocked i k now) (indexed (rs_keys rs)),
               set_route route rs s)))"

section \<open>Leases\<close>

text \<open>\<open>KeyLease\<close>; \<open>kl_done\<close> is the state of its \<open>sync.Once\<close>.\<close>

record KeyLease =
  kl_route :: string
  kl_index :: int
  kl_done :: bool

definition acquire :: "time \<Rightarrow> string \<Rightarrow> Store \<Rightarrow> (KeyLease option \<times> admissionRefusal) \<times> Store" where
  "acquire now route s =
     (case reserve now route s of
        ((idx, refusal), s') \<Rightarrow>
          (if refusal \<noteq> refusalNone then ((None, refusal), s')
           else ((Some \<lparr>kl_route = route, kl_index = idx, kl_done = False\<rparr>, refusalNone), s')))"

definition Acquire :: "time \<Rightarrow> string \<Rightarrow> Store \<Rightarrow> (KeyLease option \<times> bool) \<times> Store" where
  "Acquire now route s =
     (case acquire now route s of ((lease, refusal), s') \<Rightarrow> ((lease, refusal = refusalNone), s'))"

definition Settle ::
  "time \<Rightarrow> UsageSample \<Rightarrow> KeyLease \<Rightarrow> Store \<Rightarrow> (KeyLease \<times> Store) \<times> retire_event list" where
  "Settle now sample l s =
     (if kl_done l then ((l, s), [])
      else case RecordSample now (kl_route l) (kl_index l) sample s of
             (s', events) \<Rightarrow> ((l\<lparr>kl_done := True\<rparr>, s'), events))"

lemmas key_op_defs = inFlight_def releaseLocked_def reclaimStaleLocked_def selectableAt_def
  reasonAt_def retireLocked_def roll_key_def zero_keyState_def

declare key_op_defs [store_defs]

section \<open>Per-key invariant\<close>

text \<open>The reservations a key's holders have not settled yet, whether or not their slot
  was reclaimed.\<close>

definition outstanding :: "keyState \<Rightarrow> int" where
  "outstanding k = inFlight k + k_orphaned k"

definition key_inv :: "Budget \<Rightarrow> keyState \<Rightarrow> bool" where
  "key_inv b k \<longleftrightarrow>
     0 \<le> k_orphaned k \<and> k_orphaned k \<le> k_reclaimed k \<and> 0 \<le> k_requests k
     \<and> (k_drained k \<longrightarrow> k_softRetired k)
     \<and> (b_Window b \<le> 0 \<longrightarrow> \<not> k_softRetired k)
     \<and> (0 < b_Window b \<and> 0 < b_Requests b \<longrightarrow>
          k_requests k + outstanding k \<le> b_Requests b + k_reclaimed k)"

lemma inFlight_nonneg [simp]: "0 \<le> inFlight k" by (simp add: inFlight_def)

lemma key_inv_zero [simp]: "key_inv b zero_keyState"
  by (simp add: key_inv_def outstanding_def store_defs)

lemma outstanding_zero [simp]: "outstanding zero_keyState = 0"
  by (simp add: outstanding_def store_defs)

text \<open>Reclaiming moves slots from the lease list to the orphan count.\<close>

lemma reclaim_leases:
  obtains n where "n \<le> length (k_leases k)"
    "reclaimStaleLocked lt now k =
       k\<lparr>k_leases := drop n (k_leases k), k_orphaned := k_orphaned k + int n,
         k_reclaimed := k_reclaimed k + int n\<rparr>"
proof
  let ?n = "if lt \<le> 0 \<or> k_leases k = [] then 0
            else length (takeWhile (\<lambda>t. \<not> now + - lt < t) (k_leases k))"
  show "?n \<le> length (k_leases k)" by (simp add: length_takeWhile_le)
  show "reclaimStaleLocked lt now k =
       k\<lparr>k_leases := drop ?n (k_leases k), k_orphaned := k_orphaned k + int ?n,
         k_reclaimed := k_reclaimed k + int ?n\<rparr>"
    by (simp add: reclaimStaleLocked_def Let_def)
qed

lemma reclaim_outstanding [simp]: "outstanding (reclaimStaleLocked lt now k) = outstanding k"
  by (rule reclaim_leases [of k lt now]) (simp add: outstanding_def inFlight_def)

lemma reclaim_inv [simp]: "key_inv b k \<Longrightarrow> key_inv b (reclaimStaleLocked lt now k)"
  by (rule reclaim_leases [of k lt now]) (auto simp: key_inv_def outstanding_def inFlight_def)

lemma reclaim_selectable [simp]: "selectableAt (reclaimStaleLocked lt now k) t = selectableAt k t"
  by (rule reclaim_leases [of k lt now]) (simp add: selectableAt_def)

lemma roll_outstanding [simp]: "outstanding (roll_key now k) = outstanding k"
  by (simp add: outstanding_def store_defs Let_def)

lemma roll_inv [simp]: "key_inv b k \<Longrightarrow> key_inv b (roll_key now k)"
  by (auto simp: key_inv_def outstanding_def store_defs Let_def)

lemma release_outstanding:
  "key_inv b k \<Longrightarrow> 0 < outstanding k \<Longrightarrow> outstanding (releaseLocked k) = outstanding k - 1"
  by (cases "k_leases k") (auto simp: key_inv_def outstanding_def store_defs)

lemma release_fields [simp]:
  "k_requests (releaseLocked k) = k_requests k" "k_reclaimed (releaseLocked k) = k_reclaimed k"
  "k_drained (releaseLocked k) = k_drained k" "k_softRetired (releaseLocked k) = k_softRetired k"
  "k_tokens (releaseLocked k) = k_tokens k" "k_errors (releaseLocked k) = k_errors k"
  "k_retiredUntil (releaseLocked k) = k_retiredUntil k"
  by (simp_all add: releaseLocked_def)

lemma release_orphaned:
  "0 \<le> k_orphaned k \<Longrightarrow> 0 \<le> k_orphaned (releaseLocked k) \<and> k_orphaned (releaseLocked k) \<le> k_orphaned k"
  by (simp add: releaseLocked_def)

lemma applyCaps_fields [simp]:
  "k_requests (fst (applyCapsLocked b k)) = k_requests k"
  "k_tokens (fst (applyCapsLocked b k)) = k_tokens k"
  "k_leases (fst (applyCapsLocked b k)) = k_leases k"
  "k_orphaned (fst (applyCapsLocked b k)) = k_orphaned k"
  "k_reclaimed (fst (applyCapsLocked b k)) = k_reclaimed k"
  "k_retiredUntil (fst (applyCapsLocked b k)) = k_retiredUntil k"
  by (simp_all add: applyCapsLocked_def Let_def)

lemma applyCaps_flags:
  "k_drained (fst (applyCapsLocked b k)) \<longrightarrow> k_drained k \<or> k_softRetired (fst (applyCapsLocked b k))"
  "k_softRetired (fst (applyCapsLocked b k)) \<longrightarrow> k_softRetired k \<or> 0 < b_Window b"
  "k_softRetired k \<longrightarrow> k_softRetired (fst (applyCapsLocked b k))"
  by (auto simp: applyCapsLocked_def Let_def)

lemma applyCaps_outstanding [simp]: "outstanding (fst (applyCapsLocked b k)) = outstanding k"
  by (simp add: outstanding_def inFlight_def)

lemma outstanding_update [simp]:
  "outstanding (k\<lparr>k_requests := r\<rparr>) = outstanding k"
  "outstanding (k\<lparr>k_tokens := r\<rparr>) = outstanding k"
  "outstanding (k\<lparr>k_errors := r\<rparr>) = outstanding k"
  "outstanding (k\<lparr>k_estimated := e\<rparr>) = outstanding k"
  "outstanding (k\<lparr>k_retiredUntil := u, k_retireReason := w\<rparr>) = outstanding k"
  by (simp_all add: outstanding_def inFlight_def)

lemma settle_outstanding:
  "key_inv b k \<Longrightarrow> 0 < outstanding k \<Longrightarrow>
   outstanding (fst (settleLocked b' smp k)) = outstanding k - 1"
  by (simp add: settleLocked_def Let_def release_outstanding)

lemma applyCaps_inv: "key_inv b k \<Longrightarrow> key_inv b (fst (applyCapsLocked b k))"
  using applyCaps_flags [where b = b and k = k] by (simp add: key_inv_def) linarith

lemma settle_inv:
  assumes "key_inv b k" "0 < outstanding k" shows "key_inv b (fst (settleLocked b smp k))"
proof -
  let ?r = "releaseLocked k"
  have o: "outstanding ?r = outstanding k - 1"
    using assms by (rule release_outstanding)
  have "key_inv b (?r\<lparr>k_errors := e\<rparr>)"
    "key_inv b (?r\<lparr>k_requests := k_requests k + 1, k_tokens := t\<rparr>)"
    "key_inv b (?r\<lparr>k_requests := k_requests k + 1, k_estimated := True, k_tokens := t\<rparr>)" for e t
    using assms(1) o release_orphaned [of k] by (auto simp: key_inv_def)
  then show ?thesis by (simp add: settleLocked_def Let_def applyCaps_inv)
qed

lemma retire_fields [simp]:
  "k_requests (fst (retireLocked k now u r)) = k_requests k"
  "k_drained (fst (retireLocked k now u r)) = k_drained k"
  "k_softRetired (fst (retireLocked k now u r)) = k_softRetired k"
  "k_orphaned (fst (retireLocked k now u r)) = k_orphaned k"
  "k_reclaimed (fst (retireLocked k now u r)) = k_reclaimed k"
  "outstanding (fst (retireLocked k now u r)) = outstanding k"
  by (simp_all add: retireLocked_def Let_def)

lemma retire_inv [simp]: "key_inv b k \<Longrightarrow> key_inv b (fst (retireLocked k now u r))"
  by (simp add: key_inv_def)

text \<open>Admission is what keeps the request cap: a reserved slot fits under it.\<close>

lemma reserve_key_inv:
  assumes "key_inv b k" "admissibleLocked b k now"
  shows "key_inv b (k\<lparr>k_leases := k_leases k @ [now]\<rparr>)"
    "outstanding (k\<lparr>k_leases := k_leases k @ [now]\<rparr>) = outstanding k + 1"
  using assms
  by (auto simp: key_inv_def outstanding_def inFlight_def admissibleLocked_def split: if_splits)

section \<open>Store-wide invariant\<close>

text \<open>What \<open>advanceLocked\<close> does to one key.\<close>

definition advance_key :: "Store \<Rightarrow> time \<Rightarrow> routeState \<Rightarrow> keyState \<Rightarrow> keyState" where
  "advance_key s now rs k =
     (let k' = reclaimStaleLocked (st_leaseTimeout s) now k; w = b_Window (st_budget s)
      in if w \<le> 0 \<or> time_sub now (rs_windowStart rs) < w then k' else roll_key now k')"

lemma advance_keys: "rs_keys (advanceLocked s now rs) = map (advance_key s now rs) (rs_keys rs)"
  by (auto simp: advanceLocked_def rollLocked_def advance_key_def Let_def)

lemma advance_length [simp]: "length (rs_keys (advanceLocked s now rs)) = length (rs_keys rs)"
  by (simp add: advance_keys)

lemma advance_nth:
  "i < length (rs_keys rs) \<Longrightarrow>
   rs_keys (advanceLocked s now rs) ! i = advance_key s now rs (rs_keys rs ! i)"
  by (simp add: advance_keys)

lemma advance_key_outstanding [simp]: "outstanding (advance_key s now rs k) = outstanding k"
  by (simp add: advance_key_def Let_def)

lemma advance_key_inv [simp]: "key_inv b k \<Longrightarrow> key_inv b (advance_key s now rs k)"
  by (simp add: advance_key_def Let_def)

text \<open>\<open>P\<close> holds of every key of the store, given its route and position.\<close>

definition all_keys :: "(string \<Rightarrow> nat \<Rightarrow> keyState \<Rightarrow> bool) \<Rightarrow> Store \<Rightarrow> bool" where
  "all_keys P s \<longleftrightarrow> (\<forall>r rs i. st_routes s r = Some rs \<longrightarrow> i < length (rs_keys rs) \<longrightarrow>
                          P r i (rs_keys rs ! i))"

lemma all_keysD:
  "all_keys P s \<Longrightarrow> st_routes s r = Some rs \<Longrightarrow> i < length (rs_keys rs) \<Longrightarrow> P r i (rs_keys rs ! i)"
  by (simp add: all_keys_def)

lemma set_route_simps [simp]:
  "st_budget (set_route r rs s) = st_budget s"
  "st_leaseTimeout (set_route r rs s) = st_leaseTimeout s"
  "st_maxRetryAfter (set_route r rs s) = st_maxRetryAfter s"
  "st_policy (set_route r rs s) = st_policy s"
  "st_fallback (set_route r rs s) = st_fallback s"
  "st_routes (set_route r rs s) = (st_routes s)(r \<mapsto> rs)"
  by (simp_all add: set_route_def)

lemma all_keys_set_route:
  assumes "all_keys P s" "\<And>i. i < length (rs_keys rs) \<Longrightarrow> Q r i (rs_keys rs ! i)"
    and "\<And>r' i k. r' \<noteq> r \<Longrightarrow> P r' i k \<Longrightarrow> Q r' i k"
  shows "all_keys Q (set_route r rs s)"
  using assms by (auto simp: all_keys_def)

lemma all_keys_advance:
  assumes "all_keys P s" "st_routes s r = Some rs"
    and "\<And>i k. P r i k \<Longrightarrow> P r i (advance_key s now rs k)"
  shows "all_keys P (set_route r (advanceLocked s now rs) s)"
  using assms by (intro all_keys_set_route [OF assms(1)]) (auto simp: advance_nth all_keys_def)

text \<open>One key of an advanced route is replaced; \<open>Q\<close> may differ from \<open>P\<close> there.\<close>

lemma all_keys_update:
  assumes "all_keys P s" "st_routes s r = Some rs"
    and adv: "\<And>i k. P r i k \<Longrightarrow> P r i (advance_key s now rs k)"
    and at: "j < length (rs_keys rs) \<Longrightarrow> P r j (rs_keys (advanceLocked s now rs) ! j) \<Longrightarrow> Q r j k'"
    and other: "\<And>r' i k. (r', i) \<noteq> (r, j) \<Longrightarrow> P r' i k \<Longrightarrow> Q r' i k"
  shows "all_keys Q (set_route r ((advanceLocked s now rs)\<lparr>rs_keys :=
           (rs_keys (advanceLocked s now rs))[j := k']\<rparr>) s)"
proof (rule all_keys_set_route [OF assms(1)])
  fix i
  assume i: "i < length (rs_keys ((advanceLocked s now rs)\<lparr>rs_keys :=
           (rs_keys (advanceLocked s now rs))[j := k']\<rparr>))"
  then have P: "P r i (rs_keys (advanceLocked s now rs) ! i)"
    using all_keysD [OF assms(1,2), of i] adv by (simp add: advance_nth)
  show "Q r i (rs_keys ((advanceLocked s now rs)\<lparr>rs_keys :=
           (rs_keys (advanceLocked s now rs))[j := k']\<rparr>) ! i)"
    using i P at other [of r i] by (cases "i = j") auto
qed (use other in auto)

lemma candidate_index:
  assumes "states = candidate_states b rs now" "p < length states"
  defines "i \<equiv> ks_Index (states ! p)"
  shows "i < length (rs_keys rs)" "selectableAt (rs_keys rs ! i) now"
    "admissibleLocked b (rs_keys rs ! i) now" "states ! p = keyStateLocked i (rs_keys rs ! i) now"
proof -
  have "states ! p \<in> set states" using assms by simp
  then obtain j where "j < length (rs_keys rs)" "selectableAt (rs_keys rs ! j) now"
    "admissibleLocked b (rs_keys rs ! j) now" "states ! p = keyStateLocked j (rs_keys rs ! j) now"
    unfolding assms(1) candidate_states_def by (auto simp: set_indexed)
  moreover from this have "i = j" by (simp add: i_def keyStateLocked_def)
  ultimately show "i < length (rs_keys rs)" "selectableAt (rs_keys rs ! i) now"
    "admissibleLocked b (rs_keys rs ! i) now" "states ! p = keyStateLocked i (rs_keys rs ! i) now"
    by simp_all
qed

text \<open>A reservation in one equation: refused, or one lease is appended to a selectable and
  admissible key chosen by the policy.\<close>

lemma reserve_cases:
  assumes "reserve now route s = ((idx, refusal), s')"
  obtains (unknown) "st_routes s route = None" "idx = -1" "refusal = refusalDrained" "s' = s"
  | (refused) rs where "st_routes s route = Some rs" "idx = -1"
      "candidate_states (st_budget s) (advanceLocked s now rs) now = []"
      "refusal = (if 0 < selectable_count (advanceLocked s now rs) now
                  then refusalAdmission else refusalDrained)"
      "s' = set_route route (advanceLocked s now rs) s"
  | (granted) rs p where "st_routes s route = Some rs" "refusal = refusalNone"
      "p < length (candidate_states (st_budget s) (advanceLocked s now rs) now)"
      "int p = fst (Select (st_policy s) (candidate_states (st_budget s) (advanceLocked s now rs) now))"
      "idx = int (ks_Index (candidate_states (st_budget s) (advanceLocked s now rs) now ! p))"
      "s' = (set_route route ((advanceLocked s now rs)\<lparr>rs_keys :=
               (rs_keys (advanceLocked s now rs))[nat idx :=
                  (rs_keys (advanceLocked s now rs) ! nat idx)\<lparr>k_leases :=
                     k_leases (rs_keys (advanceLocked s now rs) ! nat idx) @ [now]\<rparr>]\<rparr>) s)
            \<lparr>st_policy := snd (Select (st_policy s)
                (candidate_states (st_budget s) (advanceLocked s now rs) now)),
             st_fallback := st_fallback s\<rparr>"
proof (cases "st_routes s route")
  case None
  with assms show ?thesis by (intro unknown) (simp_all add: reserve_def)
next
  case (Some rs)
  let ?st = "candidate_states (st_budget s) (advanceLocked s now rs) now"
  show ?thesis
  proof (cases "?st = []")
    case True
    with assms Some show ?thesis
      by (intro refused [of rs]) (auto simp: reserve_def Let_def split: if_splits)
  next
    case False
    obtain pos pol where sel: "Select (st_policy s) ?st = (pos, pol)" by (cases "Select (st_policy s) ?st")
    with Select_in_range [OF False, of "st_policy s"] have r: "0 \<le> pos" "pos < int (length ?st)"
      by simp_all
    then have "\<not> out_of_range pos ?st" by (simp add: out_of_range_def)
    with assms Some False sel show ?thesis using r
      by (intro granted [of rs "nat pos"]) (auto simp: reserve_def Let_def)
  qed
qed

section \<open>The store and the leases handed out\<close>

text \<open>A gateway takes reservations only through \<open>acquire\<close> and settles them only through
  the lease.  Its state is the store with every lease it was handed; the steps may
  come in any order, at any clock readings.\<close>

record gateway =
  g_store :: Store
  g_leases :: "KeyLease list"

inductive gw_step :: "time \<Rightarrow> gateway \<Rightarrow> gateway \<Rightarrow> bool" where
  gw_granted: "acquire now route (g_store g) = ((Some l, refusalNone), s') \<Longrightarrow>
     gw_step now g \<lparr>g_store = s', g_leases = g_leases g @ [l]\<rparr>"
| gw_refused: "acquire now route (g_store g) = ((None, refusal), s') \<Longrightarrow>
     gw_step now g (g\<lparr>g_store := s'\<rparr>)"
| gw_settle: "j < length (g_leases g) \<Longrightarrow>
     Settle now sample (g_leases g ! j) (g_store g) = ((l', s'), events) \<Longrightarrow>
     gw_step now g \<lparr>g_store = s', g_leases = (g_leases g)[j := l']\<rparr>"
| gw_retire: "RetireWithReason now route idx until reason (g_store g) = (s', events) \<Longrightarrow>
     gw_step now g (g\<lparr>g_store := s'\<rparr>)"
| gw_window: "retireForWindow now route idx reason (g_store g) = (s', events) \<Longrightarrow>
     gw_step now g (g\<lparr>g_store := s'\<rparr>)"
| gw_retry_after: "RetryAfter now route (g_store g) = (r, s') \<Longrightarrow>
     gw_step now g (g\<lparr>g_store := s'\<rparr>)"
| gw_snapshot: "Snapshot now route (g_store g) = (ks, s') \<Longrightarrow>
     gw_step now g (g\<lparr>g_store := s'\<rparr>)"

inductive gw_reach :: "Store \<Rightarrow> gateway \<Rightarrow> bool" for s0 where
  gw_init: "gw_reach s0 \<lparr>g_store = s0, g_leases = []\<rparr>"
| gw_next: "gw_reach s0 g \<Longrightarrow> gw_step now g g' \<Longrightarrow> gw_reach s0 g'"

text \<open>Any steps with clock readings before \<open>T\<close>.\<close>

inductive gw_before :: "time \<Rightarrow> gateway \<Rightarrow> gateway \<Rightarrow> bool" for T g where
  gw_before_refl: "gw_before T g g"
| gw_before_step: "gw_before T g g' \<Longrightarrow> t < T \<Longrightarrow> gw_step t g' g'' \<Longrightarrow> gw_before T g g''"

text \<open>The unsettled leases on one key.\<close>

definition open_leases :: "KeyLease list \<Rightarrow> string \<Rightarrow> nat \<Rightarrow> int" where
  "open_leases ls route i =
     count_if (\<lambda>l. \<not> kl_done l \<and> kl_route l = route \<and> kl_index l = int i) ls"

definition accounts :: "Budget \<Rightarrow> KeyLease list \<Rightarrow> string \<Rightarrow> nat \<Rightarrow> keyState \<Rightarrow> bool" where
  "accounts b ls r i k \<longleftrightarrow> key_inv b k \<and> outstanding k = open_leases ls r i"

definition gw_inv :: "gateway \<Rightarrow> bool" where
  "gw_inv g \<longleftrightarrow> all_keys (accounts (st_budget (g_store g)) (g_leases g)) (g_store g)"

lemma accounts_advance [intro]: "accounts b ls r i k \<Longrightarrow> accounts b ls r i (advance_key s now rs k)"
  by (simp add: accounts_def)

lemma open_leases_snoc:
  "open_leases (ls @ [l]) r i =
   open_leases ls r i + (if \<not> kl_done l \<and> kl_route l = r \<and> kl_index l = int i then 1 else 0)"
  by (simp add: open_leases_def)

lemma open_leases_update:
  "j < length ls \<Longrightarrow> open_leases (ls[j := l']) r i =
    open_leases ls r i - open_leases [ls ! j] r i + open_leases [l'] r i"
  by (simp add: open_leases_def count_if_update)

lemma open_leases_one_pos:
  "j < length ls \<Longrightarrow> \<not> kl_done (ls ! j) \<Longrightarrow> kl_index (ls ! j) = int i \<Longrightarrow>
   0 < open_leases ls (kl_route (ls ! j)) i"
  unfolding open_leases_def by (rule count_if_pos) simp_all

lemma on_key_budget [simp]: "st_budget (fst (on_key now route idx f s)) = st_budget s"
  by (simp add: on_key_def Let_def split: option.splits prod.splits)

text \<open>A per-key operation that keeps a key predicate keeps it on the whole store.\<close>

lemma on_key_all:
  assumes "all_keys P s"
    and "\<And>r i k rs. P r i k \<Longrightarrow> P r i (advance_key s now rs k)"
    and "\<And>r i k rs. P r i k \<Longrightarrow> P r i (fst (f rs k))"
  shows "all_keys P (fst (on_key now route idx f s))"
proof (cases "\<exists>rs0. st_routes s route = Some rs0 \<and> 0 \<le> idx \<and> idx < int (length (rs_keys rs0))")
  case True
  then obtain rs0 where rs: "st_routes s route = Some rs0" "0 \<le> idx" "idx < int (length (rs_keys rs0))"
    by blast
  have "all_keys P (set_route route ((advanceLocked s now rs0)\<lparr>rs_keys :=
      (rs_keys (advanceLocked s now rs0))[nat idx :=
        fst (f (advanceLocked s now rs0) (rs_keys (advanceLocked s now rs0) ! nat idx))]\<rparr>) s)"
    by (rule all_keys_update [OF assms(1) rs(1)]) (use assms(2,3) in auto)
  then show ?thesis using rs by (simp add: on_key_def Let_def split_beta)
next
  case False
  then show ?thesis using assms(1) by (auto simp: on_key_def split: option.splits)
qed

lemma on_key_accounts:
  assumes "all_keys (accounts b ls) s"
    and "\<And>rs k. key_inv b k \<Longrightarrow> key_inv b (fst (f rs k)) \<and> outstanding (fst (f rs k)) = outstanding k"
  shows "all_keys (accounts b ls) (fst (on_key now route idx f s))"
  by (rule on_key_all [OF assms(1)]) (use assms(2) in \<open>auto simp: accounts_def\<close>)

lemma settle_accounts:
  assumes inv: "all_keys (accounts (st_budget s) ls) s"
    and j: "j < length ls" and set: "Settle now smp (ls ! j) s = ((l', s'), events)"
  shows "all_keys (accounts (st_budget s) (ls[j := l'])) s'"
proof (cases "kl_done (ls ! j)")
  case True
  then have "l' = ls ! j" "s' = s" using set by (auto simp: Settle_def)
  then show ?thesis using inv by simp
next
  case False
  let ?l = "ls ! j" and ?b = "st_budget s"
  let ?f = "\<lambda>_. settleLocked ?b (normalise_sample smp)"
  have s': "s' = fst (on_key now (kl_route ?l) (kl_index ?l) ?f s)" and l': "kl_done l'"
    using set False by (auto simp: Settle_def RecordSample_def split: prod.splits)
  have less: "open_leases (ls[j := l']) r i = open_leases ls r i
      - (if kl_route ?l = r \<and> kl_index ?l = int i then 1 else 0)" for r i
    using False l' by (simp add: open_leases_update [OF j]) (simp add: open_leases_def)
  show ?thesis
  proof (cases "\<exists>rs0. st_routes s (kl_route ?l) = Some rs0 \<and> 0 \<le> kl_index ?l
      \<and> kl_index ?l < int (length (rs_keys rs0))")
    case True
    then obtain rs0 i where rs: "st_routes s (kl_route ?l) = Some rs0" "kl_index ?l = int i"
      "i < length (rs_keys rs0)"
      by (metis int_nat_eq of_nat_less_iff)
    note pos = open_leases_one_pos [OF j False rs(2)]
    have "all_keys (accounts ?b (ls[j := l'])) (set_route (kl_route ?l)
        ((advanceLocked s now rs0)\<lparr>rs_keys := (rs_keys (advanceLocked s now rs0))[i :=
          fst (settleLocked ?b (normalise_sample smp) (rs_keys (advanceLocked s now rs0) ! i))]\<rparr>) s)"
      by (rule all_keys_update [OF inv rs(1)])
        (use pos in \<open>auto simp: accounts_def settle_inv settle_outstanding less rs(2)\<close>)
    then show ?thesis using rs by (simp add: s' on_key_def Let_def split_beta)
  next
    case False
    then have "s' = s" by (auto simp: s' on_key_def split: option.splits)
    moreover have "accounts ?b (ls[j := l']) r i k"
      if "st_routes s r = Some rs" "i < length (rs_keys rs)" "accounts ?b ls r i k" for r rs i k
      using that False less [of r i] by (auto simp: accounts_def)
    ultimately show ?thesis using inv unfolding all_keys_def by blast
  qed
qed

lemma acquire_cases:
  assumes "acquire now route s = ((lo, refusal), s')"
  obtains idx where "reserve now route s = ((idx, refusal), s')"
    "lo = (if refusal = refusalNone
           then Some \<lparr>kl_route = route, kl_index = idx, kl_done = False\<rparr> else None)"
  using assms by (auto simp: acquire_def split: prod.splits if_splits)

lemma acquire_accounts:
  assumes inv: "all_keys (accounts (st_budget s) ls) s"
    and acq: "acquire now route s = ((lo, refusal), s')"
  shows "all_keys (accounts (st_budget s') (ls @ (case lo of None \<Rightarrow> [] | Some l \<Rightarrow> [l]))) s'"
proof -
  obtain idx where res: "reserve now route s = ((idx, refusal), s')"
    and lo: "lo = (if refusal = refusalNone
      then Some \<lparr>kl_route = route, kl_index = idx, kl_done = False\<rparr> else None)"
    using acq by (rule acquire_cases)
  from res show ?thesis
  proof (cases rule: reserve_cases)
    case unknown
    then show ?thesis using inv lo by simp
  next
    case (refused rs)
    then have "refusal \<noteq> refusalNone" by (simp split: if_splits)
    moreover have "all_keys (accounts (st_budget s) ls) (set_route route (advanceLocked s now rs) s)"
      by (rule all_keys_advance [OF inv refused(1)]) auto
    ultimately show ?thesis using lo refused by simp
  next
    case (granted rs p)
    let ?rs = "advanceLocked s now rs" and ?b = "st_budget s"
    let ?i = "nat idx"
    let ?k = "rs_keys ?rs ! ?i"
    note c = candidate_index [OF refl granted(3)]
    have i: "?i < length (rs_keys rs)" "admissibleLocked ?b ?k now" "idx = int ?i"
      using c granted(5) by simp_all
    have "all_keys (accounts ?b (ls @ [\<lparr>kl_route = route, kl_index = idx, kl_done = False\<rparr>]))
       (set_route route (?rs\<lparr>rs_keys := (rs_keys ?rs)[?i := ?k\<lparr>k_leases := k_leases ?k @ [now]\<rparr>]\<rparr>) s)"
      by (rule all_keys_update [OF inv granted(1)])
        (use i in \<open>auto simp: accounts_def open_leases_snoc reserve_key_inv\<close>)
    then show ?thesis using granted lo by (simp add: all_keys_def)
  qed
qed

lemma reserve_budget: "reserve now route s = (r, s') \<Longrightarrow> st_budget s' = st_budget s"
proof -
  assume a: "reserve now route s = (r, s')"
  obtain idx refusal where "r = (idx, refusal)" by (cases r)
  with a have "reserve now route s = ((idx, refusal), s')" by simp
  then show ?thesis by (cases rule: reserve_cases) auto
qed

lemma RetryAfter_store:
  assumes "RetryAfter now route s = (r, s')"
  shows "s' = s \<or> (\<exists>rs. st_routes s route = Some rs \<and> s' = set_route route (advanceLocked s now rs) s)"
  using assms by (auto simp: RetryAfter_def Let_def split: option.splits if_splits)

lemma Snapshot_store:
  assumes "Snapshot now route s = (r, s')"
  shows "s' = s \<or> (\<exists>rs. st_routes s route = Some rs \<and> s' = set_route route (advanceLocked s now rs) s)"
  using assms by (auto simp: Snapshot_def Let_def split: option.splits)

lemma advance_accounts:
  assumes "all_keys (accounts (st_budget s) ls) s"
    and "s' = s \<or> (\<exists>rs. st_routes s route = Some rs \<and> s' = set_route route (advanceLocked s now rs) s)"
  shows "all_keys (accounts (st_budget s') ls) s'"
  using assms by (auto intro: all_keys_advance)

lemma retire_accounts:
  assumes "all_keys (accounts (st_budget s) ls) s" "RetireWithReason now route idx until reason s = (s', ev)"
  shows "all_keys (accounts (st_budget s') ls) s'"
proof -
  have s': "s' = fst (RetireWithReason now route idx until reason s)" using assms(2) by simp
  show ?thesis unfolding s' RetireWithReason_def on_key_budget
    by (rule on_key_accounts [OF assms(1)]) simp
qed

lemma window_accounts:
  assumes "all_keys (accounts (st_budget s) ls) s" "retireForWindow now route idx reason s = (s', ev)"
  shows "all_keys (accounts (st_budget s') ls) s'"
proof -
  have s': "s' = fst (retireForWindow now route idx reason s)" using assms(2) by simp
  show ?thesis unfolding s' retireForWindow_def on_key_budget
    by (rule on_key_accounts [OF assms(1)]) simp
qed

lemma method_budgets:
  "st_budget (fst (RecordSample now route idx smp s)) = st_budget s"
  "st_budget (fst (RetireWithReason now route idx until reason s)) = st_budget s"
  "st_budget (fst (retireForWindow now route idx reason s)) = st_budget s"
  by (simp_all add: RecordSample_def RetireWithReason_def retireForWindow_def)

lemma Settle_store:
  assumes "Settle now smp l s = ((l', s'), ev)"
  shows "s' = s \<or> s' = fst (RecordSample now (kl_route l) (kl_index l) smp s)"
  using assms by (auto simp: Settle_def split: if_splits prod.splits)

lemma Settle_budget: "Settle now smp l s = ((l', s'), ev) \<Longrightarrow> st_budget s' = st_budget s"
  by (drule Settle_store) (auto simp: method_budgets)

lemma gw_step_inv: "gw_step t g g' \<Longrightarrow> gw_inv g \<Longrightarrow> gw_inv g'"
proof (induction rule: gw_step.induct)
  case (gw_granted now route g l s')
  then show ?case using acquire_accounts [OF _ gw_granted(1)] by (simp add: gw_inv_def)
next
  case (gw_refused now route g refusal s')
  then show ?case using acquire_accounts [OF _ gw_refused(1)] by (simp add: gw_inv_def)
next
  case (gw_settle j g now sample l' s' events)
  then show ?case
    using settle_accounts [OF _ gw_settle(1,2)] Settle_budget [OF gw_settle(2)]
    by (simp add: gw_inv_def)
next
  case (gw_retire now route idx until reason g s' events)
  then show ?case using retire_accounts [OF _ gw_retire(1)] by (simp add: gw_inv_def)
next
  case (gw_window now route idx reason g s' events)
  then show ?case using window_accounts [OF _ gw_window(1)] by (simp add: gw_inv_def)
next
  case (gw_retry_after now route g r s')
  then show ?case
    using advance_accounts [OF _ RetryAfter_store [OF gw_retry_after(1)]] by (simp add: gw_inv_def)
next
  case (gw_snapshot now route g ks s')
  then show ?case
    using advance_accounts [OF _ Snapshot_store [OF gw_snapshot(1)]] by (simp add: gw_inv_def)
qed

lemma gw_step_budget: "gw_step t g g' \<Longrightarrow> st_budget (g_store g') = st_budget (g_store g)"
proof (induction rule: gw_step.induct)
  case (gw_granted now route g l s')
  then show ?case by (auto elim!: acquire_cases dest: reserve_budget)
next
  case (gw_refused now route g refusal s')
  then show ?case by (auto elim!: acquire_cases dest: reserve_budget)
next
  case (gw_settle j g now sample l' s' events)
  then show ?case by (simp add: Settle_budget)
next
  case (gw_retire now route idx until reason g s' events)
  then show ?case using method_budgets(2) [of now route idx until reason "g_store g"] by simp
next
  case (gw_window now route idx reason g s' events)
  then show ?case using method_budgets(3) [of now route idx reason "g_store g"] by simp
qed (auto dest!: RetryAfter_store Snapshot_store)

lemma NewStore_inv: "gw_inv \<lparr>g_store = NewStore start keys opts, g_leases = []\<rparr>"
  by (auto simp: gw_inv_def all_keys_def NewStore_def accounts_def open_leases_def Let_def
      split: option.splits if_splits)

lemma gw_reach_inv: "gw_reach (NewStore start keys opts) g \<Longrightarrow> gw_inv g"
  by (induction rule: gw_reach.induct) (auto intro: gw_step_inv NewStore_inv)

end
