(* ===== verification/Store_Properties.thy ===== *)
theory Store_Properties
  imports Rotation_Store
begin

text \<open>
  Properties of the rotation store over \<open>Rotation_Store\<close>: the request cap under
  concurrent leases, what a reservation and a refusal mean, retirement, the caps
  applied at settlement and the advertised \<open>Retry-After\<close>.
\<close>

section \<open>Key predicates kept by every step\<close>

lemma reserve_all_keys:
  assumes "reserve t route s = (r, s')" "all_keys P s"
    and adv: "\<And>r i k rs. P r i k \<Longrightarrow> P r i (advance_key s t rs k)"
    and lease: "\<And>r i k ls. P r i k \<Longrightarrow> P r i (k\<lparr>k_leases := ls\<rparr>)"
  shows "all_keys P s'"
proof -
  obtain idx refusal where r: "reserve t route s = ((idx, refusal), s')"
    using assms(1) by (cases r) auto
  then show ?thesis
  proof (cases rule: reserve_cases)
    case unknown
    then show ?thesis using assms(2) by simp
  next
    case (refused rs)
    then show ?thesis using all_keys_advance [OF assms(2)] adv by auto
  next
    case (granted rs p)
    let ?rs = "advanceLocked s t rs"
    let ?k = "rs_keys ?rs ! nat idx"
    have "all_keys P (set_route route (?rs\<lparr>rs_keys :=
        (rs_keys ?rs)[nat idx := ?k\<lparr>k_leases := k_leases ?k @ [t]\<rparr>]\<rparr>) s)"
      by (rule all_keys_update [OF assms(2) granted(1)]) (use adv lease in auto)
    then show ?thesis using granted(6) by (simp add: all_keys_def)
  qed
qed

lemma gw_step_all_keys:
  assumes "gw_step t g g'" "all_keys P (g_store g)"
    and adv: "\<And>r i k s rs. P r i k \<Longrightarrow> P r i (advance_key s t rs k)"
    and lease: "\<And>r i k ls. P r i k \<Longrightarrow> P r i (k\<lparr>k_leases := ls\<rparr>)"
    and settle: "\<And>r i k b smp. P r i k \<Longrightarrow> P r i (fst (settleLocked b smp k))"
    and retire: "\<And>r i k u w. P r i k \<Longrightarrow> P r i (fst (retireLocked k t u w))"
  shows "all_keys P (g_store g')"
  using assms(1)
proof cases
  case (gw_granted route l s')
  then show ?thesis using assms(2) by (auto elim!: acquire_cases intro: reserve_all_keys adv lease)
next
  case (gw_refused route refusal s')
  then show ?thesis using assms(2) by (auto elim!: acquire_cases intro: reserve_all_keys adv lease)
next
  case (gw_settle j sample l' s' events)
  then show ?thesis using assms(2) Settle_store [OF gw_settle(3)]
    by (auto simp: RecordSample_def intro!: on_key_all adv settle)
next
  case (gw_retire route idx until reason s' events)
  then have "s' = fst (RetireWithReason t route idx until reason (g_store g))" by simp
  with gw_retire(1) assms(2) show ?thesis
    by (auto simp: RetireWithReason_def intro!: on_key_all adv retire)
next
  case (gw_window route idx reason s' events)
  then have "s' = fst (retireForWindow t route idx reason (g_store g))" by simp
  with gw_window(1) assms(2) show ?thesis
    by (auto simp: retireForWindow_def intro!: on_key_all adv retire)
next
  case (gw_retry_after route r s')
  then show ?thesis using assms(2) RetryAfter_store [OF gw_retry_after(2)]
    by (auto intro: all_keys_advance adv)
next
  case (gw_snapshot route ks s')
  then show ?thesis using assms(2) Snapshot_store [OF gw_snapshot(2)]
    by (auto intro: all_keys_advance adv)
qed

section \<open>Retirement lasts\<close>

definition parked_until :: "time \<Rightarrow> string \<Rightarrow> nat \<Rightarrow> Store \<Rightarrow> bool" where
  "parked_until T route i = all_keys (\<lambda>r j k. r = route \<and> j = i \<longrightarrow> T \<le> k_retiredUntil k)"

lemma advance_retiredUntil:
  "t < T \<Longrightarrow> T \<le> k_retiredUntil k \<Longrightarrow> T \<le> k_retiredUntil (advance_key s t rs k)"
  by (rule reclaim_leases [of k "st_leaseTimeout s" t])
    (simp add: advance_key_def roll_key_def Let_def)

lemma settle_retiredUntil [simp]:
  "k_retiredUntil (fst (settleLocked b smp k)) = k_retiredUntil k"
  by (simp add: settleLocked_def Let_def)

lemma retire_retiredUntil:
  "k_retiredUntil (fst (retireLocked k now u r)) =
   (if now < u then max (k_retiredUntil k) u else k_retiredUntil k)"
  by (simp add: retireLocked_def Let_def)

lemma retire_events:
  "snd (retireLocked k now u r) = (if now < u \<and> \<not> now < k_retiredUntil k then [r] else [])"
  by (simp add: retireLocked_def Let_def)

lemma candidate_mem:
  assumes "j < length (rs_keys rs)" "admissibleLocked b (rs_keys rs ! j) now"
  shows "keyStateLocked j (rs_keys rs ! j) now \<in> set (candidate_states b rs now)"
proof -
  have "selectableAt (rs_keys rs ! j) now"
    using assms(2) by (simp add: admissibleLocked_def split: if_splits)
  with assms show ?thesis
    unfolding candidate_states_def
    by (auto simp: set_indexed intro!: image_eqI [of _ _ "(j, rs_keys rs ! j)"])
qed

lemma gw_step_parked:
  "gw_step t g g' \<Longrightarrow> t < T \<Longrightarrow> parked_until T route i (g_store g) \<Longrightarrow>
   parked_until T route i (g_store g')"
  unfolding parked_until_def
  by (rule gw_step_all_keys) (auto simp: advance_retiredUntil retire_retiredUntil)

lemma gw_before_parked:
  "gw_before T g g' \<Longrightarrow> parked_until T route i (g_store g) \<Longrightarrow> parked_until T route i (g_store g')"
  by (induction rule: gw_before.induct) (auto intro: gw_step_parked)

lemma parked_not_reserved:
  assumes "parked_until T route i s" "t < T" "reserve t route s = ((idx, refusal), s')"
  shows "idx \<noteq> int i"
  using assms(3)
proof (cases rule: reserve_cases)
  case (granted rs p)
  note c = candidate_index [OF refl granted(3)]
  show ?thesis
  proof
    assume "idx = int i"
    with granted(5) have i: "ks_Index (candidate_states (st_budget s) (advanceLocked s t rs) t ! p) = i"
      by simp
    have "T \<le> k_retiredUntil (advance_key s t rs (rs_keys rs ! i))"
      using assms(1,2) c(1) granted(1) unfolding parked_until_def i
      by (intro advance_retiredUntil) (auto simp: all_keys_def)
    then show False using c(1,2) assms(2) by (simp add: i advance_nth selectableAt_def)
  qed
qed auto

lemma RetireWithReason_key:
  assumes "st_routes s route = Some rs" "i < length (rs_keys rs)"
  shows "RetireWithReason now route (int i) until reason s =
    (let rs' = advanceLocked s now rs;
         (k, ev) = retireLocked (rs_keys rs' ! i) now until (if reason = [] then ReasonQuota else reason)
     in (set_route route (rs'\<lparr>rs_keys := (rs_keys rs')[i := k]\<rparr>) s, map (Pair route) ev))"
  using assms by (simp add: RetireWithReason_def on_key_def Let_def split_beta)

lemma RetireWithReason_parks:
  assumes "now < until" "st_routes s route = Some rs" "i < length (rs_keys rs)"
  shows "parked_until until route i (fst (RetireWithReason now route (int i) until reason s))"
  using assms retire_retiredUntil [of "rs_keys (advanceLocked s now rs) ! i" now until]
  by (auto simp: RetireWithReason_key parked_until_def all_keys_def Let_def split_beta
      nth_list_update split: if_splits)

section \<open>When an unselectable key comes back\<close>

lemma wait_nonneg: "0 < st_maxRetryAfter s \<Longrightarrow> 0 \<le> waitForLocked s rs k now"
  by (auto simp: waitForLocked_def time_sub_def Let_def)

text \<open>The scan computes the least wait of the keys, and fails on a selectable one.\<close>

lemma shortest_wait_Some_iff:
  assumes "0 < st_maxRetryAfter s" "0 \<le> b"
  shows "shortest_wait s rs now ks b = Some m \<longleftrightarrow>
    (\<forall>k \<in> set ks. \<not> selectableAt k now)
    \<and> m = Min (insert b ((\<lambda>k. waitForLocked s rs k now) ` set ks))"
  using assms(2)
proof (induction ks arbitrary: b)
  case (Cons k ks)
  let ?w = "waitForLocked s rs k now"
  have w: "0 \<le> ?w" using assms(1) by (rule wait_nonneg)
  have min: "(if b < 0 \<or> ?w < b then ?w else b) = min b ?w" using Cons.prems by auto
  have "Min (insert b ((\<lambda>k. waitForLocked s rs k now) ` set (k # ks)))
      = Min (insert (min b ?w) ((\<lambda>k. waitForLocked s rs k now) ` set ks))"
    by (cases "ks = []") (auto simp: Min_insert ac_simps)
  with Cons.IH [of "min b ?w"] w Cons.prems show ?case by (auto simp: min Let_def)
qed auto

lemma shortest_wait_eq:
  assumes "0 < st_maxRetryAfter s" "ks \<noteq> []" "shortest_wait s rs now ks (-1) = Some m"
  shows "(\<forall>k \<in> set ks. \<not> selectableAt k now) \<and> 0 \<le> m
    \<and> m = Min ((\<lambda>k. waitForLocked s rs k now) ` set ks)"
proof -
  obtain k ks' where ks: "ks = k # ks'" using assms(2) by (cases ks) auto
  have w: "0 \<le> waitForLocked s rs k' now" for k' using assms(1) by (rule wait_nonneg)
  from assms(3) have sel: "\<not> selectableAt k now"
    and rest: "shortest_wait s rs now ks' (waitForLocked s rs k now) = Some m"
    by (auto simp: ks Let_def split: if_splits)
  from rest [unfolded shortest_wait_Some_iff [OF assms(1) w]] sel
  have "(\<forall>k \<in> set ks. \<not> selectableAt k now)"
    and m: "m = Min ((\<lambda>k. waitForLocked s rs k now) ` set ks)"
    by (auto simp: ks)
  moreover have "0 \<le> m" unfolding m using w assms(2) by simp
  ultimately show ?thesis by blast
qed

text \<open>The clock readings and deadlines stay within the range of a \<open>time.Duration\<close> of
  each other, and the window start is not in the future.\<close>

definition times_ok :: "Store \<Rightarrow> routeState \<Rightarrow> time \<Rightarrow> bool" where
  "times_ok s rs now \<longleftrightarrow> zero_time \<le> now \<and> rs_windowStart rs \<le> now
     \<and> b_Window (st_budget s) \<le> max_int64
     \<and> (\<forall>k \<in> set (rs_keys rs). k_retiredUntil k - now \<le> max_int64)"

text \<open>The window of an up-to-date route has not expired.\<close>

definition window_open :: "Store \<Rightarrow> routeState \<Rightarrow> time \<Rightarrow> bool" where
  "window_open s rs now \<longleftrightarrow>
     (0 < b_Window (st_budget s) \<longrightarrow> now < rs_windowStart rs + b_Window (st_budget s))"

lemma time_sub_pos: "u < t \<Longrightarrow> t - u \<le> max_int64 \<Longrightarrow> time_sub t u = t - u"
  by (simp add: time_sub_def)

lemma wait_exact:
  assumes "times_ok s rs now" "window_open s rs now" "k \<in> set (rs_keys rs)"
    and inv: "key_inv (st_budget s) k" and unsel: "\<not> selectableAt k now"
    and t: "now \<le> t"
  shows "selectableAt (advance_key s t rs k) t \<longleftrightarrow> now + waitForLocked s rs k now \<le> t"
proof -
  let ?W = "b_Window (st_budget s)" and ?ws = "rs_windowStart rs"
  have z: "zero_time \<le> t" and W: "?W \<le> max_int64" and ru: "k_retiredUntil k - now \<le> max_int64"
    using assms(1,3) t by (auto simp: times_ok_def)
  have caps: "?W \<le> 0 \<Longrightarrow> \<not> k_softRetired k" "k_drained k \<Longrightarrow> k_softRetired k"
    using inv by (auto simp: key_inv_def)
  show ?thesis
  proof (cases "0 < ?W")
    case False
    then show ?thesis using caps unsel t ru
      by (auto simp: advance_key_def waitForLocked_def Let_def selectableAt_def [of k] time_sub_pos)
  next
    case True
    then have open': "now < ?ws + ?W" using assms(2) by (simp add: window_open_def)
    have d: "time_sub (?ws + ?W) now = ?ws + ?W - now"
      using open' W assms(1) by (intro time_sub_pos) (auto simp: times_ok_def)
    have roll: "time_sub t ?ws < ?W \<longleftrightarrow> t < ?ws + ?W"
      using time_sub_ge_iff [of ?W t ?ws] True W by auto
    have "selectableAt (roll_key t (reclaimStaleLocked lt t k)) t \<longleftrightarrow> \<not> t < k_retiredUntil k" for lt
      using z by (rule_tac reclaim_leases [of k lt t]) (auto simp: selectableAt_def roll_key_def Let_def)
    then show ?thesis using True caps unsel t ru d open'
      by (auto simp: advance_key_def waitForLocked_def Let_def roll selectableAt_def [of k] time_sub_pos)
  qed
qed

lemma advance_window_open:
  assumes "b_Window (st_budget s) \<le> max_int64" "now - rs_windowStart rs \<le> max_int64"
  shows "window_open s (advanceLocked s now rs) now"
proof -
  let ?W = "b_Window (st_budget s)" and ?ws = "rs_windowStart rs"
  have "now < ?ws + (now - ?ws) div ?W * ?W + ?W" if "0 < ?W"
    using pos_mod_bound [OF that, of "now - ?ws"] div_mult_mod_eq [of "now - ?ws" ?W] by linarith
  moreover have "time_sub now ?ws = now - ?ws" if "0 < ?W" "\<not> time_sub now ?ws < ?W"
    using that assms by (intro time_sub_exact) (auto simp: in_int64_def time_sub_def split: if_splits)
  moreover have "time_sub now ?ws < ?W \<longleftrightarrow> now < ?ws + ?W" if "0 < ?W"
    using that assms time_sub_ge_iff [of ?W now ?ws] by auto
  ultimately show ?thesis
    by (auto simp: window_open_def advanceLocked_def rollLocked_def Let_def go_quot_nonneg)
qed

section \<open>Caps at settlement\<close>

lemma atRatio_hard: "0 < limit \<Longrightarrow> limit \<le> used \<Longrightarrow> atRatio used limit 1"
  using f64_of_int_mono [of limit used] by (simp add: atRatio_def)

lemma atRatio_hard_exact:
  assumes "0 \<le> used" "limit \<le> 2 ^ 53" "atRatio used limit 1" shows "limit \<le> used"
proof (rule ccontr)
  assume "\<not> limit \<le> used"
  with assms have "used \<le> 2 ^ 53" "0 < limit" by (auto simp: atRatio_def)
  moreover have "f64_of_int limit \<le> f64_of_int used"
    using assms(3) f64_mul_1 [of limit] by (auto simp: atRatio_def)
  ultimately show False using assms \<open>\<not> limit \<le> used\<close> by (simp add: f64_of_int_exact)
qed

lemma atRatio_soft: "0 \<le> r \<Longrightarrow> r \<le> 1 \<Longrightarrow> atRatio used limit 1 \<Longrightarrow> atRatio used limit r"
  using f64_mul_le [of r limit] by (auto simp: atRatio_def)

section \<open>A two-key route used by the witnesses\<close>

definition example_budget :: Budget where
  "example_budget = \<lparr>b_Window = Hour, b_Tokens = 0, b_Requests = 2, b_SoftRatio = 0,
     b_EstimateTokens = 0\<rparr>"

definition example_store :: Store where
  "example_store = NewStore 0 [''r'' \<mapsto> 2]
     [WithPolicy (Some (leastUsedPolicy 0)), WithBudget example_budget]"

definition example_route :: routeState where
  "example_route = \<lparr>rs_keys = [zero_keyState, zero_keyState], rs_windowStart = 0\<rparr>"

lemma example_store_route: "st_routes example_store ''r'' = Some example_route"
  by (simp add: example_store_def example_route_def NewStore_def numeral_2_eq_2)

lemma example_store_fields:
  "st_policy example_store = leastUsedPolicy 0" "st_maxRetryAfter example_store = Hour"
  "b_Window (st_budget example_store) = Hour" "b_Requests (st_budget example_store) = 2"
  by (simp_all add: example_store_def NewStore_def example_budget_def Let_def
      DefaultMaxRetryAfter_def)

definition example_retired :: Store where
  "example_retired =
     fst (Retire 9 ''r'' 0 Minute (fst (Retire 9 ''r'' 1 (2 * Minute) example_store)))"

section \<open>Properties\<close>

text \<open>C1: The per-key request cap holds under any interleaving of acquisitions,
  settlements, retirements and reads, at any clock readings: the requests charged in
  the window plus the leases in flight exceed the cap by at most the number of slots
  reclaimed from leases that were never settled, so by nothing while none was
  reclaimed; and the store's in-flight and orphaned slots account for exactly the
  leases not settled yet.\<close>

theorem request_cap_holds:
  assumes "gw_reach (NewStore start keys opts) g"
    and "st_routes (g_store g) route = Some rs" "i < length (rs_keys rs)"
    and "0 < b_Window (st_budget (g_store g))" "0 < b_Requests (st_budget (g_store g))"
  shows "k_requests (rs_keys rs ! i) + inFlight (rs_keys rs ! i) + k_orphaned (rs_keys rs ! i)
           \<le> b_Requests (st_budget (g_store g)) + k_reclaimed (rs_keys rs ! i)
    \<and> (k_reclaimed (rs_keys rs ! i) = 0 \<longrightarrow>
         k_requests (rs_keys rs ! i) + inFlight (rs_keys rs ! i) \<le> b_Requests (st_budget (g_store g)))
    \<and> inFlight (rs_keys rs ! i) + k_orphaned (rs_keys rs ! i) = open_leases (g_leases g) route i"
proof -
  have "accounts (st_budget (g_store g)) (g_leases g) route i (rs_keys rs ! i)"
    using gw_reach_inv [OF assms(1)] assms(2,3) by (auto simp: gw_inv_def all_keys_def)
  then show ?thesis using assms(4,5) by (auto simp: accounts_def key_inv_def outstanding_def)
qed

theorem request_cap_holds_witness:
  "\<exists>rs. st_routes (snd (acquire 5 ''r'' example_store)) ''r'' = Some rs
     \<and> inFlight (rs_keys rs ! 0) = 1 \<and> k_requests (rs_keys rs ! 0) + inFlight (rs_keys rs ! 0) \<le> 2"
proof -
  let ?s = "snd (acquire 5 ''r'' example_store)"
  let ?l = "\<lparr>kl_route = ''r'', kl_index = 0, kl_done = False\<rparr>"
  let ?g = "\<lparr>g_store = ?s, g_leases = [?l]\<rparr>"
  have acq: "acquire 5 ''r'' example_store = ((Some ?l, refusalNone), ?s)"
    by (rule prod_eqI) (code_simp, simp)
  have reach: "gw_reach example_store ?g"
    using gw_next [OF gw_init gw_granted, of 5 "''r''" example_store ?l ?s] acq by simp
  have "map_option (\<lambda>rs. (length (rs_keys rs), map inFlight (rs_keys rs), map k_reclaimed (rs_keys rs)))
      (st_routes ?s ''r'') = Some (2, [1, 0], [0, 0])"
    and b: "b_Window (st_budget ?s) = Hour" "b_Requests (st_budget ?s) = 2"
    by code_simp+
  then obtain rs where rs: "st_routes ?s ''r'' = Some rs" "length (rs_keys rs) = 2"
    "map inFlight (rs_keys rs) = [1, 0]" "map k_reclaimed (rs_keys rs) = [0, 0]" by auto
  have k: "inFlight (rs_keys rs ! 0) = 1" "k_reclaimed (rs_keys rs ! 0) = 0"
    using rs nth_map [of 0 "rs_keys rs" inFlight] nth_map [of 0 "rs_keys rs" k_reclaimed] by simp_all
  show ?thesis
    using request_cap_holds [OF reach [unfolded example_store_def], of "''r''" rs 0] rs k b
    by (auto simp: example_store_def)
qed

text \<open>C36: A reservation is refused for the right reason.  With the route brought up to
  date, it is granted exactly when some key is admissible; it is an admission refusal
  exactly when some key is selectable but none is admissible, and a drained refusal
  exactly when no key is selectable.\<close>

theorem refusal_reasons:
  assumes "st_routes s route = Some rs" "reserve now route s = ((idx, refusal), s')"
  shows "(refusal = refusalNone \<longleftrightarrow>
            (\<exists>k \<in> set (rs_keys (advanceLocked s now rs)). admissibleLocked (st_budget s) k now))
    \<and> (refusal = refusalAdmission \<longleftrightarrow>
         (\<exists>k \<in> set (rs_keys (advanceLocked s now rs)). selectableAt k now)
         \<and> \<not> (\<exists>k \<in> set (rs_keys (advanceLocked s now rs)). admissibleLocked (st_budget s) k now))
    \<and> (refusal = refusalDrained \<longleftrightarrow>
         \<not> (\<exists>k \<in> set (rs_keys (advanceLocked s now rs)). selectableAt k now))
    \<and> (idx = -1 \<longleftrightarrow> refusal \<noteq> refusalNone)"
proof -
  let ?rs = "advanceLocked s now rs"
  have adm: "admissibleLocked (st_budget s) k now \<Longrightarrow> selectableAt k now" for k
    by (simp add: admissibleLocked_def split: if_splits)
  have cand: "candidate_states (st_budget s) ?rs now = [] \<longleftrightarrow>
      \<not> (\<exists>k \<in> set (rs_keys ?rs). admissibleLocked (st_budget s) k now)"
    using adm by (fastforce simp: candidate_states_def filter_empty_conv set_indexed in_set_conv_nth)
  have sel: "0 < selectable_count ?rs now \<longleftrightarrow> (\<exists>k \<in> set (rs_keys ?rs). selectableAt k now)"
    by (auto simp: selectable_count_def filter_empty_conv)
  from assms(2) show ?thesis
  proof (cases rule: reserve_cases)
    case (refused rs')
    then have "rs' = rs" using assms(1) by simp
    with refused show ?thesis using cand sel adm by (auto split: if_splits)
  next
    case (granted rs' p)
    then have "rs' = rs" using assms(1) by simp
    with granted have "\<not> candidate_states (st_budget s) ?rs now = []" by auto
    then show ?thesis using cand adm granted(2,5) by auto
  qed (use assms in simp)
qed

theorem refusal_reasons_witness:
  "admissibleLocked (st_budget example_store)
     (rs_keys (advanceLocked example_store 5 example_route) ! 0) 5
   \<and> fst (reserve 5 ''r'' example_store) = (0, refusalNone)"
proof -
  have f: "fst (reserve 5 ''r'' example_store) = (0, refusalNone)" by code_simp
  then have "reserve 5 ''r'' example_store = ((0, refusalNone), snd (reserve 5 ''r'' example_store))"
    by (metis prod.collapse)
  from refusal_reasons [OF example_store_route this]
  have "\<exists>k \<in> set (rs_keys (advanceLocked example_store 5 example_route)).
      admissibleLocked (st_budget example_store) k 5" by simp
  then show ?thesis using f by (auto simp: advance_keys example_route_def)
qed

text \<open>A granted reservation hands out a key that is selectable and admissible at
  that instant, and its only effect on the up-to-date route is one more lease on that
  key.\<close>

theorem reservation_takes_admissible_key:
  assumes "reserve now route s = ((idx, refusalNone), s')"
  shows "\<exists>rs i. st_routes s route = Some rs \<and> idx = int i \<and> i < length (rs_keys rs)
    \<and> selectableAt (rs_keys (advanceLocked s now rs) ! i) now
    \<and> admissibleLocked (st_budget s) (rs_keys (advanceLocked s now rs) ! i) now
    \<and> st_routes s' = (st_routes s)(route \<mapsto> (advanceLocked s now rs)\<lparr>rs_keys :=
         (rs_keys (advanceLocked s now rs))[i := (rs_keys (advanceLocked s now rs) ! i)\<lparr>k_leases :=
            k_leases (rs_keys (advanceLocked s now rs) ! i) @ [now]\<rparr>]\<rparr>)"
  using assms
proof (cases rule: reserve_cases)
  case (granted rs p)
  note c = candidate_index [OF refl granted(3)]
  show ?thesis
    by (intro exI [of _ rs] exI [of _ "nat idx"]) (use c granted in auto)
qed (auto split: if_splits)

theorem reservation_takes_admissible_key_witness:
  "selectableAt (rs_keys (advanceLocked example_store 5 example_route) ! 0) 5"
proof -
  have "fst (reserve 5 ''r'' example_store) = (0, refusalNone)" by code_simp
  then have "reserve 5 ''r'' example_store = ((0, refusalNone), snd (reserve 5 ''r'' example_store))"
    by (metis prod.collapse)
  from reservation_takes_admissible_key [OF this] show ?thesis by (auto simp: example_store_route)
qed

text \<open>C25: A key retired until an instant is not handed out again before it, whatever
  acquisitions, settlements, further retirements or window rollovers happen in
  between.\<close>

theorem retired_key_not_reused:
  assumes "st_routes (g_store g) route = Some rs" "i < length (rs_keys rs)" "now < until"
    and "RetireWithReason now route (int i) until reason (g_store g) = (s1, events)"
    and "gw_before until (g\<lparr>g_store := s1\<rparr>) g'" "t < until"
    and "reserve t route (g_store g') = ((idx, refusal), s2)"
  shows "idx \<noteq> int i"
proof -
  have "parked_until until route i s1"
    using RetireWithReason_parks [OF assms(3,1,2), of reason] assms(4) by simp
  then have "parked_until until route i (g_store g')"
    using gw_before_parked [OF assms(5)] by simp
  from parked_not_reserved [OF this assms(6,7)] show ?thesis .
qed

theorem retired_key_not_reused_witness:
  "fst (fst (reserve 50 ''r'' (fst (Retire 10 ''r'' 0 100 example_store)))) \<noteq> 0"
proof -
  let ?g = "\<lparr>g_store = example_store, g_leases = []\<rparr>"
  let ?s1 = "fst (Retire 10 ''r'' 0 100 example_store)"
  have r: "RetireWithReason 10 ''r'' (int 0) 100 ReasonQuota (g_store ?g)
      = (?s1, snd (Retire 10 ''r'' 0 100 example_store))"
    by (simp add: Retire_def)
  have res: "reserve 50 ''r'' (g_store (?g\<lparr>g_store := ?s1\<rparr>)) =
      ((fst (fst (reserve 50 ''r'' ?s1)), snd (fst (reserve 50 ''r'' ?s1))), snd (reserve 50 ''r'' ?s1))"
    by simp
  have rt: "st_routes (g_store ?g) ''r'' = Some example_route" by (simp add: example_store_route)
  have "fst (fst (reserve 50 ''r'' ?s1)) \<noteq> int 0"
    by (rule retired_key_not_reused [OF rt _ _ r gw_before_refl _ res])
      (simp_all add: example_route_def)
  then show ?thesis by simp
qed



text \<open>The caps at settlement.  Settling a completed request that brings the
  charged requests to the cap drains the key, whatever the float rounding; the key can
  then no longer be selected; and the retirement event is reported exactly when this
  settlement took the key out of rotation.\<close>

theorem settlement_applies_caps:
  assumes "0 < b_Window b" "0 < b_Requests b" "us_Outcome smp = OutcomeCompleted"
    and "settleLocked b smp k = (k', events)"
  shows "(b_Requests b \<le> k_requests k + 1 \<longrightarrow> k_drained k' \<and> k_softRetired k')
    \<and> (k_softRetired k' \<longrightarrow> \<not> selectableAt k' t)
    \<and> events = (if (k_drained k' \<or> k_softRetired k') \<and> \<not> (k_drained k \<or> k_softRetired k)
                then [ReasonCap] else [])
    \<and> k_requests k' = k_requests k + 1"
proof -
  define k3 where "k3 = (let k1 = (releaseLocked k)\<lparr>k_requests := k_requests (releaseLocked k) + 1\<rparr>;
    k2 = (if us_Tokens smp = TokensUnknown then k1\<lparr>k_estimated := True\<rparr> else k1)
    in k2\<lparr>k_tokens := wrap64 (k_tokens k2 + (if us_Tokens smp = TokensUnknown
      then b_EstimateTokens b else us_Tokens smp))\<rparr>)"
  have app: "applyCapsLocked b k3 = (k', events)"
    using assms(3,4) by (simp only: settleLocked_def k3_def Let_def SampleOutcome.distinct if_False)
  have k3: "k_requests k3 = k_requests k + 1" "k_drained k3 = k_drained k"
    "k_softRetired k3 = k_softRetired k"
    by (simp_all add: k3_def Let_def)
  have hard: "b_Requests b \<le> k_requests k + 1 \<Longrightarrow> atRatio (k_requests k3) (b_Requests b) 1"
    using assms(2) k3 by (simp add: atRatio_hard)
  have "k_requests k' = k_requests k + 1"
    using app k3 applyCaps_fields(1) [of b k3] by simp
  moreover have "b_Requests b \<le> k_requests k + 1 \<longrightarrow> k_drained k' \<and> k_softRetired k'"
    using app assms(1,2) hard by (auto simp: applyCapsLocked_def Let_def split: if_splits)
  moreover have "events = (if (k_drained k' \<or> k_softRetired k') \<and> \<not> (k_drained k \<or> k_softRetired k)
                then [ReasonCap] else [])"
    using app assms(1,2) k3 by (auto simp: applyCapsLocked_def Let_def split: if_splits)
  ultimately show ?thesis by (simp add: selectableAt_def)
qed

theorem settlement_applies_caps_witness:
  "k_drained (fst (settleLocked example_budget
     \<lparr>us_Outcome = OutcomeCompleted, us_Tokens = 7, us_Estimated = False\<rparr>
     (zero_keyState\<lparr>k_requests := 1\<rparr>)))"
proof -
  let ?smp = "\<lparr>us_Outcome = OutcomeCompleted, us_Tokens = 7, us_Estimated = False\<rparr>"
  let ?k = "zero_keyState\<lparr>k_requests := 1\<rparr>"
  have "settleLocked example_budget ?smp ?k = (fst (settleLocked example_budget ?smp ?k),
      snd (settleLocked example_budget ?smp ?k))" by simp
  from settlement_applies_caps [OF _ _ _ this] show ?thesis by (simp add: example_budget_def)
qed

text \<open>Retirement only ever extends, and is counted once.  A retirement whose deadline
  has passed changes nothing; otherwise the key's deadline becomes the later of the
  two, and the event is reported exactly when the key was not already retired.\<close>

theorem retirement_extends_and_counts_once:
  assumes "st_routes s route = Some rs" "i < length (rs_keys rs)"
    and "RetireWithReason now route (int i) until reason s = (s', events)"
    and "st_routes s' route = Some rs'"
  shows "k_retiredUntil (rs_keys rs' ! i) =
           (if now < until then max (k_retiredUntil (rs_keys (advanceLocked s now rs) ! i)) until
            else k_retiredUntil (rs_keys (advanceLocked s now rs) ! i))
    \<and> events = (if now < until \<and> \<not> now < k_retiredUntil (rs_keys (advanceLocked s now rs) ! i)
                then [(route, if reason = [] then ReasonQuota else reason)] else [])"
proof -
  let ?k = "rs_keys (advanceLocked s now rs) ! i"
  let ?r = "if reason = [] then ReasonQuota else reason"
  have "rs_keys rs' ! i = fst (retireLocked ?k now until ?r)"
    "events = map (Pair route) (snd (retireLocked ?k now until ?r))"
    using assms by (auto simp: RetireWithReason_key Let_def split_beta)
  then show ?thesis by (simp add: retire_retiredUntil retire_events)
qed

theorem retirement_extends_and_counts_once_witness:
  "snd (RetireWithReason 10 ''r'' 0 100 [] example_store) = [(''r'', ReasonQuota)]"
proof -
  let ?r = "RetireWithReason 10 ''r'' (int 0) 100 [] example_store"
  have "st_routes (fst ?r) ''r'' \<noteq> None" by code_simp
  then obtain rs' where rs': "st_routes (fst ?r) ''r'' = Some rs'" by blast
  have "\<not> 10 < k_retiredUntil (rs_keys (advanceLocked example_store 10 example_route) ! 0)"
    by code_simp
  with retirement_extends_and_counts_once [OF example_store_route _ _ rs', of 0 10 100 "[]" "snd ?r"]
  show ?thesis by (simp add: example_route_def)
qed

text \<open>Parking a key for the window is never silently lost: the deadline is in the
  future of the very clock reading it was computed at, so the key is out of rotation
  at that instant, and the event is reported unless the key was already retired.\<close>

theorem retire_for_window_takes_effect:
  assumes "st_routes s route = Some rs" "i < length (rs_keys rs)"
    and "b_Window (st_budget s) \<le> max_int64" "now - rs_windowStart rs \<le> max_int64"
    and "retireForWindow now route (int i) reason s = (s', events)"
    and "st_routes s' route = Some rs'"
  shows "now < k_retiredUntil (rs_keys rs' ! i) \<and> \<not> selectableAt (rs_keys rs' ! i) now
    \<and> (events = [] \<longleftrightarrow> now < k_retiredUntil (rs_keys (advanceLocked s now rs) ! i))"
proof -
  let ?rs = "advanceLocked s now rs"
  let ?k = "rs_keys ?rs ! i" and ?W = "b_Window (st_budget s)"
  let ?u = "if 0 < ?W then rs_windowStart ?rs + ?W else now + DefaultQuotaCooldown"
  let ?r = "if reason = [] then ReasonQuota else reason"
  obtain u where u: "u = ?u" by blast
  have now: "now < u"
    using advance_window_open [OF assms(3,4)] by (simp add: u window_open_def DefaultQuotaCooldown_def)
  have "rs_keys rs' ! i = fst (retireLocked ?k now u ?r)"
    "events = map (Pair route) (snd (retireLocked ?k now u ?r))"
    using assms by (auto simp: retireForWindow_def on_key_def Let_def split_beta u)
  then show ?thesis using now
    by (simp add: retire_retiredUntil retire_events selectableAt_def less_max_iff_disj)
qed

theorem retire_for_window_takes_effect_witness:
  "snd (retireForWindow (Hour + 7) ''r'' 1 ReasonBalance example_store) \<noteq> []"
proof -
  let ?r = "retireForWindow (Hour + 7) ''r'' (int 1) ReasonBalance example_store"
  have "st_routes (fst ?r) ''r'' \<noteq> None" by code_simp
  then obtain rs' where rs': "st_routes (fst ?r) ''r'' = Some rs'" by blast
  have "\<not> Hour + 7 < k_retiredUntil (rs_keys (advanceLocked example_store (Hour + 7) example_route) ! 1)"
    by code_simp
  with retire_for_window_takes_effect
    [OF example_store_route _ _ _ _ rs', of 1 "Hour + 7" ReasonBalance "snd ?r"]
  show ?thesis by (simp add: example_route_def example_store_fields)
qed

text \<open>Under the least-used policy a granted key carries the least load, settled plus
  in flight, among the admissible keys of the route.\<close>

theorem least_used_reserves_least_loaded:
  assumes "st_policy s = leastUsedPolicy c" "st_routes s route = Some rs"
    and "reserve now route s = ((int i, refusalNone), s')"
    and "j < length (rs_keys rs)"
    and "admissibleLocked (st_budget s) (rs_keys (advanceLocked s now rs) ! j) now"
  shows "byLoad (keyStateLocked i (rs_keys (advanceLocked s now rs) ! i) now)
         \<le> byLoad (keyStateLocked j (rs_keys (advanceLocked s now rs) ! j) now)"
  using assms(3)
proof (cases rule: reserve_cases)
  case (granted rs' p)
  let ?rs = "advanceLocked s now rs"
  let ?st = "candidate_states (st_budget s) ?rs now"
  have rs': "rs' = rs" using granted(1) assms(2) by simp
  then have p: "p < length ?st" and i: "i = ks_Index (?st ! p)" using granted by simp_all
  have ne: "?st \<noteq> []" using p by auto
  have "int p = fst (pickMin c ?st byLoad)"
    using granted(4) rs' assms(1) by (simp add: leastUsed_Select_def map_prod_def split_beta)
  then have "p \<in> set (min_positions byLoad ?st)" using pickMin_mem(1) [OF ne, of c byLoad] by (metis nat_int)
  then have min: "\<forall>x \<in> set ?st. byLoad (?st ! p) \<le> byLoad x" by (simp add: min_positions_def)
  have "keyStateLocked j (rs_keys ?rs ! j) now \<in> set ?st"
    using assms(4,5) by (intro candidate_mem) simp_all
  then show ?thesis using min candidate_index(4) [OF refl p] i by simp
qed (use assms in \<open>auto split: if_splits\<close>)

theorem least_used_reserves_least_loaded_witness:
  "byLoad (keyStateLocked 0 (rs_keys (advanceLocked example_store 5 example_route) ! 0) 5)
   \<le> byLoad (keyStateLocked 1 (rs_keys (advanceLocked example_store 5 example_route) ! 1) 5)"
proof -
  have "fst (reserve 5 ''r'' example_store) = (int 0, refusalNone)" by code_simp
  then have res: "reserve 5 ''r'' example_store = ((int 0, refusalNone), snd (reserve 5 ''r'' example_store))"
    by (metis prod.collapse)
  have adm: "admissibleLocked (st_budget example_store)
      (rs_keys (advanceLocked example_store 5 example_route) ! 1) 5" by code_simp
  show ?thesis
    by (rule least_used_reserves_least_loaded [OF example_store_fields(1) example_store_route res _ adm])
      (simp add: example_route_def)
qed

end
