(* ===== verification/Node_Select.thy ===== *)
theory Node_Select
  imports Circuit Keypool
begin

text \<open>
  Upstream nodes and their selection: \<open>upstreamNode\<close>, \<open>AllowsClass\<close>,
  \<open>nextAPIKeyIdx\<close>, \<open>selectNodeFromSnapExcluding\<close> and the health pass of \<open>main.go\<close>,
  with the predicates of \<open>internal/router\<close>, \<open>internal/proxy\<close> and
  \<open>internal/piiroute\<close> they call.  A snapshot shares its nodes with the router by
  pointer, so selection returns the nodes as it left them; a node is named by its
  position.
\<close>

named_theorems select_defs \<open>definitions of node selection\<close>

section \<open>Nodes\<close>

type_synonym WorkloadClass = string

definition ClassInternal :: WorkloadClass where "ClassInternal = ''internal''"
definition ClassCustomer :: WorkloadClass where "ClassCustomer = ''customer''"

record nodeConfig =
  nc_Name :: string
  nc_Tier :: string
  nc_Models :: "string list"
  nc_Priority :: int
  nc_Weight :: int
  nc_Workloads :: "string list"
  nc_PIILocal :: bool
  nc_HealthCheckDisabled :: bool
  nc_APIKey :: string
  nc_APIKeys :: "string list"
  nc_AuthHeader :: string

text \<open>\<open>un_quotaDet\<close> is the compiled pattern of \<open>quota.Detector\<close>: the regular
  expression is the matcher it denotes.\<close>

record upstreamNode =
  un_cfg :: nodeConfig
  un_healthy :: bool
  un_consecutivePass :: int
  un_consecutiveFail :: int
  un_keyIdx :: "64 word"
  un_keys :: "Pool option"
  un_quotaDet :: "(string \<Rightarrow> bool) option"
  un_breaker :: "Breaker option"

abbreviation node_name :: "upstreamNode \<Rightarrow> string" where
  "node_name n \<equiv> nc_Name (un_cfg n)"

definition AllowsClass :: "upstreamNode \<Rightarrow> WorkloadClass \<Rightarrow> bool" where
  "AllowsClass n c \<longleftrightarrow> nc_Workloads (un_cfg n) = [] \<or> c \<in> set (nc_Workloads (un_cfg n))"

definition PersonalBlocks :: "bool \<Rightarrow> bool \<Rightarrow> bool" where
  "PersonalBlocks personal nodePIILocal \<longleftrightarrow> personal \<and> \<not> nodePIILocal"

definition RuleArmed :: "string \<Rightarrow> bool \<Rightarrow> bool" where
  "RuleArmed mode anyLocal =
     (if mode = ''enforce'' then True else if mode = ''off'' then False else anyLocal)"

definition anyNodePIILocal :: "upstreamNode list \<Rightarrow> bool" where
  "anyNodePIILocal nodes \<longleftrightarrow> (\<exists>n \<in> set nodes. nc_PIILocal (un_cfg n))"

fun SupportsModel :: "string list \<Rightarrow> string \<Rightarrow> bool" where
  "SupportsModel [] model = False"
| "SupportsModel (candidate # models) model = (candidate = model \<or> SupportsModel models model)"

definition NodeEnabled :: "(string \<Rightarrow> string) \<Rightarrow> string \<Rightarrow> bool" where
  "NodeEnabled uni v =
     (let value = TrimSpace (ToLower uni v)
      in value \<in> set [[], ''1'', ''true'', ''yes'', ''on''])"

definition MetricLabel :: "string \<Rightarrow> string \<Rightarrow> string" where
  "MetricLabel v fallback = (let value = TrimSpace v in if value = [] then fallback else value)"

definition nextAPIKeyIdx :: "time \<Rightarrow> upstreamNode \<Rightarrow> (string \<times> int) \<times> upstreamNode" where
  "nextAPIKeyIdx now n =
     (let ks = nc_APIKeys (un_cfg n);
          own = (if 0 < length ks
                 then let idx = un_keyIdx n; j = unat idx mod length ks
                      in ((ks ! j, int j), n\<lparr>un_keyIdx := idx + 1\<rparr>)
                 else ((nc_APIKey (un_cfg n), -1), n))
      in case un_keys n of
           Some p \<Rightarrow> (if 0 < Size p
                      then case Next now p of (r, p') \<Rightarrow> (r, n\<lparr>un_keys := Some p'\<rparr>)
                      else own)
         | None \<Rightarrow> own)"

section \<open>Selection\<close>

text \<open>The breaker check of one node, nil-safe; \<open>Allow\<close> may half-open the breaker.\<close>

definition node_allow :: "time \<Rightarrow> upstreamNode \<Rightarrow> StateGauge \<Rightarrow> bool \<times> upstreamNode \<times> StateGauge" where
  "node_allow now n g =
     (case un_breaker n of
        None \<Rightarrow> (True, n, g)
      | Some cb \<Rightarrow> (case Allow now (cb, g) of
                     (ok, (cb', g')) \<Rightarrow> (ok, n\<lparr>un_breaker := Some cb'\<rparr>, g')))"

record selection =
  sel_model :: string
  sel_tier :: string
  sel_excluded :: "string list"
  sel_class :: WorkloadClass
  sel_personal :: bool

text \<open>The checks of the loop body before the breaker is consulted, in order.\<close>

definition passes_filters :: "selection \<Rightarrow> upstreamNode \<Rightarrow> bool" where
  "passes_filters q n =
     (if \<not> AllowsClass n (sel_class q) then False
      else if sel_personal q \<and> PersonalBlocks (sel_personal q) (nc_PIILocal (un_cfg n)) then False
      else if \<not> un_healthy n then False
      else if node_name n \<in> set (sel_excluded q) then False
      else if TrimSpace (sel_tier q) \<noteq> [] \<and> nc_Tier (un_cfg n) \<noteq> TrimSpace (sel_tier q) then False
      else True)"

definition serves_model :: "selection \<Rightarrow> upstreamNode \<Rightarrow> bool" where
  "serves_model q n \<longleftrightarrow> sel_model q = [] \<or> SupportsModel (nc_Models (un_cfg n)) (sel_model q)"

text \<open>One pass over the nodes from position \<open>i\<close>: the positions that enter a bucket, the
  nodes as the breaker checks leave them, and the gauge.\<close>

fun select_scan ::
  "time \<Rightarrow> selection \<Rightarrow> nat \<Rightarrow> upstreamNode list \<Rightarrow> StateGauge
   \<Rightarrow> nat list \<times> upstreamNode list \<times> StateGauge" where
  "select_scan now q i [] g = ([], [], g)"
| "select_scan now q i (n # ns) g =
     (if \<not> passes_filters q n
      then case select_scan now q (i + 1) ns g of (cs, ns', g') \<Rightarrow> (cs, n # ns', g')
      else case node_allow now n g of
             (ok, n', g1) \<Rightarrow>
               (case select_scan now q (i + 1) ns g1 of
                  (cs, ns', g') \<Rightarrow>
                    (if ok \<and> serves_model q n then (i # cs, n' # ns', g')
                     else (cs, n' # ns', g'))))"

datatype select_result = SelNone | SelNode nat | SelPanic

text \<open>The lowest-numbered priority bucket, each node repeated by its weight.\<close>

definition bucket_candidates :: "upstreamNode list \<Rightarrow> nat list \<Rightarrow> nat list" where
  "bucket_candidates nodes cs =
     (let p = Min ((\<lambda>i. nc_Priority (un_cfg (nodes ! i))) ` set cs)
      in concat (map (\<lambda>i. replicate (nat (nc_Weight (un_cfg (nodes ! i)))) i)
                   (filter (\<lambda>i. nc_Priority (un_cfg (nodes ! i)) = p) cs)))"

text \<open>\<open>int(r.rr.Add(1)-1) % len(candidates)\<close>: the 64-bit cursor is converted to a signed
  \<open>int\<close>, so the index is negative past \<open>2^63\<close> selections, and an index out of range or
  an empty bucket panics.\<close>

definition pick_candidate :: "64 word \<Rightarrow> nat list \<Rightarrow> select_result" where
  "pick_candidate rr candidates =
     (if candidates = [] then SelPanic
      else let idx = go_rem (sint rr) (int (length candidates))
           in if idx < 0 then SelPanic else SelNode (candidates ! nat idx))"

definition selectNodeFromSnapExcluding ::
  "time \<Rightarrow> selection \<Rightarrow> 64 word \<Rightarrow> upstreamNode list \<Rightarrow> StateGauge
   \<Rightarrow> select_result \<times> 64 word \<times> upstreamNode list \<times> StateGauge" where
  "selectNodeFromSnapExcluding now q rr nodes g =
     (case select_scan now q 0 nodes g of
        (cs, nodes', g') \<Rightarrow>
          (if cs = [] then (SelNone, rr, nodes', g')
           else (pick_candidate rr (bucket_candidates nodes cs), rr + 1, nodes', g')))"

definition selectNodeFromSnap ::
  "time \<Rightarrow> string \<Rightarrow> string \<Rightarrow> string \<Rightarrow> WorkloadClass \<Rightarrow> bool \<Rightarrow> 64 word \<Rightarrow> upstreamNode list
   \<Rightarrow> StateGauge \<Rightarrow> select_result \<times> 64 word \<times> upstreamNode list \<times> StateGauge" where
  "selectNodeFromSnap now model targetTier excludeName class personal rr nodes g =
     selectNodeFromSnapExcluding now
       \<lparr>sel_model = model, sel_tier = targetTier,
        sel_excluded = (if excludeName \<noteq> [] then [excludeName] else []),
        sel_class = class, sel_personal = personal\<rparr> rr nodes g"

section \<open>Health pass\<close>

record healthConfig =
  hc_HealthyThreshold :: int
  hc_UnhealthyThreshold :: int

text \<open>The update of one node by the outcome of its probe.\<close>

definition health_update :: "healthConfig \<Rightarrow> bool \<Rightarrow> upstreamNode \<Rightarrow> upstreamNode" where
  "health_update hc pass n =
     (if pass
      then let passes = un_consecutivePass n + 1;
               n' = n\<lparr>un_consecutiveFail := 0, un_consecutivePass := passes\<rparr>
           in if hc_HealthyThreshold hc \<le> passes then n'\<lparr>un_healthy := True\<rparr> else n'
      else let fails = un_consecutiveFail n + 1;
               n' = n\<lparr>un_consecutivePass := 0, un_consecutiveFail := fails\<rparr>
           in if hc_UnhealthyThreshold hc \<le> fails then n'\<lparr>un_healthy := False\<rparr> else n')"

text \<open>\<open>probe i\<close> is the outcome of \<open>probeNode\<close> for the node at position \<open>i\<close>; the
  goroutines of the pass touch one node each.\<close>

definition runHealthPass ::
  "healthConfig \<Rightarrow> (nat \<Rightarrow> bool) \<Rightarrow> upstreamNode list \<Rightarrow> upstreamNode list" where
  "runHealthPass hc probe nodes =
     map (\<lambda>(i, n). if nc_HealthCheckDisabled (un_cfg n) then n else health_update hc (probe i) n)
       (indexed nodes)"

fun first_nonempty :: "string list \<Rightarrow> string" where
  "first_nonempty [] = []"
| "first_nonempty (k # ks) = (if k \<noteq> [] then k else first_nonempty ks)"

definition probeAuthKey :: "upstreamNode \<Rightarrow> string" where
  "probeAuthKey n =
     (if nc_APIKey (un_cfg n) \<noteq> [] then nc_APIKey (un_cfg n)
      else first_nonempty (nc_APIKeys (un_cfg n)))"

declare AllowsClass_def [select_defs] PersonalBlocks_def [select_defs] passes_filters_def [select_defs]
  serves_model_def [select_defs]

section \<open>Lemmas\<close>

lemma SupportsModel_iff [simp]: "SupportsModel models m \<longleftrightarrow> m \<in> set models"
  by (induction models) auto

lemma Allow_gauge_irrelevant: "fst (Allow t (cb, g)) = fst (Allow t (cb, g'))"
  "fst (snd (Allow t (cb, g))) = fst (snd (Allow t (cb, g')))"
  by (simp_all add: circuit_defs split: State.splits)

text \<open>Whether the breaker admits a call, without the side effects of asking.\<close>

definition admits :: "time \<Rightarrow> upstreamNode \<Rightarrow> bool" where
  "admits now n = (case un_breaker n of None \<Rightarrow> True | Some cb \<Rightarrow> fst (Allow now (cb, \<lambda>_. None)))"

lemma node_allow_fst: "fst (node_allow now n g) = admits now n"
proof (cases "un_breaker n")
  case (Some cb)
  then show ?thesis using Allow_gauge_irrelevant(1) [of now cb g "\<lambda>_. None"]
    by (simp add: node_allow_def admits_def case_prod_beta)
qed (simp add: node_allow_def admits_def)

lemma node_allow_fields:
  "node_allow now n g = (ok, n', g') \<Longrightarrow>
   un_cfg n' = un_cfg n \<and> un_healthy n' = un_healthy n \<and> un_keys n' = un_keys n
   \<and> un_quotaDet n' = un_quotaDet n \<and> (un_breaker n' = None \<longleftrightarrow> un_breaker n = None)"
  by (auto simp: node_allow_def split: option.splits prod.splits)

definition eligible :: "time \<Rightarrow> selection \<Rightarrow> upstreamNode \<Rightarrow> bool" where
  "eligible now q n \<longleftrightarrow> passes_filters q n \<and> admits now n \<and> serves_model q n"

text \<open>The scan returns exactly the eligible positions and keeps every node's
  configuration, health, keys and detector.\<close>

lemma select_scan_cs:
  "fst (select_scan now q i ns g) = map fst (filter (\<lambda>(j, n). eligible now q n) (zip [i ..< i + length ns] ns))"
proof (induction ns arbitrary: i g)
  case (Cons n ns)
  have upt: "[i ..< Suc (i + length ns)] = i # [Suc i ..< Suc (i + length ns)]"
    by (rule upt_conv_Cons) simp
  obtain ok n' g1 where a: "node_allow now n g = (ok, n', g1)" by (cases "node_allow now n g")
  then have ok: "ok = admits now n" using node_allow_fst [of now n g] by simp
  show ?case using Cons.IH [of "Suc i" g] Cons.IH [of "Suc i" g1]
    by (auto simp: upt a ok eligible_def case_prod_beta simp del: upt_Suc)
qed simp

lemma select_scan_nodes:
  "list_all2 (\<lambda>n n'. un_cfg n' = un_cfg n \<and> un_healthy n' = un_healthy n \<and> un_keys n' = un_keys n
     \<and> un_quotaDet n' = un_quotaDet n) ns (fst (snd (select_scan now q i ns g)))"
proof (induction ns arbitrary: i g)
  case (Cons n ns)
  obtain ok n' g1 where a: "node_allow now n g = (ok, n', g1)" by (cases "node_allow now n g")
  show ?case using Cons.IH [of "i + 1" g] Cons.IH [of "i + 1" g1] node_allow_fields [OF a]
    by (auto simp: a split: prod.splits)
qed simp

lemma set_select_scan:
  "set (fst (select_scan now q 0 ns g)) = {i. i < length ns \<and> eligible now q (ns ! i)}"
  by (force simp: select_scan_cs set_zip image_iff)

lemma bucket_candidates_set:
  assumes "cs \<noteq> []"
  shows "set (bucket_candidates nodes cs) =
    {i \<in> set cs. 0 < nc_Weight (un_cfg (nodes ! i))
       \<and> (\<forall>j \<in> set cs. nc_Priority (un_cfg (nodes ! i)) \<le> nc_Priority (un_cfg (nodes ! j)))}"
proof -
  let ?pr = "\<lambda>i. nc_Priority (un_cfg (nodes ! i))"
  have "?pr i = Min (?pr ` set cs) \<longleftrightarrow> (\<forall>j \<in> set cs. ?pr i \<le> ?pr j)" if "i \<in> set cs" for i
    using that by (auto intro!: Min_eqI [symmetric])
  then show ?thesis by (auto simp: bucket_candidates_def Let_def)
qed

lemma bucket_candidates_nonempty:
  assumes "cs \<noteq> []" "\<forall>i \<in> set cs. 0 < nc_Weight (un_cfg (nodes ! i))"
  shows "bucket_candidates nodes cs \<noteq> []"
proof -
  let ?pr = "\<lambda>i. nc_Priority (un_cfg (nodes ! i))"
  have "Min (?pr ` set cs) \<in> ?pr ` set cs" using assms by (intro Min_in) auto
  then obtain i where "i \<in> set cs" "?pr i = Min (?pr ` set cs)" by force
  then have "i \<in> set (bucket_candidates nodes cs)"
    using assms by (auto simp: bucket_candidates_set [OF assms(1)])
  then show ?thesis by auto
qed

lemma pick_candidate_mem: "pick_candidate rr cs = SelNode i \<Longrightarrow> i \<in> set cs"
proof -
  assume p: "pick_candidate rr cs = SelNode i"
  let ?x = "go_rem (sint rr) (int (length cs))"
  have ne: "cs \<noteq> []" and x: "0 \<le> ?x" and i: "i = cs ! nat ?x"
    using p by (auto simp: pick_candidate_def Let_def split: if_splits)
  have "?x < int (length cs)"
  proof (cases "0 \<le> sint rr")
    case True
    then show ?thesis using ne by (simp add: go_rem_nonneg)
  next
    case False
    then have "?x = - ((- sint rr) mod int (length cs))"
      using ne by (simp add: go_rem_def go_quot_def minus_div_mult_eq_mod [symmetric])
    then show ?thesis using ne by (simp add: order.strict_trans1 [of _ 0])
  qed
  then show ?thesis using i x by simp
qed

lemma sint_small:
  assumes "unat rr < 2 ^ 63" shows "sint (rr :: 64 word) = int (unat rr)"
proof -
  have "uint rr < 2 ^ 63" using assms by (metis of_nat_less_iff of_nat_numeral of_nat_power of_nat_unat)
  moreover have "- (2 ^ 63) \<le> uint rr" by (rule order_trans [of _ 0]) simp_all
  ultimately have "signed_take_bit 63 (uint rr) = uint rr" by (rule signed_take_bit_int_eq_self [rotated])
  then have "sint rr = uint rr" by (simp add: sint_uint)
  then show ?thesis by simp
qed

lemma pick_candidate_small:
  assumes "cs \<noteq> []" "unat rr < 2 ^ 63"
  shows "pick_candidate rr cs = SelNode (cs ! (unat rr mod length cs))"
proof -
  have "go_rem (sint rr) (int (length cs)) = int (unat rr mod length cs)"
    unfolding sint_small [OF assms(2)] zmod_int using assms(1) by (intro go_rem_nonneg) auto
  then show ?thesis unfolding pick_candidate_def Let_def using assms(1)
    by (simp only: if_False) (simp add: not_less)
qed

lemma select_fit:
  assumes "selectNodeFromSnapExcluding now q rr nodes g = (SelNode i, rr', nodes', g')"
  shows "i < length nodes \<and> AllowsClass (nodes ! i) (sel_class q)
    \<and> (sel_personal q \<longrightarrow> nc_PIILocal (un_cfg (nodes ! i))) \<and> un_healthy (nodes ! i)
    \<and> node_name (nodes ! i) \<notin> set (sel_excluded q)
    \<and> (TrimSpace (sel_tier q) = [] \<or> nc_Tier (un_cfg (nodes ! i)) = TrimSpace (sel_tier q))
    \<and> admits now (nodes ! i)
    \<and> (sel_model q = [] \<or> sel_model q \<in> set (nc_Models (un_cfg (nodes ! i))))
    \<and> (\<forall>j < length nodes. eligible now q (nodes ! j) \<longrightarrow>
          nc_Priority (un_cfg (nodes ! i)) \<le> nc_Priority (un_cfg (nodes ! j)))
    \<and> map un_cfg nodes' = map un_cfg nodes \<and> map un_healthy nodes' = map un_healthy nodes"
proof -
  obtain cs ns g1 where sc: "select_scan now q 0 nodes g = (cs, ns, g1)"
    by (cases "select_scan now q 0 nodes g")
  have cs: "cs \<noteq> []" and pick: "pick_candidate rr (bucket_candidates nodes cs) = SelNode i"
    and ns: "ns = nodes'"
    using assms by (auto simp: selectNodeFromSnapExcluding_def sc split: if_splits)
  have elig: "set cs = {i. i < length nodes \<and> eligible now q (nodes ! i)}"
    using set_select_scan [of now q nodes g] by (simp add: sc)
  have i: "i \<in> set cs"
    and pr: "\<forall>j \<in> set cs. nc_Priority (un_cfg (nodes ! i)) \<le> nc_Priority (un_cfg (nodes ! j))"
    using pick_candidate_mem [OF pick] by (auto simp: bucket_candidates_set [OF cs])
  have "map un_cfg nodes' = map un_cfg nodes" "map un_healthy nodes' = map un_healthy nodes"
    using select_scan_nodes [of nodes now q 0 g] by (simp_all add: sc ns list_all2_conv_all_nth list_eq_iff_nth_eq)
  then show ?thesis using i pr
    by (auto simp: elig eligible_def passes_filters_def PersonalBlocks_def serves_model_def
        split: if_splits)
qed

section \<open>Two nodes used by the witnesses\<close>

definition example_cfg :: "string \<Rightarrow> string list \<Rightarrow> nodeConfig" where
  "example_cfg name keys =
     \<lparr>nc_Name = name, nc_Tier = ''t'', nc_Models = [''m''], nc_Priority = 1, nc_Weight = 1,
      nc_Workloads = [], nc_PIILocal = False, nc_HealthCheckDisabled = False, nc_APIKey = [],
      nc_APIKeys = keys, nc_AuthHeader = []\<rparr>"

definition example_node :: "string \<Rightarrow> string list \<Rightarrow> upstreamNode" where
  "example_node name keys =
     \<lparr>un_cfg = example_cfg name keys, un_healthy = True, un_consecutivePass = 0,
      un_consecutiveFail = 0, un_keyIdx = 0, un_keys = Some (NewPool keys (5 * Minute)),
      un_quotaDet = None, un_breaker = Some (NewBreaker 5 (30 * Second))\<rparr>"

definition example_query :: selection where
  "example_query = \<lparr>sel_model = ''m'', sel_tier = [], sel_excluded = [], sel_class = ClassInternal,
     sel_personal = False\<rparr>"

definition example_nodes :: "upstreamNode list" where
  "example_nodes = [example_node ''a'' [''k1'', ''k2''], example_node ''b'' []]"

lemma example_select:
  "fst (selectNodeFromSnapExcluding 0 example_query 1 example_nodes (\<lambda>_. None)) = SelNode 1"
  by code_simp

section \<open>Properties\<close>

text \<open>C3: A selected node is fit for the request: it accepts the workload class, it
  carries the \<open>pii_local\<close> mark when the payload is personal, it is healthy, not
  excluded, of the requested tier, its breaker admits a call and it serves the model;
  and no eligible node has a smaller priority number.  The pass changes nothing of
  any node but breaker states.\<close>

theorem selected_node_is_fit:
  assumes "selectNodeFromSnapExcluding now q rr nodes g = (SelNode i, rr', nodes', g')"
  shows "i < length nodes \<and> AllowsClass (nodes ! i) (sel_class q)
    \<and> (sel_personal q \<longrightarrow> nc_PIILocal (un_cfg (nodes ! i))) \<and> un_healthy (nodes ! i)
    \<and> node_name (nodes ! i) \<notin> set (sel_excluded q)
    \<and> (TrimSpace (sel_tier q) = [] \<or> nc_Tier (un_cfg (nodes ! i)) = TrimSpace (sel_tier q))
    \<and> admits now (nodes ! i)
    \<and> (sel_model q = [] \<or> sel_model q \<in> set (nc_Models (un_cfg (nodes ! i))))
    \<and> (\<forall>j < length nodes. eligible now q (nodes ! j) \<longrightarrow>
          nc_Priority (un_cfg (nodes ! i)) \<le> nc_Priority (un_cfg (nodes ! j)))
    \<and> map un_cfg nodes' = map un_cfg nodes \<and> map un_healthy nodes' = map un_healthy nodes"
  using assms by (rule select_fit)

theorem selected_node_is_fit_witness:
  "un_healthy (example_nodes ! 1) \<and> admits 0 (example_nodes ! 1)"
proof -
  let ?r = "selectNodeFromSnapExcluding 0 example_query 1 example_nodes (\<lambda>_. None)"
  have "?r = (SelNode 1, fst (snd ?r), fst (snd (snd ?r)), snd (snd (snd ?r)))"
    using example_select by (metis prod.collapse)
  from selected_node_is_fit [OF this] show ?thesis by blast
qed

text \<open>C37: Selection is complete: with positive weights and fewer than \<open>2^63\<close> selections
  behind it, it returns a node exactly when some node is eligible, and never panics.\<close>

theorem selection_finds_eligible_node:
  assumes "\<forall>n \<in> set nodes. 0 < nc_Weight (un_cfg n)" "unat rr < 2 ^ 63"
    and "selectNodeFromSnapExcluding now q rr nodes g = (r, rr', nodes', g')"
  shows "(r = SelNone \<longleftrightarrow> \<not> (\<exists>n \<in> set nodes. eligible now q n)) \<and> r \<noteq> SelPanic"
proof -
  obtain cs ns g1 where sc: "select_scan now q 0 nodes g = (cs, ns, g1)"
    by (cases "select_scan now q 0 nodes g")
  have elig: "set cs = {i. i < length nodes \<and> eligible now q (nodes ! i)}"
    using set_select_scan [of now q nodes g] by (simp add: sc)
  show ?thesis
  proof (cases "cs = []")
    case True
    with assms(3) have "r = SelNone" by (simp add: selectNodeFromSnapExcluding_def sc)
    moreover have "\<not> (\<exists>n \<in> set nodes. eligible now q n)"
      using elig True by (auto simp: in_set_conv_nth)
    ultimately show ?thesis by simp
  next
    case False
    then obtain j where j: "j < length nodes" "eligible now q (nodes ! j)"
      using elig by (cases cs) auto
    have "bucket_candidates nodes cs \<noteq> []"
      using assms(1) elig False by (intro bucket_candidates_nonempty) auto
    then have "pick_candidate rr (bucket_candidates nodes cs) = SelNode (bucket_candidates nodes cs
        ! (unat rr mod length (bucket_candidates nodes cs)))"
      using assms(2) by (rule pick_candidate_small)
    with assms(3) False have "r = SelNode (bucket_candidates nodes cs
        ! (unat rr mod length (bucket_candidates nodes cs)))"
      by (simp add: selectNodeFromSnapExcluding_def sc)
    then show ?thesis using j nth_mem by auto
  qed
qed

theorem selection_finds_eligible_node_witness:
  "\<exists>n \<in> set example_nodes. eligible 0 example_query n"
proof -
  let ?r = "selectNodeFromSnapExcluding 0 example_query 1 example_nodes (\<lambda>_. None)"
  have r: "?r = (SelNode 1, fst (snd ?r), fst (snd (snd ?r)), snd (snd (snd ?r)))"
    using example_select by (metis prod.collapse)
  have "\<forall>n \<in> set example_nodes. 0 < nc_Weight (un_cfg n)" by code_simp
  from selection_finds_eligible_node [OF this _ r] show ?thesis by simp
qed

text \<open>Health thresholds: after a failed or disabled stretch a node turns healthy
  exactly with its \<open>HealthyThreshold\<close>-th consecutive passed probe and unhealthy with its
  \<open>UnhealthyThreshold\<close>-th consecutive failed one; any number of probes of one outcome
  is counted, and a node with health checks disabled is never touched.\<close>

theorem health_thresholds:
  assumes "un_consecutivePass n = 0" "un_consecutiveFail n = 0"
    and "0 < hc_HealthyThreshold hc" "0 < hc_UnhealthyThreshold hc"
  shows "un_healthy ((health_update hc True ^^ k) n)
           = (un_healthy n \<or> hc_HealthyThreshold hc \<le> int k)
    \<and> un_healthy ((health_update hc False ^^ k) n)
           = (un_healthy n \<and> int k < hc_UnhealthyThreshold hc)
    \<and> (nc_HealthCheckDisabled (un_cfg n) \<longrightarrow> runHealthPass hc probe [n] = [n])"
proof -
  have "un_consecutivePass ((health_update hc True ^^ k) n) = int k
      \<and> un_healthy ((health_update hc True ^^ k) n) = (un_healthy n \<or> hc_HealthyThreshold hc \<le> int k)"
    using assms by (induction k) (auto simp: health_update_def Let_def)
  moreover have "un_consecutiveFail ((health_update hc False ^^ k) n) = int k
      \<and> un_healthy ((health_update hc False ^^ k) n) = (un_healthy n \<and> int k < hc_UnhealthyThreshold hc)"
    using assms by (induction k) (auto simp: health_update_def Let_def)
  ultimately show ?thesis by (simp add: runHealthPass_def)
qed

theorem health_thresholds_witness:
  "\<not> un_healthy ((health_update \<lparr>hc_HealthyThreshold = 2, hc_UnhealthyThreshold = 3\<rparr> False ^^ 3)
     (example_node ''a'' []))"
  using health_thresholds [of "example_node ''a'' []"
      "\<lparr>hc_HealthyThreshold = 2, hc_UnhealthyThreshold = 3\<rparr>" 3]
  by (simp add: example_node_def)

end
