(* ===== verification/Failover.thy ===== *)
theory Failover
  imports Node_Select
begin

text \<open>
  The failover loop of \<open>handleProxy\<close> and \<open>doUpstream\<close>, \<open>main.go\<close>.  The network is a
  parameter: \<open>fe_net a j\<close> is what the \<open>j\<close>-th \<open>client.Do\<close> of attempt \<open>a\<close> returns, and
  \<open>fe_clock a j\<close> the \<open>j\<close>-th clock reading of that attempt, so time may pass anywhere.
  Responses are named by the attempt they answered; the loop's record keeps which
  response bodies have been closed.
\<close>

named_theorems failover_defs \<open>definitions of the failover loop\<close>

section \<open>One upstream request\<close>

datatype do_result = DoErr bool | DoResp int string

record failover_env =
  fe_net :: "nat \<Rightarrow> nat \<Rightarrow> do_result"
  fe_clock :: "nat \<Rightarrow> nat \<Rightarrow> time"
  fe_build_ok :: bool

definition maxFailoverAttempts :: nat where "maxFailoverAttempts = 5"

definition isFailoverStatus :: "int \<Rightarrow> bool" where
  "isFailoverStatus code \<longleftrightarrow> code = 429 \<or> 500 \<le> code"

text \<open>\<open>doUpstream\<close>: the response or error, the index of the pool key it used (-1 for
  none), and the node with its key cursor advanced.  A retryable connection error
  (\<open>DoErr True\<close>) rebuilds the request and sends it once more.\<close>

definition doUpstream ::
  "failover_env \<Rightarrow> nat \<Rightarrow> upstreamNode \<Rightarrow> do_result \<times> int \<times> upstreamNode" where
  "doUpstream env a n =
     (if \<not> fe_build_ok env then (DoErr False, -1, n)
      else case nextAPIKeyIdx (fe_clock env a 0) n of
        ((key, kidx), n1) \<Rightarrow>
          (let used1 = (if key \<noteq> [] then kidx else -1) in
           case fe_net env a 0 of
             DoErr True \<Rightarrow>
               (case nextAPIKeyIdx (fe_clock env a 1) n1 of
                  ((key2, kidx2), n2) \<Rightarrow>
                    (fe_net env a 1, if key2 \<noteq> [] then kidx2 else used1, n2))
           | r \<Rightarrow> (r, used1, n1)))"

section \<open>The loop\<close>

record failover =
  fo_nodes :: "upstreamNode list"
  fo_gauge :: StateGauge
  fo_rr :: "64 word"
  fo_tried :: "string list"
  fo_held :: "(nat \<times> int \<times> nat) option"
  fo_closed :: "nat list"
  fo_lastErr :: bool
  fo_log :: "nat list"

datatype attempt_outcome = Served nat int nat | NextCandidate "nat option" | SelectPanic

definition node_failure :: "time \<Rightarrow> nat \<Rightarrow> failover \<Rightarrow> failover" where
  "node_failure now c st =
     (case un_breaker (fo_nodes st ! c) of
        None \<Rightarrow> st
      | Some cb \<Rightarrow> (case RecordFailure now (cb, fo_gauge st) of
          (cb', g') \<Rightarrow> st\<lparr>fo_nodes := (fo_nodes st)[c := (fo_nodes st ! c)\<lparr>un_breaker := Some cb'\<rparr>],
                        fo_gauge := g'\<rparr>))"

definition node_success :: "nat \<Rightarrow> failover \<Rightarrow> failover" where
  "node_success c st =
     (case un_breaker (fo_nodes st ! c) of
        None \<Rightarrow> st
      | Some cb \<Rightarrow> (case RecordSuccess (cb, fo_gauge st) of
          (cb', g') \<Rightarrow> st\<lparr>fo_nodes := (fo_nodes st)[c := (fo_nodes st ! c)\<lparr>un_breaker := Some cb'\<rparr>],
                        fo_gauge := g'\<rparr>))"

text \<open>Close the held response, if any, and hold this one.\<close>

definition hold :: "nat \<Rightarrow> int \<Rightarrow> nat \<Rightarrow> failover \<Rightarrow> failover" where
  "hold a status c st =
     st\<lparr>fo_closed := (case fo_held st of Some (b, _, _) \<Rightarrow> b # fo_closed st | None \<Rightarrow> fo_closed st),
        fo_held := Some (a, status, c), fo_lastErr := False\<rparr>"

definition select_next ::
  "time \<Rightarrow> selection \<Rightarrow> string list \<Rightarrow> failover \<Rightarrow> select_result \<times> failover" where
  "select_next now q tried st =
     (case selectNodeFromSnapExcluding now (q\<lparr>sel_excluded := tried\<rparr>) (fo_rr st) (fo_nodes st)
             (fo_gauge st) of
        (r, rr', nodes', g') \<Rightarrow> (r, st\<lparr>fo_rr := rr', fo_nodes := nodes', fo_gauge := g'\<rparr>))"

definition continue_with :: "select_result \<Rightarrow> attempt_outcome" where
  "continue_with r =
     (case r of SelNone \<Rightarrow> NextCandidate None | SelNode i \<Rightarrow> NextCandidate (Some i)
      | SelPanic \<Rightarrow> SelectPanic)"

text \<open>A transport error: fast-eject a probed node, score the breaker, move on.\<close>

definition after_error ::
  "failover_env \<Rightarrow> selection \<Rightarrow> nat \<Rightarrow> nat \<Rightarrow> failover \<Rightarrow> attempt_outcome \<times> failover" where
  "after_error env q a c st =
     (let n = fo_nodes st ! c;
          st1 = (if nc_HealthCheckDisabled (un_cfg n) then st
                 else st\<lparr>fo_nodes := (fo_nodes st)[c := n\<lparr>un_healthy := False\<rparr>]\<rparr>);
          st2 = (node_failure (fe_clock env a 4) c st1)\<lparr>fo_lastErr := True\<rparr>
      in case select_next (fe_clock env a 5) q (fo_tried st2) st2 of
           (r, st3) \<Rightarrow> (continue_with r, st3))"

text \<open>The common tail for a failover status: score the breaker, hold the response, move
  on.\<close>

definition after_failover_status ::
  "failover_env \<Rightarrow> selection \<Rightarrow> nat \<Rightarrow> nat \<Rightarrow> int \<Rightarrow> failover \<Rightarrow> attempt_outcome \<times> failover" where
  "after_failover_status env q a c status st =
     (let st1 = hold a status c (node_failure (fe_clock env a 4) c st)
      in case select_next (fe_clock env a 5) q (fo_tried st1) st1 of
           (r, st2) \<Rightarrow> (continue_with r, st2))"

definition quota_hit :: "int \<Rightarrow> string \<Rightarrow> upstreamNode \<Rightarrow> bool" where
  "quota_hit status body n \<longleftrightarrow>
     status = 429 \<or> (case un_quotaDet n of Some m \<Rightarrow> m (take_bytes 65536 body) | None \<Rightarrow> False)"

text \<open>A failover status: when it is a quota signal on a pool key, cool that key, and if
  other keys are left hold the response and retry the node provided selection picks it
  again; in every other case fall through to the common tail.\<close>

definition on_failover_status ::
  "failover_env \<Rightarrow> selection \<Rightarrow> nat \<Rightarrow> nat \<Rightarrow> int \<Rightarrow> string \<Rightarrow> int \<Rightarrow> failover
   \<Rightarrow> attempt_outcome \<times> failover" where
  "on_failover_status env q a c status body used st =
     (let n = fo_nodes st ! c in
      case (quota_hit status body n \<and> 0 \<le> used, un_keys n) of
        (True, Some p) \<Rightarrow>
          (let p' = MarkExhausted (fe_clock env a 1) used p;
               st1 = st\<lparr>fo_nodes := (fo_nodes st)[c := n\<lparr>un_keys := Some p'\<rparr>]\<rparr>
           in if AllCooling (fe_clock env a 2) p' then after_failover_status env q a c status st1
              else let st2 = hold a status c st1 in
                case select_next (fe_clock env a 3) q (removeAll (node_name n) (fo_tried st2)) st2 of
                  (r, st3) \<Rightarrow>
                    (case r of
                       SelNode i \<Rightarrow>
                         (if node_name (fo_nodes st3 ! i) = node_name n
                          then (NextCandidate (Some i), st3)
                          else after_failover_status env q a c status st3)
                     | SelNone \<Rightarrow> after_failover_status env q a c status st3
                     | SelPanic \<Rightarrow> (SelectPanic, st3)))
      | _ \<Rightarrow> after_failover_status env q a c status st)"

definition failover_attempt ::
  "failover_env \<Rightarrow> selection \<Rightarrow> nat \<Rightarrow> nat \<Rightarrow> failover \<Rightarrow> attempt_outcome \<times> failover" where
  "failover_attempt env q a c st =
     (let n = fo_nodes st ! c in
      case doUpstream env a n of
        (res, used, n1) \<Rightarrow>
          (let st1 = st\<lparr>fo_tried := node_name n # fo_tried st, fo_log := fo_log st @ [c],
                        fo_nodes := (fo_nodes st)[c := n1]\<rparr>
           in case res of
                DoErr _ \<Rightarrow> after_error env q a c st1
              | DoResp status body \<Rightarrow>
                  (if isFailoverStatus status
                   then on_failover_status env q a c status body used st1
                   else (Served a status c, node_success c st1))))"

datatype failover_result = Relayed nat int nat | BadGateway | Panicked

text \<open>\<open>rest\<close> attempts are left of \<open>maxFailoverAttempts\<close>.\<close>

fun failover_loop ::
  "failover_env \<Rightarrow> selection \<Rightarrow> nat \<Rightarrow> nat option \<Rightarrow> failover \<Rightarrow> attempt_outcome \<times> failover" where
  "failover_loop env q 0 cand st = (NextCandidate cand, st)"
| "failover_loop env q (Suc rest) None st = (NextCandidate None, st)"
| "failover_loop env q (Suc rest) (Some c) st =
     (case failover_attempt env q (maxFailoverAttempts - Suc rest) c st of
        (NextCandidate cand, st') \<Rightarrow> failover_loop env q rest cand st'
      | r \<Rightarrow> r)"

text \<open>After the loop: relay the servable response, else the held one, else 502.\<close>

definition run_failover ::
  "failover_env \<Rightarrow> selection \<Rightarrow> 64 word \<Rightarrow> upstreamNode list \<Rightarrow> StateGauge \<Rightarrow> nat
   \<Rightarrow> failover_result \<times> failover" where
  "run_failover env q rr nodes g c =
     (case failover_loop env q maxFailoverAttempts (Some c)
             \<lparr>fo_nodes = nodes, fo_gauge = g, fo_rr = rr, fo_tried = [], fo_held = None,
              fo_closed = [], fo_lastErr = False, fo_log = []\<rparr> of
        (Served a status c', st) \<Rightarrow>
          (Relayed a status c',
           st\<lparr>fo_closed := (case fo_held st of Some (b, _, _) \<Rightarrow> b # fo_closed st
                                            | None \<Rightarrow> fo_closed st)\<rparr>)
      | (NextCandidate _, st) \<Rightarrow>
          (case fo_held st of Some (a, status, c') \<Rightarrow> (Relayed a status c', st)
                            | None \<Rightarrow> (BadGateway, st))
      | (SelectPanic, st) \<Rightarrow> (Panicked, st))"

lemmas failover_step_defs = doUpstream_def node_failure_def node_success_def hold_def
  select_next_def continue_with_def after_error_def after_failover_status_def
  on_failover_status_def failover_attempt_def

declare failover_step_defs [failover_defs]

section \<open>What the steps keep\<close>

text \<open>The final answer of an attempt, after the transparent retry.\<close>

definition attempt_result :: "failover_env \<Rightarrow> nat \<Rightarrow> do_result" where
  "attempt_result env a =
     (if \<not> fe_build_ok env then DoErr False
      else case fe_net env a 0 of DoErr True \<Rightarrow> fe_net env a 1 | r \<Rightarrow> r)"

lemma doUpstream_result: "fst (doUpstream env a n) = attempt_result env a"
  by (auto simp: doUpstream_def attempt_result_def Let_def split: prod.splits do_result.splits bool.splits)

lemma nextAPIKeyIdx_cfg: "nextAPIKeyIdx now n = (r, n') \<Longrightarrow> un_cfg n' = un_cfg n"
  by (auto simp: nextAPIKeyIdx_def Let_def split: option.splits prod.splits if_splits)

lemma doUpstream_cfg: "doUpstream env a n = (r, used, n1) \<Longrightarrow> un_cfg n1 = un_cfg n"
  by (auto simp: doUpstream_def Let_def dest!: nextAPIKeyIdx_cfg
      split: prod.splits do_result.splits bool.splits if_splits)

text \<open>The parts of the loop state the breaker, health and key updates leave alone.\<close>

definition keeps :: "failover \<Rightarrow> failover \<Rightarrow> bool" where
  "keeps st st' \<longleftrightarrow> map un_cfg (fo_nodes st') = map un_cfg (fo_nodes st)
     \<and> fo_log st' = fo_log st \<and> fo_tried st' = fo_tried st"

lemma keeps_refl [simp]: "keeps st st" by (simp add: keeps_def)

lemma keeps_trans [trans]: "keeps a b \<Longrightarrow> keeps b c \<Longrightarrow> keeps a c" by (simp add: keeps_def)

lemma map_cfg_update: "un_cfg n' = un_cfg (ns ! c) \<Longrightarrow> map un_cfg (ns[c := n']) = map un_cfg ns"
  by (cases "c < length ns") (auto simp: map_update list_update_same_conv list_update_beyond)

lemma keeps_update:
  "un_cfg n' = un_cfg (fo_nodes st ! c) \<Longrightarrow> keeps st (st\<lparr>fo_nodes := (fo_nodes st)[c := n']\<rparr>)"
  by (simp add: keeps_def map_cfg_update)

lemma node_failure_keeps: "keeps st (node_failure now c st)"
  by (auto simp: node_failure_def keeps_def map_cfg_update split: option.splits prod.splits)

lemma node_success_keeps: "keeps st (node_success c st)"
  by (auto simp: node_success_def keeps_def map_cfg_update split: option.splits prod.splits)

lemma hold_keeps: "keeps st (hold a status c st)"
  by (simp add: hold_def keeps_def)

lemma select_next_keeps:
  assumes "select_next now q tried st = (r, st')"
  shows "keeps st st' \<and> fo_held st' = fo_held st \<and> fo_closed st' = fo_closed st"
proof -
  let ?q = "q\<lparr>sel_excluded := tried\<rparr>"
  have "map un_cfg (fst (snd (select_scan now ?q 0 (fo_nodes st) (fo_gauge st)))) = map un_cfg (fo_nodes st)"
    using select_scan_nodes [of "fo_nodes st" now ?q 0 "fo_gauge st"]
    by (simp add: list_all2_conv_all_nth list_eq_iff_nth_eq)
  then show ?thesis using assms
    by (auto simp: select_next_def selectNodeFromSnapExcluding_def keeps_def split: prod.splits if_splits)
qed

text \<open>A node the request may be sent to: the right workload class and, for a personal
  payload, the \<open>pii_local\<close> mark.\<close>

definition permitted :: "selection \<Rightarrow> nodeConfig list \<Rightarrow> nat \<Rightarrow> bool" where
  "permitted q cfgs i \<longleftrightarrow> i < length cfgs
     \<and> (nc_Workloads (cfgs ! i) = [] \<or> sel_class q \<in> set (nc_Workloads (cfgs ! i)))
     \<and> (sel_personal q \<longrightarrow> nc_PIILocal (cfgs ! i))"

lemma select_next_permitted:
  assumes "select_next now q tried st = (SelNode i, st')"
  shows "permitted q (map un_cfg (fo_nodes st)) i \<and> node_name (fo_nodes st ! i) \<notin> set tried
    \<and> i < length (fo_nodes st)"
proof -
  obtain rr' ns g where "selectNodeFromSnapExcluding now (q\<lparr>sel_excluded := tried\<rparr>) (fo_rr st)
      (fo_nodes st) (fo_gauge st) = (SelNode i, rr', ns, g)"
    using assms by (auto simp: select_next_def split: prod.splits)
  from select_fit [OF this] show ?thesis by (auto simp: permitted_def AllowsClass_def)
qed

lemma select_next_permitted_after:
  assumes "select_next now q tried st = (SelNode i, st')"
  shows "permitted q (map un_cfg (fo_nodes st')) i"
  using select_next_permitted [OF assms] select_next_keeps [OF assms] by (simp add: keeps_def)

text \<open>What every continuation of an attempt ends with: the kept parts, and a permitted
  next candidate.\<close>

definition good_outcome :: "selection \<Rightarrow> failover \<Rightarrow> attempt_outcome \<times> failover \<Rightarrow> bool" where
  "good_outcome q st = (\<lambda>(r, st'). keeps st st'
     \<and> (\<forall>i. r = NextCandidate (Some i) \<longrightarrow> permitted q (map un_cfg (fo_nodes st')) i))"

lemma select_continue_good:
  assumes "keeps st st1" "select_next now q tried st1 = (r, st2)"
  shows "good_outcome q st (continue_with r, st2)"
proof -
  note k = select_next_keeps [OF assms(2)]
  have "permitted q (map un_cfg (fo_nodes st2)) i" if "continue_with r = NextCandidate (Some i)" for i
  proof -
    from that have "r = SelNode i" by (cases r) (auto simp: continue_with_def)
    then show ?thesis using select_next_permitted_after assms(2) by simp
  qed
  then show ?thesis using assms(1) k by (auto simp: good_outcome_def intro: keeps_trans)
qed

lemma after_error_good: "good_outcome q st (after_error env q a c st)"
proof -
  let ?n = "fo_nodes st ! c"
  let ?st1 = "if nc_HealthCheckDisabled (un_cfg ?n) then st
              else st\<lparr>fo_nodes := (fo_nodes st)[c := ?n\<lparr>un_healthy := False\<rparr>]\<rparr>"
  let ?st2 = "(node_failure (fe_clock env a 4) c ?st1)\<lparr>fo_lastErr := True\<rparr>"
  have "keeps st ?st1" by (simp add: keeps_update)
  also have "keeps ?st1 (node_failure (fe_clock env a 4) c ?st1)" by (rule node_failure_keeps)
  finally have "keeps st ?st2" by (simp add: keeps_def)
  from select_continue_good [OF this] show ?thesis
    by (simp add: after_error_def Let_def split: prod.splits)
qed

lemma after_failover_status_good:
  assumes "keeps st0 st" shows "good_outcome q st0 (after_failover_status env q a c status st)"
proof -
  have "keeps st (hold a status c (node_failure now c st))" for now
    using node_failure_keeps hold_keeps keeps_trans by blast
  with assms have "keeps st0 (hold a status c (node_failure now c st))" for now
    using keeps_trans by blast
  from select_continue_good [OF this] show ?thesis
    by (simp add: after_failover_status_def Let_def split: prod.splits)
qed

lemma on_failover_status_good: "good_outcome q st (on_failover_status env q a c status body used st)"
proof (cases "un_keys (fo_nodes st ! c)")
  case (Some p)
  let ?n = "fo_nodes st ! c"
  let ?p = "MarkExhausted (fe_clock env a 1) used p"
  let ?st1 = "st\<lparr>fo_nodes := (fo_nodes st)[c := ?n\<lparr>un_keys := Some ?p\<rparr>]\<rparr>"
  let ?st2 = "hold a status c ?st1"
  have k1: "keeps st ?st1" by (simp add: keeps_update)
  then have k2: "keeps st ?st2" using hold_keeps keeps_trans by blast
  obtain r st3 where sel: "select_next (fe_clock env a 3) q (removeAll (node_name ?n) (fo_tried ?st2)) ?st2
      = (r, st3)" by fastforce
  have k3: "keeps st st3" using k2 select_next_keeps [OF sel] keeps_trans by blast
  have p: "permitted q (map un_cfg (fo_nodes st3)) i" if "r = SelNode i" for i
    using select_next_permitted_after sel that by simp
  show ?thesis
  proof (cases "quota_hit status body ?n \<and> 0 \<le> used \<and> \<not> AllCooling (fe_clock env a 2) ?p")
    case True
    then have "on_failover_status env q a c status body used st =
      (case r of
         SelNode i \<Rightarrow> (if node_name (fo_nodes st3 ! i) = node_name ?n then (NextCandidate (Some i), st3)
                       else after_failover_status env q a c status st3)
       | SelNone \<Rightarrow> after_failover_status env q a c status st3
       | SelPanic \<Rightarrow> (SelectPanic, st3))"
      using Some sel by (simp add: on_failover_status_def Let_def)
    then show ?thesis using k3 p after_failover_status_good [OF k3]
      by (cases r) (simp_all add: good_outcome_def)
  next
    case False
    then have "on_failover_status env q a c status body used st = after_failover_status env q a c status st
      \<or> on_failover_status env q a c status body used st = after_failover_status env q a c status ?st1"
      using Some by (auto simp: on_failover_status_def Let_def split: bool.split)
    then show ?thesis
      using after_failover_status_good [OF k1] after_failover_status_good [OF keeps_refl] by metis
  qed
next
  case None
  then show ?thesis using after_failover_status_good [OF keeps_refl]
    by (simp add: on_failover_status_def Let_def split: bool.splits)
qed

text \<open>Which response is held after an attempt, and that only the serving branch serves.\<close>

lemma node_failure_held [simp]: "fo_held (node_failure now c st) = fo_held st"
  by (auto simp: node_failure_def split: option.splits prod.splits)

lemma node_success_held [simp]: "fo_held (node_success c st) = fo_held st"
  by (auto simp: node_success_def split: option.splits prod.splits)

lemma hold_held [simp]: "fo_held (hold a status c st) = Some (a, status, c)"
  by (simp add: hold_def)

lemma continue_with_not_served [simp]: "continue_with r \<noteq> Served a status c"
  by (cases r) (auto simp: continue_with_def)

lemma after_error_held:
  "after_error env q a c st = (r, st') \<Longrightarrow> fo_held st' = fo_held st \<and> (\<forall>b s d. r \<noteq> Served b s d)"
  by (auto simp: after_error_def Let_def split: prod.splits if_splits dest!: select_next_keeps)

lemma after_failover_status_held:
  "after_failover_status env q a c status st = (r, st') \<Longrightarrow>
   fo_held st' = Some (a, status, c) \<and> (\<forall>b s d. r \<noteq> Served b s d)"
  by (auto simp: after_failover_status_def Let_def split: prod.splits dest!: select_next_keeps)

lemma on_failover_status_held:
  "on_failover_status env q a c status body used st = (r, st') \<Longrightarrow>
   fo_held st' = Some (a, status, c) \<and> (\<forall>b s d. r \<noteq> Served b s d)"
  by (auto simp: on_failover_status_def Let_def
      split: prod.splits bool.splits option.splits if_splits select_result.splits
      dest: select_next_keeps after_failover_status_held)

text \<open>One attempt, by the answer it got.\<close>

lemma failover_attempt_effect:
  assumes "failover_attempt env q a c st = (r, st')"
  shows "map un_cfg (fo_nodes st') = map un_cfg (fo_nodes st)" (is ?cfg)
    and "fo_log st' = fo_log st @ [c]" (is ?log)
    and "fo_tried st' = node_name (fo_nodes st ! c) # fo_tried st" (is ?tried)
    and "r = NextCandidate (Some i) \<Longrightarrow> permitted q (map un_cfg (fo_nodes st)) i"
    and "case attempt_result env a of
           DoErr _ \<Rightarrow> fo_held st' = fo_held st \<and> (\<forall>b s d. r \<noteq> Served b s d)
         | DoResp status _ \<Rightarrow>
             (if isFailoverStatus status
              then fo_held st' = Some (a, status, c) \<and> (\<forall>b s d. r \<noteq> Served b s d)
              else fo_held st' = fo_held st \<and> r = Served a status c)" (is ?held)
proof -
  let ?n = "fo_nodes st ! c"
  obtain res used n1 where up: "doUpstream env a ?n = (res, used, n1)" by (cases "doUpstream env a ?n")
  have res: "res = attempt_result env a" using doUpstream_result [of env a ?n] up by simp
  define st1 where "st1 = st\<lparr>fo_tried := node_name ?n # fo_tried st, fo_log := fo_log st @ [c],
    fo_nodes := (fo_nodes st)[c := n1]\<rparr>"
  have cfg1: "map un_cfg (fo_nodes st1) = map un_cfg (fo_nodes st)"
    using doUpstream_cfg [OF up] by (simp add: st1_def map_cfg_update)
  have run: "(case res of
      DoErr _ \<Rightarrow> after_error env q a c st1
    | DoResp status body \<Rightarrow> (if isFailoverStatus status
        then on_failover_status env q a c status body used st1
        else (Served a status c, node_success c st1))) = (r, st')"
    using assms unfolding failover_attempt_def Let_def up prod.case st1_def .
  have good: "good_outcome q st1 (r, st')"
  proof (cases res)
    case (DoErr x)
    then show ?thesis using run after_error_good [of q st1 env a c] by simp
  next
    case (DoResp status body)
    then show ?thesis
      using run on_failover_status_good [of q st1 env a c status body used] node_success_keeps [of st1 c]
      by (auto simp: good_outcome_def split: if_splits)
  qed
  then show ?cfg ?log ?tried using cfg1 by (simp_all add: good_outcome_def keeps_def st1_def)
  show "r = NextCandidate (Some i) \<Longrightarrow> permitted q (map un_cfg (fo_nodes st)) i"
    using good cfg1 by (auto simp: good_outcome_def keeps_def)
  show ?held
  proof (cases res)
    case (DoErr x)
    then show ?thesis using run res after_error_held [of env q a c st1 r st'] by (simp add: st1_def)
  next
    case (DoResp status body)
    show ?thesis
    proof (cases "isFailoverStatus status")
      case True
      then have "on_failover_status env q a c status body used st1 = (r, st')" using run DoResp by simp
      from on_failover_status_held [OF this] show ?thesis using True DoResp res by simp
    next
      case False
      then show ?thesis using run DoResp res by (auto simp: st1_def)
    qed
  qed
qed

section \<open>The loop as a whole\<close>

definition failed_attempt :: "failover_env \<Rightarrow> nat \<Rightarrow> bool" where
  "failed_attempt env a =
     (case attempt_result env a of DoErr _ \<Rightarrow> True | DoResp status _ \<Rightarrow> isFailoverStatus status)"

definition transport_error :: "failover_env \<Rightarrow> nat \<Rightarrow> bool" where
  "transport_error env a = (case attempt_result env a of DoErr _ \<Rightarrow> True | DoResp _ _ \<Rightarrow> False)"

text \<open>Attempt \<open>a\<close> was answered by node \<open>c\<close> with this status.\<close>

definition answered :: "failover_env \<Rightarrow> failover \<Rightarrow> nat \<Rightarrow> int \<Rightarrow> nat \<Rightarrow> bool" where
  "answered env st a status c \<longleftrightarrow> a < length (fo_log st) \<and> fo_log st ! a = c
     \<and> (case attempt_result env a of DoResp s _ \<Rightarrow> s = status | DoErr _ \<Rightarrow> False)"

definition loop_inv :: "failover_env \<Rightarrow> selection \<Rightarrow> nodeConfig list \<Rightarrow> nat \<Rightarrow> failover \<Rightarrow> bool" where
  "loop_inv env q cfgs done st \<longleftrightarrow>
     map un_cfg (fo_nodes st) = cfgs \<and> length (fo_log st) = done
     \<and> (\<forall>c \<in> set (fo_log st). permitted q cfgs c)
     \<and> (\<forall>a < done. failed_attempt env a)
     \<and> (case fo_held st of
          None \<Rightarrow> \<forall>a < done. transport_error env a
        | Some (a, status, c) \<Rightarrow> answered env st a status c \<and> isFailoverStatus status)"

definition loop_end :: "failover_env \<Rightarrow> selection \<Rightarrow> nodeConfig list \<Rightarrow> attempt_outcome \<Rightarrow> failover \<Rightarrow> bool" where
  "loop_end env q cfgs r st \<longleftrightarrow>
     length (fo_log st) \<le> maxFailoverAttempts \<and> (\<forall>c \<in> set (fo_log st). permitted q cfgs c)
     \<and> (case r of
          Served a status c \<Rightarrow> answered env st a status c \<and> \<not> isFailoverStatus status
            \<and> a = length (fo_log st) - 1 \<and> (\<forall>b < a. failed_attempt env b)
        | _ \<Rightarrow> loop_inv env q cfgs (length (fo_log st)) st)"

lemma attempt_keeps_inv:
  assumes inv: "loop_inv env q cfgs a st" and c: "permitted q cfgs c" and failed: "failed_attempt env a"
    and run: "failover_attempt env q a c st = (r, st')"
  shows "loop_inv env q cfgs (Suc a) st'"
proof -
  note e = failover_attempt_effect [OF run]
  have len: "length (fo_log st) = a" using inv by (simp add: loop_inv_def)
  have snoc: "answered env st' b s d" if "answered env st b s d" for b s d
    using that by (auto simp: answered_def e(2) nth_append)
  show ?thesis
  proof (cases "attempt_result env a")
    case (DoErr x)
    then have "fo_held st' = fo_held st" using e(5) by simp
    then show ?thesis using inv c failed DoErr snoc
      by (auto simp: loop_inv_def e(1,2) transport_error_def less_Suc_eq split: option.splits)
  next
    case (DoResp status body)
    then have f: "isFailoverStatus status" using failed by (simp add: failed_attempt_def)
    then have "fo_held st' = Some (a, status, c)" using e(5) DoResp by simp
    then show ?thesis using inv c failed DoResp f len
      by (auto simp: loop_inv_def e(1,2) less_Suc_eq answered_def nth_append)
  qed
qed

lemma failover_loop_end:
  assumes "loop_inv env q cfgs (maxFailoverAttempts - rest) st" "rest \<le> maxFailoverAttempts"
    and "\<forall>c. cand = Some c \<longrightarrow> permitted q cfgs c" "failover_loop env q rest cand st = (r, st')"
  shows "loop_end env q cfgs r st'"
  using assms
proof (induction env q rest cand st rule: failover_loop.induct)
  case (3 env q rest c st)
  let ?a = "maxFailoverAttempts - Suc rest"
  obtain r1 st1 where run: "failover_attempt env q ?a c st = (r1, st1)"
    by (cases "failover_attempt env q ?a c st")
  note e = failover_attempt_effect [OF run]
  have inv: "loop_inv env q cfgs ?a st" and c: "permitted q cfgs c"
    and Suc: "Suc ?a = maxFailoverAttempts - rest" "?a < maxFailoverAttempts"
    using "3.prems" by auto
  have cfgs: "map un_cfg (fo_nodes st) = cfgs" and len: "length (fo_log st) = ?a"
    using inv by (auto simp: loop_inv_def)
  show ?case
  proof (cases "failed_attempt env ?a")
    case True
    have inv': "loop_inv env q cfgs (Suc ?a) st1" using attempt_keeps_inv [OF inv c True run] .
    then have len': "length (fo_log st1) = Suc ?a" by (simp add: loop_inv_def)
    have ns: "r1 \<noteq> Served b s d" for b s d
      using e(5) True by (auto simp: failed_attempt_def split: do_result.splits)
    show ?thesis
    proof (cases r1)
      case (NextCandidate cand)
      have "\<forall>c. cand = Some c \<longrightarrow> permitted q cfgs c" using e(4) NextCandidate cfgs by simp
      then show ?thesis
        using "3.IH" [OF run [symmetric] NextCandidate] inv' Suc "3.prems" run NextCandidate by simp
    next
      case SelectPanic
      then have r: "r = SelectPanic" "st' = st1" using "3.prems"(4) run by auto
      have perm: "\<forall>c \<in> set (fo_log st1). permitted q cfgs c" using inv' by (simp add: loop_inv_def)
      show ?thesis unfolding r loop_end_def using inv' len' Suc perm by simp
    qed (use ns in simp)
  next
    case False
    then obtain status body where ans: "attempt_result env ?a = DoResp status body"
      and ok: "\<not> isFailoverStatus status"
      by (auto simp: failed_attempt_def split: do_result.splits)
    then have "r1 = Served ?a status c" using e(5) by simp
    then have r: "r = Served ?a status c" "st' = st1" using "3.prems"(4) run by auto
    have "\<forall>c \<in> set (fo_log st1). permitted q cfgs c" "\<forall>b < ?a. failed_attempt env b"
      using inv c by (auto simp: loop_inv_def e(2))
    then show ?thesis unfolding r loop_end_def using ans ok len Suc
      by (simp add: answered_def e(2) nth_append)
  qed
qed (auto simp: loop_end_def loop_inv_def)

lemma run_failover_end:
  assumes "permitted q (map un_cfg nodes) c" "run_failover env q rr nodes g c = (res, st)"
  obtains r st1 where "loop_end env q (map un_cfg nodes) r st1" "fo_log st = fo_log st1"
    "res = (case r of Served a s d \<Rightarrow> Relayed a s d
            | NextCandidate _ \<Rightarrow> (case fo_held st1 of Some (a, s, d) \<Rightarrow> Relayed a s d | None \<Rightarrow> BadGateway)
            | SelectPanic \<Rightarrow> Panicked)"
proof -
  let ?st0 = "\<lparr>fo_nodes = nodes, fo_gauge = g, fo_rr = rr, fo_tried = [], fo_held = None,
              fo_closed = [], fo_lastErr = False, fo_log = []\<rparr>"
  obtain r st1 where run: "failover_loop env q maxFailoverAttempts (Some c) ?st0 = (r, st1)"
    by (cases "failover_loop env q maxFailoverAttempts (Some c) ?st0")
  have "loop_inv env q (map un_cfg nodes) (maxFailoverAttempts - maxFailoverAttempts) ?st0"
    by (simp add: loop_inv_def)
  from failover_loop_end [OF this _ _ run] assms(1)
  have "loop_end env q (map un_cfg nodes) r st1" by simp
  moreover have "fo_log st = fo_log st1"
    "res = (case r of Served a s d \<Rightarrow> Relayed a s d
            | NextCandidate _ \<Rightarrow> (case fo_held st1 of Some (a, s, d) \<Rightarrow> Relayed a s d | None \<Rightarrow> BadGateway)
            | SelectPanic \<Rightarrow> Panicked)"
    using assms(2) by (auto simp: run_failover_def run split: attempt_outcome.splits option.splits)
  ultimately show ?thesis by (rule that)
qed

section \<open>An example network\<close>

text \<open>The first answer is a 429, every later request fails at the transport.\<close>

definition example_env :: failover_env where
  "example_env = \<lparr>fe_net = (\<lambda>a j. if a = 0 then DoResp 429 [] else DoErr False),
     fe_clock = (\<lambda>a j. 1000), fe_build_ok = True\<rparr>"

section \<open>Properties\<close>

text \<open>C22: However the upstreams fail, a request is sent to at most five of them, and each
  one it is sent to accepts the request's workload class and, when the payload is
  personal, carries the \<open>pii_local\<close> mark.  The first candidate is the one node
  selection returned.\<close>

theorem failover_stays_permitted_and_bounded:
  assumes "selectNodeFromSnapExcluding now (q\<lparr>sel_excluded := []\<rparr>) rr0 nodes0 g0
             = (SelNode c, rr, nodes, g)"
    and "run_failover env q rr nodes g c = (res, st)"
  shows "length (fo_log st) \<le> 5
    \<and> (\<forall>i \<in> set (fo_log st). i < length nodes
         \<and> AllowsClass (nodes ! i) (sel_class q)
         \<and> (sel_personal q \<longrightarrow> nc_PIILocal (un_cfg (nodes ! i))))"
proof -
  have "permitted q (map un_cfg nodes0) c" "map un_cfg nodes = map un_cfg nodes0"
    using select_fit [OF assms(1)] by (auto simp: permitted_def AllowsClass_def)
  then have c: "permitted q (map un_cfg nodes) c" by simp
  obtain r st1 where "loop_end env q (map un_cfg nodes) r st1" "fo_log st = fo_log st1"
    using run_failover_end [OF c assms(2)] by blast
  then show ?thesis
    by (auto simp: loop_end_def maxFailoverAttempts_def permitted_def AllowsClass_def)
qed

theorem failover_stays_permitted_and_bounded_witness:
  "length (fo_log (snd (run_failover example_env example_query 1 example_nodes (\<lambda>_. None) 0))) \<le> 5"
proof -
  let ?r = "selectNodeFromSnapExcluding 0 (example_query\<lparr>sel_excluded := []\<rparr>) 0 example_nodes (\<lambda>_. None)"
  let ?ns = "fst (snd (snd ?r))" and ?g = "snd (snd (snd ?r))" and ?rr = "fst (snd ?r)"
  have "fst ?r = SelNode 0" by code_simp
  then have sel: "?r = (SelNode 0, ?rr, ?ns, ?g)" by (metis prod.collapse)
  have same: "?rr = 1" "?ns = example_nodes" "?g = (\<lambda>_. None)"
    by (simp_all add: selectNodeFromSnapExcluding_def example_nodes_def example_node_def
        example_cfg_def example_query_def passes_filters_def AllowsClass_def node_allow_def Allow_def
        NewBreaker_def serves_model_def TrimSpace_def)
  have "run_failover example_env example_query ?rr ?ns ?g 0 =
      (fst (run_failover example_env example_query ?rr ?ns ?g 0),
       snd (run_failover example_env example_query ?rr ?ns ?g 0))" by simp
  from failover_stays_permitted_and_bounded [OF sel this] show ?thesis by (simp add: same)
qed




end
