(* ===== verification/Admission.thy ===== *)
theory Admission
  imports Router_Prelude
begin

text \<open>
  Admission and resource accounting of \<open>handleProxy\<close>, \<open>main.go\<close>, for any number of
  concurrent requests.  Each atomic action of a handler on the shared counters is one
  step: taking a queue slot, buffering the body, joining a tier gauge, acquiring the
  semaphore, giving the slot back, and the deferred releases in the order Go runs
  them.  \<open>ad_reqs\<close> holds the phase of every request that arrived; what a phase holds
  is given by the predicates below, and the invariant says the counters count it.
\<close>

section \<open>Phases\<close>

datatype phase =
    Refused                 \<comment> \<open>queue full: 429 written, slot not given back yet\<close>
  | Admitted                \<comment> \<open>slot held, body not read yet\<close>
  | Buffered                \<comment> \<open>slot held, body being read or routed\<close>
  | Failing                 \<comment> \<open>refused after buffering: buffer released, slot still held\<close>
  | Waiting string          \<comment> \<open>node chosen, tier gauge joined, waiting for the semaphore\<close>
  | Acquired string         \<comment> \<open>semaphore held, slot not given back yet\<close>
  | Cancelled               \<comment> \<open>gave the slot back while queued; body still held\<close>
  | Running                 \<comment> \<open>semaphore held, not counted in flight\<close>
  | InFlight                \<comment> \<open>upstream traffic\<close>
  | Unwinding               \<comment> \<open>no longer in flight, semaphore still held\<close>
  | Draining                \<comment> \<open>semaphore released, body still held\<close>
  | Done

fun holds_slot :: "phase \<Rightarrow> bool" where
  "holds_slot Refused = True"
| "holds_slot Admitted = True"
| "holds_slot Buffered = True"
| "holds_slot Failing = True"
| "holds_slot (Waiting t) = True"
| "holds_slot (Acquired t) = True"
| "holds_slot _ = False"

fun holds_buffer :: "phase \<Rightarrow> bool" where
  "holds_buffer Buffered = True"
| "holds_buffer (Waiting t) = True"
| "holds_buffer (Acquired t) = True"
| "holds_buffer Cancelled = True"
| "holds_buffer Running = True"
| "holds_buffer InFlight = True"
| "holds_buffer Unwinding = True"
| "holds_buffer Draining = True"
| "holds_buffer _ = False"

fun holds_semaphore :: "phase \<Rightarrow> bool" where
  "holds_semaphore (Acquired t) = True"
| "holds_semaphore Running = True"
| "holds_semaphore InFlight = True"
| "holds_semaphore Unwinding = True"
| "holds_semaphore _ = False"

fun holds_tier :: "string \<Rightarrow> phase \<Rightarrow> bool" where
  "holds_tier u (Waiting t) = (u = t)"
| "holds_tier u (Acquired t) = (u = t)"
| "holds_tier u _ = False"

section \<open>State and steps\<close>

record limits =
  MaxQueueDepth :: int
  MaxConcurrency :: int

record admission =
  ad_queueDepth :: int
  ad_buffering :: int
  ad_bufferingPeak :: int
  ad_semaphore :: int
  ad_inflight :: int
  ad_queueDepthByTier :: "string \<Rightarrow> int"
  ad_reqs :: "phase list"

definition admission_init :: admission where
  "admission_init = \<lparr>ad_queueDepth = 0, ad_buffering = 0, ad_bufferingPeak = 0, ad_semaphore = 0,
     ad_inflight = 0, ad_queueDepthByTier = (\<lambda>_. 0), ad_reqs = []\<rparr>"

text \<open>The early refusal of a declared body over the limit touches no counter.\<close>

definition body_too_large :: "int \<Rightarrow> int \<Rightarrow> bool" where
  "body_too_large maxBody contentLength \<longleftrightarrow> 0 < maxBody \<and> maxBody < contentLength"

definition addQueueDepthByTier :: "string \<Rightarrow> int \<Rightarrow> admission \<Rightarrow> admission" where
  "addQueueDepthByTier tier delta s =
     (let n = ad_queueDepthByTier s tier + delta; n' = (if n < 0 then 0 else n)
      in s\<lparr>ad_queueDepthByTier := (ad_queueDepthByTier s)(tier := n')\<rparr>)"

text \<open>\<open>r.queueDepth.Add(1)\<close> and the test against the limit.\<close>

definition enqueue :: "limits \<Rightarrow> admission \<Rightarrow> phase \<times> admission" where
  "enqueue lim s =
     (let d = ad_queueDepth s + 1; s' = s\<lparr>ad_queueDepth := d\<rparr>
      in if MaxQueueDepth lim < d then (Refused, s') else (Admitted, s'))"

definition dequeue :: "string \<Rightarrow> admission \<Rightarrow> admission" where
  "dequeue tierLabel s =
     (let s' = s\<lparr>ad_queueDepth := ad_queueDepth s - 1\<rparr>
      in if tierLabel \<noteq> [] then addQueueDepthByTier tierLabel (-1) s' else s')"

definition beginBuffering :: "admission \<Rightarrow> admission" where
  "beginBuffering s =
     (let n = ad_buffering s + 1
      in s\<lparr>ad_buffering := n, ad_bufferingPeak := max (ad_bufferingPeak s) n\<rparr>)"

definition releaseBuffer :: "admission \<Rightarrow> admission" where
  "releaseBuffer s = s\<lparr>ad_buffering := ad_buffering s - 1\<rparr>"

definition set_phase :: "nat \<Rightarrow> phase \<Rightarrow> admission \<Rightarrow> admission" where
  "set_phase i p s = s\<lparr>ad_reqs := (ad_reqs s)[i := p]\<rparr>"

text \<open>The atomic actions.  The tier label of a queued request is never empty
  (\<open>MetricLabel\<close> falls back to \<open>unknown\<close>).\<close>

inductive ad_step :: "limits \<Rightarrow> admission \<Rightarrow> admission \<Rightarrow> bool" for lim where
  ad_arrive: "enqueue lim s = (p, s') \<Longrightarrow> ad_step lim s (s'\<lparr>ad_reqs := ad_reqs s @ [p]\<rparr>)"
| ad_refuse: "i < length (ad_reqs s) \<Longrightarrow> ad_reqs s ! i \<in> {Refused, Failing} \<Longrightarrow>
     ad_step lim s (set_phase i Done (dequeue [] s))"
| ad_buffer: "i < length (ad_reqs s) \<Longrightarrow> ad_reqs s ! i = Admitted \<Longrightarrow>
     ad_step lim s (set_phase i Buffered (beginBuffering s))"
| ad_fail: "i < length (ad_reqs s) \<Longrightarrow> ad_reqs s ! i = Buffered \<Longrightarrow>
     ad_step lim s (set_phase i Failing (releaseBuffer s))"
| ad_route: "i < length (ad_reqs s) \<Longrightarrow> ad_reqs s ! i = Buffered \<Longrightarrow> tier \<noteq> [] \<Longrightarrow>
     ad_step lim s (set_phase i (Waiting tier) (addQueueDepthByTier tier 1 s))"
| ad_acquire: "i < length (ad_reqs s) \<Longrightarrow> ad_reqs s ! i = Waiting tier \<Longrightarrow>
     ad_semaphore s < MaxConcurrency lim \<Longrightarrow>
     ad_step lim s (set_phase i (Acquired tier) (s\<lparr>ad_semaphore := ad_semaphore s + 1\<rparr>))"
| ad_dequeue: "i < length (ad_reqs s) \<Longrightarrow> ad_reqs s ! i = Acquired tier \<Longrightarrow>
     ad_step lim s (set_phase i Running (dequeue tier s))"
| ad_cancel: "i < length (ad_reqs s) \<Longrightarrow> ad_reqs s ! i = Waiting tier \<Longrightarrow>
     ad_step lim s (set_phase i Cancelled (dequeue tier s))"
| ad_inflight: "i < length (ad_reqs s) \<Longrightarrow> ad_reqs s ! i = Running \<Longrightarrow>
     ad_step lim s (set_phase i InFlight (s\<lparr>ad_inflight := ad_inflight s + 1\<rparr>))"
| ad_landed: "i < length (ad_reqs s) \<Longrightarrow> ad_reqs s ! i = InFlight \<Longrightarrow>
     ad_step lim s (set_phase i Unwinding (s\<lparr>ad_inflight := ad_inflight s - 1\<rparr>))"
| ad_release: "i < length (ad_reqs s) \<Longrightarrow> ad_reqs s ! i \<in> {Running, Unwinding} \<Longrightarrow>
     ad_step lim s (set_phase i Draining (s\<lparr>ad_semaphore := ad_semaphore s - 1\<rparr>))"
| ad_drain: "i < length (ad_reqs s) \<Longrightarrow> ad_reqs s ! i \<in> {Draining, Cancelled} \<Longrightarrow>
     ad_step lim s (set_phase i Done (releaseBuffer s))"

inductive ad_reach :: "limits \<Rightarrow> admission \<Rightarrow> bool" for lim where
  ad_start: "ad_reach lim admission_init"
| ad_more: "ad_reach lim s \<Longrightarrow> ad_step lim s s' \<Longrightarrow> ad_reach lim s'"

section \<open>Invariant\<close>

fun queued :: "phase \<Rightarrow> bool" where
  "queued Refused = False"
| "queued p = holds_slot p"

definition in_flight :: "phase \<Rightarrow> bool" where "in_flight p \<longleftrightarrow> p = InFlight"

definition leaving :: "phase \<Rightarrow> bool" where "leaving p \<longleftrightarrow> p = Draining \<or> p = Cancelled"

definition ad_inv :: "limits \<Rightarrow> admission \<Rightarrow> bool" where
  "ad_inv lim s \<longleftrightarrow>
     ad_queueDepth s = count_if holds_slot (ad_reqs s)
     \<and> ad_buffering s = count_if holds_buffer (ad_reqs s)
     \<and> ad_semaphore s = count_if holds_semaphore (ad_reqs s)
     \<and> ad_inflight s = count_if in_flight (ad_reqs s)
     \<and> (\<forall>t. ad_queueDepthByTier s t = count_if (holds_tier t) (ad_reqs s))
     \<and> ad_semaphore s \<le> max 0 (MaxConcurrency lim)
     \<and> count_if queued (ad_reqs s) \<le> max 0 (MaxQueueDepth lim)
     \<and> ad_buffering s \<le> ad_bufferingPeak s
     \<and> count_if (holds_tier []) (ad_reqs s) = 0"

lemma queued_le_slot: "count_if queued xs \<le> count_if holds_slot xs"
proof (rule count_if_mono)
  fix p show "queued p \<Longrightarrow> holds_slot p" by (cases p) auto
qed

lemma ad_inv_init: "ad_inv lim admission_init"
  by (simp add: ad_inv_def admission_init_def)

text \<open>A request that holds a tier contributes to its gauge, so the clamp at zero never
  acts.\<close>

lemma tier_pos:
  "ad_inv lim s \<Longrightarrow> i < length (ad_reqs s) \<Longrightarrow> ad_reqs s ! i \<in> {Waiting t, Acquired t} \<Longrightarrow>
   0 < count_if (holds_tier t) (ad_reqs s)"
  using count_if_pos [of i "ad_reqs s" "holds_tier t"] by (auto simp: ad_inv_def)

lemmas ad_ops = set_phase_def dequeue_def beginBuffering_def releaseBuffer_def
  addQueueDepthByTier_def enqueue_def in_flight_def Let_def

lemma ad_step_inv: "ad_step lim s s' \<Longrightarrow> ad_inv lim s \<Longrightarrow> ad_inv lim s'"
proof (induction rule: ad_step.induct)
  case (ad_arrive s p s')
  then show ?case using queued_le_slot [of "ad_reqs s"]
    by (auto simp: ad_inv_def ad_ops split: if_splits)
next
  case (ad_refuse i s)
  then have "ad_reqs s ! i = Refused \<or> ad_reqs s ! i = Failing" by simp
  with ad_refuse show ?case
    by (elim disjE) (simp_all add: ad_inv_def ad_ops count_if_update)
next
  case (ad_buffer i s)
  then show ?case by (simp add: ad_inv_def ad_ops count_if_update)
next
  case (ad_fail i s)
  then show ?case by (simp add: ad_inv_def ad_ops count_if_update)
next
  case (ad_route i s tier)
  moreover have "\<not> count_if (holds_tier tier) (ad_reqs s) + 1 < 0"
    using count_if_nonneg [of "holds_tier tier" "ad_reqs s"] by linarith
  ultimately show ?case by (simp add: ad_inv_def ad_ops count_if_update)
next
  case (ad_acquire i s tier)
  then show ?case by (simp add: ad_inv_def ad_ops count_if_update)
next
  case (ad_dequeue i s tier)
  then have "0 < count_if (holds_tier tier) (ad_reqs s)" using tier_pos [of lim s i tier] by simp
  moreover from this have "tier \<noteq> []" using ad_dequeue by (auto simp: ad_inv_def)
  ultimately show ?case using ad_dequeue
    by (simp add: ad_inv_def ad_ops count_if_update)
next
  case (ad_cancel i s tier)
  then have "0 < count_if (holds_tier tier) (ad_reqs s)" using tier_pos [of lim s i tier] by simp
  moreover from this have "tier \<noteq> []" using ad_cancel by (auto simp: ad_inv_def)
  ultimately show ?case using ad_cancel
    by (simp add: ad_inv_def ad_ops count_if_update)
next
  case (ad_inflight i s)
  then show ?case by (simp add: ad_inv_def ad_ops count_if_update)
next
  case (ad_landed i s)
  then show ?case by (simp add: ad_inv_def ad_ops count_if_update)
next
  case (ad_release i s)
  then have "ad_reqs s ! i = Running \<or> ad_reqs s ! i = Unwinding" by simp
  with ad_release show ?case
    by (elim disjE) (simp_all add: ad_inv_def ad_ops count_if_update)
next
  case (ad_drain i s)
  then have "ad_reqs s ! i = Draining \<or> ad_reqs s ! i = Cancelled" by simp
  with ad_drain show ?case
    by (elim disjE) (simp_all add: ad_inv_def ad_ops count_if_update)
qed

lemma ad_reach_inv: "ad_reach lim s \<Longrightarrow> ad_inv lim s"
  by (induction rule: ad_reach.induct) (auto intro: ad_inv_init ad_step_inv)

text \<open>A body in memory belongs to a request that still has its slot, runs under the
  semaphore, or is on its way out.\<close>

lemma buffers_split:
  "count_if holds_buffer xs \<le> count_if queued xs + count_if holds_semaphore xs + count_if leaving xs"
proof (induction xs)
  case (Cons p xs)
  have "holds_buffer p \<Longrightarrow> queued p \<or> holds_semaphore p \<or> leaving p"
    by (cases p) (auto simp: leaving_def)
  with Cons show ?case by auto
qed simp

text \<open>The counters are functions of the phases, so an execution may be followed on the
  phases alone.\<close>

definition reaches :: "limits \<Rightarrow> phase list \<Rightarrow> bool" where
  "reaches lim ps \<longleftrightarrow> (\<exists>s. ad_reach lim s \<and> ad_reqs s = ps)"

lemma reaches_init: "reaches lim []"
  unfolding reaches_def using ad_start by (intro exI [of _ admission_init]) (simp add: admission_init_def)

lemma reaches_arrive:
  assumes "reaches lim ps" "count_if holds_slot ps < MaxQueueDepth lim"
  shows "reaches lim (ps @ [Admitted])"
proof -
  obtain s where s: "ad_reach lim s" "ad_reqs s = ps" using assms(1) by (auto simp: reaches_def)
  then have "ad_queueDepth s = count_if holds_slot ps" using ad_reach_inv by (auto simp: ad_inv_def)
  then have "enqueue lim s = (Admitted, s\<lparr>ad_queueDepth := ad_queueDepth s + 1\<rparr>)"
    using assms(2) by (simp add: enqueue_def Let_def)
  then have "ad_step lim s (s\<lparr>ad_queueDepth := ad_queueDepth s + 1\<rparr>\<lparr>ad_reqs := ad_reqs s @ [Admitted]\<rparr>)"
    by (rule ad_arrive)
  with s have "ad_reach lim (s\<lparr>ad_queueDepth := ad_queueDepth s + 1\<rparr>\<lparr>ad_reqs := ps @ [Admitted]\<rparr>)"
    using ad_more by blast
  then show ?thesis unfolding reaches_def by (intro exI conjI, assumption) simp
qed

lemma reaches_step:
  assumes "reaches lim ps"
    and "\<And>s. ad_reqs s = ps \<Longrightarrow> ad_inv lim s \<Longrightarrow> ad_step lim s (f s) \<and> ad_reqs (f s) = qs"
  shows "reaches lim qs"
  using assms ad_reach_inv unfolding reaches_def by (metis ad_more)

lemma reaches_rules:
  assumes "reaches lim ps" "i < length ps"
  shows "ps ! i = Admitted \<Longrightarrow> reaches lim (ps[i := Buffered])"
    and "ps ! i = Buffered \<Longrightarrow> t \<noteq> [] \<Longrightarrow> reaches lim (ps[i := Waiting t])"
    and "ps ! i = Waiting t \<Longrightarrow> count_if holds_semaphore ps < MaxConcurrency lim \<Longrightarrow>
         reaches lim (ps[i := Acquired t])"
    and "ps ! i = Acquired t \<Longrightarrow> reaches lim (ps[i := Running])"
    and "ps ! i = Running \<Longrightarrow> reaches lim (ps[i := Draining])"
proof -
  show "ps ! i = Admitted \<Longrightarrow> reaches lim (ps[i := Buffered])"
    using assms(2)
    by (intro reaches_step [OF assms(1), where f = "\<lambda>s. set_phase i Buffered (beginBuffering s)"] conjI ad_buffer)
      (simp_all add: ad_ops)
  show "ps ! i = Buffered \<Longrightarrow> t \<noteq> [] \<Longrightarrow> reaches lim (ps[i := Waiting t])"
    using assms(2)
    by (intro reaches_step [OF assms(1), where f = "\<lambda>s. set_phase i (Waiting t) (addQueueDepthByTier t 1 s)"] conjI ad_route)
      (simp_all add: ad_ops)
  show "ps ! i = Waiting t \<Longrightarrow> count_if holds_semaphore ps < MaxConcurrency lim \<Longrightarrow>
      reaches lim (ps[i := Acquired t])"
    using assms(2)
    by (intro reaches_step [OF assms(1), where f = "\<lambda>s. set_phase i (Acquired t) (s\<lparr>ad_semaphore := ad_semaphore s + 1\<rparr>)"] conjI ad_acquire)
      (simp_all add: ad_ops ad_inv_def)
  show "ps ! i = Acquired t \<Longrightarrow> reaches lim (ps[i := Running])"
    using assms(2)
    by (intro reaches_step [OF assms(1), where f = "\<lambda>s. set_phase i Running (dequeue t s)"] conjI ad_dequeue)
      (simp_all add: ad_ops)
  show "ps ! i = Running \<Longrightarrow> reaches lim (ps[i := Draining])"
    using assms(2)
    by (intro reaches_step [OF assms(1), where f = "\<lambda>s. set_phase i Draining (s\<lparr>ad_semaphore := ad_semaphore s - 1\<rparr>)"] conjI ad_release)
      (simp_all add: ad_ops)
qed

section \<open>Properties\<close>



text \<open>No slot leaks: in a reachable state in which every request has returned (by
  whatever path: served, refused, failed or cancelled) the queue depth, the semaphore, the
  in-flight count, the buffer count and every per-tier gauge are back at zero.\<close>

theorem admission_no_leak:
  assumes "ad_reach lim s" and "\<forall>p \<in> set (ad_reqs s). p = Done"
  shows "ad_queueDepth s = 0 \<and> ad_semaphore s = 0 \<and> ad_inflight s = 0 \<and> ad_buffering s = 0
    \<and> ad_queueDepthByTier s t = 0"
proof -
  have "count_if P (ad_reqs s) = 0" if "\<not> P Done" for P
    using assms(2) that by (auto simp: count_if_def filter_empty_conv)
  with ad_reach_inv [OF assms(1)] show ?thesis by (simp add: ad_inv_def in_flight_def)
qed

theorem admission_no_leak_witness:
  "\<exists>s. ad_reach \<lparr>MaxQueueDepth = 0, MaxConcurrency = 1\<rparr> s \<and> ad_reqs s = [Done] \<and> ad_queueDepth s = 0"
proof -
  let ?lim = "\<lparr>MaxQueueDepth = 0, MaxConcurrency = 1\<rparr>"
  let ?s = "admission_init\<lparr>ad_queueDepth := 1, ad_reqs := [Refused]\<rparr>"
  have "ad_reach ?lim ?s"
    using ad_more [OF ad_start ad_arrive [of ?lim admission_init Refused]]
    by (simp add: enqueue_def admission_init_def)
  then have r: "ad_reach ?lim (set_phase 0 Done (dequeue [] ?s))"
    using ad_refuse [of 0 ?s ?lim] by (auto intro: ad_more)
  moreover have d: "ad_reqs (set_phase 0 Done (dequeue [] ?s)) = [Done]" by (simp add: ad_ops)
  moreover have "ad_queueDepth (set_phase 0 Done (dequeue [] ?s)) = 0"
    using admission_no_leak [OF r] d by simp
  ultimately show ?thesis by blast
qed

text \<open>C40: The documented bound of \<open>MaxQueueDepth + MaxConcurrency\<close> bodies in memory can be
  exceeded: deferred calls run last-in first-out, so a finished request gives its semaphore slot
  back before its buffer, and with both limits at one a state with three buffered bodies is
  reachable.\<close>

theorem buffering_bound_exceeded:
  "\<exists>s. ad_reach \<lparr>MaxQueueDepth = 1, MaxConcurrency = 1\<rparr> s \<and> ad_buffering s = 3"
proof -
  let ?lim = "\<lparr>MaxQueueDepth = 1, MaxConcurrency = 1\<rparr>"
  let ?t = "''cloud''"
  have run: "reaches ?lim (ps @ [Running])"
    if "reaches ?lim ps" "count_if holds_slot ps = 0" "count_if holds_semaphore ps = 0" for ps
  proof -
    have "reaches ?lim (ps @ [Admitted])" using that by (intro reaches_arrive) simp_all
    then have "reaches ?lim (ps @ [Buffered])"
      by (drule_tac reaches_rules(1) [where i = "length ps"]) simp_all
    then have "reaches ?lim (ps @ [Waiting ?t])"
      by (drule_tac reaches_rules(2) [where i = "length ps" and t = ?t]) simp_all
    then have "reaches ?lim (ps @ [Acquired ?t])"
      by (drule_tac reaches_rules(3) [where i = "length ps" and t = ?t]) (simp_all add: that)
    then show ?thesis
      by (drule_tac reaches_rules(4) [where i = "length ps" and t = ?t]) simp_all
  qed
  have "reaches ?lim [Running]" using run [of "[]"] by (simp add: reaches_init)
  then have "reaches ?lim [Draining]" by (drule_tac reaches_rules(5) [where i = 0]) simp_all
  then have "reaches ?lim [Draining, Running]" using run [of "[Draining]"] by simp
  then have "reaches ?lim [Draining, Running, Admitted]"
    by (drule_tac reaches_arrive) simp_all
  then have "reaches ?lim [Draining, Running, Buffered]"
    by (drule_tac reaches_rules(1) [where i = 2]) simp_all
  then obtain s where "ad_reach ?lim s" "ad_reqs s = [Draining, Running, Buffered]"
    by (auto simp: reaches_def)
  with ad_reach_inv [of ?lim s] show ?thesis by (auto simp: ad_inv_def)
qed

end
