(* ===== verification/Go_Net.thy ===== *)
theory Go_Net
  imports Router_Prelude
begin

text \<open>
  The parts of Go's \<open>net\<close>, \<open>net/netip\<close> and \<open>strconv\<close> packages that decide how an address
  string is read: \<open>ParseIP\<close> with its IPv4 and IPv6 grammars, \<open>SplitHostPort\<close>,
  \<open>ParseUint\<close>, and the predicates on \<open>net.IP\<close>.  A \<open>net.IP\<close> is its list of bytes, 4 or 16 of
  them; the nil address is \<^const>\<open>None\<close>.
\<close>

type_synonym ip = "int list"

section \<open>Strings and numbers\<close>

text \<open>\<open>strings.Split\<close> with a one-byte separator.\<close>

fun split_char :: "char \<Rightarrow> string \<Rightarrow> string list" where
  "split_char sep [] = [[]]"
| "split_char sep (c # s) =
     (if c = sep then [] # split_char sep s
      else case split_char sep s of [] \<Rightarrow> [[c]] | p # ps \<Rightarrow> (c # p) # ps)"

text \<open>\<open>strings.Join\<close> with a one-byte separator.\<close>

fun join_char :: "char \<Rightarrow> string list \<Rightarrow> string" where
  "join_char sep [] = []"
| "join_char sep [p] = p"
| "join_char sep (p # q # ps) = p @ sep # join_char sep (q # ps)"

definition TrimSuffix :: "string \<Rightarrow> string \<Rightarrow> string" where
  "TrimSuffix s p = (if HasSuffix s p then take (length s - length p) s else s)"

text \<open>\<open>strings.IndexByte\<close> and \<open>strings.LastIndexByte\<close>.\<close>

fun index_byte :: "char \<Rightarrow> string \<Rightarrow> nat option" where
  "index_byte b [] = None"
| "index_byte b (c # s) = (if c = b then Some 0 else map_option Suc (index_byte b s))"

definition last_index_byte :: "char \<Rightarrow> string \<Rightarrow> nat option" where
  "last_index_byte b s = map_option (\<lambda>j. length s - 1 - j) (index_byte b (rev s))"

definition is_digit :: "char \<Rightarrow> bool" where
  "is_digit c \<longleftrightarrow> (let n = of_char c :: int in 48 \<le> n \<and> n \<le> 57)"

text \<open>The value of a digit of any base up to 36, as \<open>strconv\<close> reads it.\<close>

definition digit_value :: "char \<Rightarrow> int option" where
  "digit_value c =
     (let n = of_char c :: int
      in if 48 \<le> n \<and> n \<le> 57 then Some (n - 48)
         else if 97 \<le> n \<and> n \<le> 122 then Some (n - 87)
         else if 65 \<le> n \<and> n \<le> 90 then Some (n - 55)
         else None)"

fun parse_uint_loop :: "int \<Rightarrow> int \<Rightarrow> string \<Rightarrow> int option" where
  "parse_uint_loop base n [] = Some n"
| "parse_uint_loop base n (c # s) =
     (case digit_value c of
        None \<Rightarrow> None
      | Some d \<Rightarrow>
          if base \<le> d \<or> 18446744073709551615 < n * base + d then None
          else parse_uint_loop base (n * base + d) s)"

text \<open>\<open>strconv.ParseUint(s, base, 64)\<close> for an explicit base; \<^const>\<open>None\<close> is the error.\<close>

definition ParseUint :: "string \<Rightarrow> int \<Rightarrow> int option" where
  "ParseUint s base = (if s = [] then None else parse_uint_loop base 0 s)"

section \<open>Addresses\<close>

definition IPv4 :: "int \<Rightarrow> int \<Rightarrow> int \<Rightarrow> int \<Rightarrow> ip" where
  "IPv4 a b c d = replicate 10 0 @ [255, 255, a, b, c, d]"

definition v4InV6Prefix :: "int list" where
  "v4InV6Prefix = replicate 10 0 @ [255, 255]"

definition To4 :: "ip \<Rightarrow> ip option" where
  "To4 x =
     (if length x = 4 then Some x
      else if length x = 16 \<and> take 12 x = v4InV6Prefix then Some (drop 12 x)
      else None)"

definition ip_Equal :: "ip \<Rightarrow> ip \<Rightarrow> bool" where
  "ip_Equal x y =
     (if length x = length y then x = y
      else if length x = 4 \<and> length y = 16 then take 12 y = v4InV6Prefix \<and> x = drop 12 y
      else if length x = 16 \<and> length y = 4 then take 12 x = v4InV6Prefix \<and> drop 12 x = y
      else False)"

definition IsUnspecified :: "ip \<Rightarrow> bool" where
  "IsUnspecified x \<longleftrightarrow> ip_Equal x (IPv4 0 0 0 0) \<or> ip_Equal x (replicate 16 0)"

definition IsLoopback :: "ip \<Rightarrow> bool" where
  "IsLoopback x =
     (case To4 x of
        Some q \<Rightarrow> hd q = 127
      | None \<Rightarrow> ip_Equal x (replicate 15 0 @ [1]))"

section \<open>ParseIP\<close>

text \<open>The dotted-quad grammar: \<open>prev\<close> is the byte before the current one, \<open>val\<close> and
  \<open>digLen\<close> the octet read so far, \<open>fields\<close> the octets already closed.\<close>

fun parseIPv4Fields :: "string \<Rightarrow> char option \<Rightarrow> int \<Rightarrow> nat \<Rightarrow> int list \<Rightarrow> int list option" where
  "parseIPv4Fields [] prev val digLen fields =
     (if length fields < 3 then None else Some (fields @ [val]))"
| "parseIPv4Fields (c # s) prev val digLen fields =
     (if is_digit c then
        if digLen = 1 \<and> val = 0 then None
        else let v = val * 10 + (of_char c - 48)
             in if 255 < v then None else parseIPv4Fields s (Some c) v (Suc digLen) fields
      else if c = CHR ''.'' then
        if prev = None \<or> s = [] \<or> prev = Some (CHR ''.'') then None
        else if length fields = 3 then None
        else parseIPv4Fields s (Some c) 0 0 (fields @ [val])
      else None)"

definition parseIPv4 :: "string \<Rightarrow> ip option" where
  "parseIPv4 s = parseIPv4Fields s None 0 0 []"

definition hex_value :: "char \<Rightarrow> int option" where
  "hex_value c = (case digit_value c of Some d \<Rightarrow> if d < 16 then Some d else None | None \<Rightarrow> None)"

text \<open>One group of hexadecimal digits: the digits read, the value, and the rest.\<close>

fun hex_group :: "string \<Rightarrow> nat \<Rightarrow> int \<Rightarrow> (nat \<times> int \<times> string) option" where
  "hex_group [] off acc = Some (off, acc, [])"
| "hex_group (c # s) off acc =
     (case hex_value c of
        None \<Rightarrow> Some (off, acc, c # s)
      | Some d \<Rightarrow>
          if 3 < off \<or> 65535 < acc * 16 + d then None
          else hex_group s (Suc off) (acc * 16 + d))"

text \<open>The group loop: \<open>k\<close> groups may still follow, so \<open>i = 16 - 2 k\<close> bytes are filled.  The
  result is what is left of the string, the bytes and the position of the ellipsis.\<close>

fun parseIPv6_loop :: "nat \<Rightarrow> string \<Rightarrow> int list \<Rightarrow> nat option \<Rightarrow> (string \<times> int list \<times> nat option) option" where
  "parseIPv6_loop 0 s bytes ell = Some (s, bytes, ell)"
| "parseIPv6_loop (Suc k) s bytes ell =
     (case hex_group s 0 0 of
        None \<Rightarrow> None
      | Some (off, acc, rest) \<Rightarrow>
          if off = 0 then None
          else if rest \<noteq> [] \<and> hd rest = CHR ''.'' then
            if (ell = None \<and> length bytes \<noteq> 12) \<or> 16 < length bytes + 4 then None
            else (case parseIPv4 s of
                    None \<Rightarrow> None
                  | Some q \<Rightarrow> Some ([], bytes @ q, ell))
          else let bytes' = bytes @ [acc div 256, acc mod 256] in
            if rest = [] then Some ([], bytes', ell)
            else if hd rest \<noteq> CHR '':'' \<or> tl rest = [] then None
            else let s' = tl rest in
              if hd s' = CHR '':'' then
                if ell \<noteq> None then None
                else if tl s' = [] then Some ([], bytes', Some (length bytes'))
                else parseIPv6_loop k (tl s') bytes' (Some (length bytes'))
              else parseIPv6_loop k s' bytes' ell)"

definition parseIPv6 :: "string \<Rightarrow> ip option" where
  "parseIPv6 s =
     (let lead = HasPrefix s ''::''; s' = (if lead then drop 2 s else s)
      in if lead \<and> s' = [] then Some (replicate 16 0)
         else case parseIPv6_loop 8 s' [] (if lead then Some 0 else None) of
                None \<Rightarrow> None
              | Some (rest, bytes, ell) \<Rightarrow>
                  if rest \<noteq> [] then None
                  else if length bytes < 16 then
                    (case ell of
                       None \<Rightarrow> None
                     | Some e \<Rightarrow> Some (take e bytes @ replicate (16 - length bytes) 0 @ drop e bytes))
                  else if ell \<noteq> None then None
                  else Some bytes)"

text \<open>\<open>netip.ParseAddr\<close> decides the family by the first of dot, colon and percent.\<close>

fun addr_family :: "string \<Rightarrow> char option" where
  "addr_family [] = None"
| "addr_family (c # s) =
     (if c = CHR ''.'' \<or> c = CHR '':'' \<or> c = CHR ''%'' then Some c else addr_family s)"

text \<open>\<open>net.ParseIP\<close> refuses an address with a zone, so a percent sign never parses.\<close>

definition ParseIP :: "string \<Rightarrow> ip option" where
  "ParseIP s =
     (if addr_family s = Some (CHR ''.'') then
        map_option (\<lambda>q. v4InV6Prefix @ q) (parseIPv4 s)
      else if addr_family s = Some (CHR '':'') then
        if index_byte (CHR ''%'') s \<noteq> None then None else parseIPv6 s
      else None)"

section \<open>Host and port\<close>

text \<open>\<open>net.SplitHostPort\<close>; \<^const>\<open>None\<close> is the error.\<close>

definition SplitHostPort :: "string \<Rightarrow> (string \<times> string) option" where
  "SplitHostPort hp =
     (case last_index_byte (CHR '':'') hp of
        None \<Rightarrow> None
      | Some i \<Rightarrow>
          if hd hp = CHR ''['' then
            (case index_byte (CHR '']'') hp of
               None \<Rightarrow> None
             | Some e \<Rightarrow>
                 if e + 1 \<noteq> i then None
                 else if index_byte (CHR ''['') (drop 1 hp) \<noteq> None then None
                 else if index_byte (CHR '']'') (drop (e + 1) hp) \<noteq> None then None
                 else Some (drop 1 (take e hp), drop (i + 1) hp))
          else if index_byte (CHR '':'') (take i hp) \<noteq> None then None
          else if index_byte (CHR ''['') hp \<noteq> None then None
          else if index_byte (CHR '']'') hp \<noteq> None then None
          else Some (take i hp, drop (i + 1) hp))"

lemma index_byte_None: "index_byte b s = None \<longleftrightarrow> b \<notin> set s"
  by (induction s) auto

section \<open>Reading numbers\<close>

lemma parse_uint_loop_snoc:
  "parse_uint_loop b n (s @ [c]) =
     (case parse_uint_loop b n s of
        None \<Rightarrow> None
      | Some m \<Rightarrow> parse_uint_loop b m [c])"
  by (induction s arbitrary: n) (auto split: option.splits)

text \<open>The digits of a number in a base up to 16, most significant first.\<close>

definition digit_char :: "nat \<Rightarrow> char" where
  "digit_char d = ''0123456789abcdef'' ! d"

fun digits :: "nat \<Rightarrow> nat \<Rightarrow> string" where
  "digits b n = (if b < 2 \<or> n < b then [digit_char n] else digits b (n div b) @ [digit_char (n mod b)])"

declare digits.simps [simp del]

lemma less_16_cases:
  fixes d :: nat
  assumes "d < 16"
  obtains "d = 0" | "d = 1" | "d = 2" | "d = 3" | "d = 4" | "d = 5" | "d = 6" | "d = 7" | "d = 8"
    | "d = 9" | "d = 10" | "d = 11" | "d = 12" | "d = 13" | "d = 14" | "d = 15"
proof -
  have "d = 0 \<or> d = 1 \<or> d = 2 \<or> d = 3 \<or> d = 4 \<or> d = 5 \<or> d = 6 \<or> d = 7 \<or> d = 8 \<or> d = 9
      \<or> d = 10 \<or> d = 11 \<or> d = 12 \<or> d = 13 \<or> d = 14 \<or> d = 15" using assms by presburger
  with that show thesis by blast
qed

lemma digit_value_digit_char: "d < 16 \<Longrightarrow> digit_value (digit_char d) = Some (int d)"
  by (erule less_16_cases) (simp_all add: digit_char_def digit_value_def Let_def)

lemma digit_char_plain:
  "d < 16 \<Longrightarrow> digit_char d \<noteq> CHR ''.'' \<and> digit_char d \<noteq> CHR '':'' \<and> digit_char d \<noteq> CHR ''x''
     \<and> digit_char d \<noteq> CHR ''X'' \<and> digit_char d \<noteq> CHR ''%'' \<and> digit_char d \<noteq> CHR ''[''
     \<and> digit_char d \<noteq> CHR '']'' \<and> (digit_char d = CHR ''0'' \<longrightarrow> d = 0)"
  by (erule less_16_cases) (simp_all add: digit_char_def)

lemma digits_nonempty [simp]: "digits b n \<noteq> []"
  by (subst digits.simps) simp

lemma set_digits:
  "2 \<le> b \<Longrightarrow> b \<le> 16 \<Longrightarrow> c \<in> set (digits b n) \<Longrightarrow> \<exists>d < 16. c = digit_char d"
proof (induction b n rule: digits.induct)
  case (1 b n)
  show ?case
  proof (cases "n < b")
    case False
    then have "c \<in> set (digits b (n div b)) \<or> c = digit_char (n mod b)"
      using 1 by (subst (asm) digits.simps) auto
    moreover have "n mod b < 16" using 1 by (meson less_le_trans mod_less_divisor zero_less_numeral)
    ultimately show ?thesis using 1 False by auto
  next
    case True
    then have "c = digit_char n" "n < 16" using 1 by (auto simp: digits.simps [of b n])
    then show ?thesis by blast
  qed
qed

lemma parse_digits:
  assumes "2 \<le> b" "b \<le> 16" "n \<le> 18446744073709551615"
  shows "parse_uint_loop (int b) 0 (digits b n) = Some (int n)"
  using assms
proof (induction b n rule: digits.induct)
  case (1 b n)
  show ?case
  proof (cases "n < b")
    case True
    then show ?thesis using 1 by (simp add: digits.simps [of b n] digit_value_digit_char)
  next
    case False
    have d: "n div b \<le> 18446744073709551615" using 1(4) div_le_dividend le_trans by blast
    have m: "n mod b < 16" "n mod b < b" using 1 by (auto intro: less_le_trans [OF mod_less_divisor])
    have e: "int (n div b) * int b + int (n mod b) = int n"
      by (metis div_mult_mod_eq of_nat_add of_nat_mult)
    have "parse_uint_loop (int b) 0 (digits b (n div b)) = Some (int (n div b))"
      using 1(2,3) False by (intro 1(1) d) auto
    then have "parse_uint_loop (int b) 0 (digits b n) = parse_uint_loop (int b) (int (n div b)) [digit_char (n mod b)]"
      using 1 False by (simp add: digits.simps [of b n] parse_uint_loop_snoc)
    also have "\<dots> = Some (int n)" using m e 1(4) by (simp add: digit_value_digit_char)
    finally show ?thesis .
  qed
qed

lemma hd_digits: "2 \<le> b \<Longrightarrow> b \<le> 16 \<Longrightarrow> 0 < n \<Longrightarrow> hd (digits b n) \<noteq> CHR ''0''"
proof (induction b n rule: digits.induct)
  case (1 b n)
  show ?case
  proof (cases "n < b")
    case True
    then show ?thesis using 1 digit_char_plain [of n] by (auto simp: digits.simps [of b n])
  next
    case False
    then have "0 < n div b" using 1 by (simp add: div_greater_zero_iff)
    then show ?thesis using 1 False by (simp add: digits.simps [of b n])
  qed
qed

end
