(* ===== verification/Channel_Route.thy ===== *)
theory Channel_Route
  imports Rotation_Store Go_Net
begin

text \<open>
  The configuration data of the gateway, \<open>internal/channel/config.go\<close> and the rotation block
  of \<open>rotation_store.go\<close>: the structs of the YAML file, their string-valued modes and
  their defaults.  A Go slice that may be nil is an option: \<^const>\<open>None\<close> is nil, \<open>Some []\<close> a
  list that is present and empty.  A pointer field is an option as well.
\<close>

section \<open>Modes\<close>

type_synonym AuthMode = string

definition AuthInject :: AuthMode where "AuthInject = ''inject''"
definition AuthPassthrough :: AuthMode where "AuthPassthrough = ''passthrough''"
definition AuthHeaderInject :: AuthMode where "AuthHeaderInject = ''header''"

datatype ProxyAuthMode =
    ProxyAuthToken | ProxyAuthTokenLoopbackExempt | ProxyAuthLoopbackOnly | ProxyAuthOpen

section \<open>Structs\<close>

record RotationConfig =
  rc_Policy :: string
  rc_Budget :: Budget
  rc_MaxRetryAfter :: duration

record Route =
  r_Name :: string
  r_Prefix :: string
  r_Upstream :: string
  r_Auth :: AuthMode
  r_Enabled :: bool
  r_Timeout :: duration
  r_KeyEnv :: string
  r_KeyFile :: string
  r_KeyRef :: string
  r_KeyEnvs :: "string list option"
  r_KeyFiles :: "string list option"
  r_KeyRefs :: "string list option"
  r_KeyHeader :: string
  r_KeyPrefix :: string
  r_Rotation :: "RotationConfig option"

record ConnectConfig =
  cc_Enabled :: bool
  cc_AllowedHosts :: "string list"
  cc_TokenEnv :: string
  cc_TokenFile :: string
  cc_TokenRef :: string
  cc_DialTimeout :: duration
  cc_MaxConcurrent :: int
  cc_IdleTimeout :: duration

record GatewayAuthConfig =
  ga_TokenEnv :: string
  ga_TokenFile :: string
  ga_TokenRef :: string
  ga_ExemptLoopback :: "bool option"
  ga_AllowUnauthenticated :: bool

record TLSConfig =
  tls_CertFile :: string
  tls_KeyFile :: string

record AESConfig =
  aes_Enabled :: bool
  aes_Listen :: string
  aes_KeyEnv :: string
  aes_KeyFile :: string
  aes_KeyRef :: string
  aes_TLS :: TLSConfig

record Config =
  c_Listen :: string
  c_Timeout :: duration
  c_AuditLog :: string
  c_Routes :: "Route list"
  c_Connect :: ConnectConfig
  c_GatewayAuth :: GatewayAuthConfig
  c_TLS :: TLSConfig
  c_AES :: AESConfig
  c_TrustForwardedForAudit :: bool

section \<open>Defaults and derived facts\<close>

definition DefaultConnectMaxConcurrent :: int where "DefaultConnectMaxConcurrent = 256"
definition DefaultConnectIdleTimeout :: duration where "DefaultConnectIdleTimeout = 5 * Minute"
definition DefaultTimeout :: duration where "DefaultTimeout = 90 * Second"

definition tls_on :: "TLSConfig \<Rightarrow> bool" where
  "tls_on t \<longleftrightarrow> tls_CertFile t \<noteq> [] \<and> tls_KeyFile t \<noteq> []"

definition hasToken :: "GatewayAuthConfig \<Rightarrow> bool" where
  "hasToken g \<longleftrightarrow> ga_TokenRef g \<noteq> [] \<or> ga_TokenEnv g \<noteq> [] \<or> ga_TokenFile g \<noteq> []"

definition exemptsLoopback :: "GatewayAuthConfig \<Rightarrow> bool" where
  "exemptsLoopback g = (case ga_ExemptLoopback g of None \<Rightarrow> True | Some b \<Rightarrow> b)"

definition GatewayAuth_Mode :: "GatewayAuthConfig \<Rightarrow> ProxyAuthMode" where
  "GatewayAuth_Mode g =
     (if hasToken g \<and> exemptsLoopback g then ProxyAuthTokenLoopbackExempt
      else if hasToken g then ProxyAuthToken
      else if ga_AllowUnauthenticated g then ProxyAuthOpen
      else ProxyAuthLoopbackOnly)"

definition hasSingularKeys :: "Route \<Rightarrow> bool" where
  "hasSingularKeys r \<longleftrightarrow> r_KeyEnv r \<noteq> [] \<or> r_KeyFile r \<noteq> [] \<or> r_KeyRef r \<noteq> []"

definition hasPluralKeys :: "Route \<Rightarrow> bool" where
  "hasPluralKeys r \<longleftrightarrow> r_KeyEnvs r \<noteq> None \<or> r_KeyFiles r \<noteq> None \<or> r_KeyRefs r \<noteq> None"

definition slice :: "'a list option \<Rightarrow> 'a list" where
  "slice xs = (case xs of None \<Rightarrow> [] | Some ys \<Rightarrow> ys)"

definition declaredKeyCount :: "Route \<Rightarrow> nat" where
  "declaredKeyCount r =
     length (slice (r_KeyEnvs r)) + length (slice (r_KeyFiles r)) + length (slice (r_KeyRefs r))"

definition EnabledRoutes :: "Config \<Rightarrow> Route list" where
  "EnabledRoutes c = filter r_Enabled (c_Routes c)"

end
