(* ===== verification/Secret.thy ===== *)
theory Secret
  imports Channel_Route
begin

text \<open>
  Credential resolution, \<open>internal/channel/secret.go\<close>: the three backends, the resolver that
  dispatches on the scheme and caches successes, the ordered fallback over a route's
  sources, and key pools.  The process environment, the file system and the \<open>op\<close>
  command line are the functions of \<open>secret_world\<close>; an outcome of \<open>op\<close> is what its
  bounded execution reports.  A failure carries the reference, a fixed diagnostic and
  one of the sentinel causes, never the value.
\<close>

unbundle bit_operations_syntax

section \<open>Errors\<close>

datatype secret_cause =
    ErrNoSecretSource | ErrSecretRefInvalid | ErrSecretNotFound | ErrSecretEmpty
  | ErrSecretUnavailable | ErrSecretDeadline

record SecretError =
  se_Ref :: string
  se_Detail :: string
  se_Err :: secret_cause

definition secretErr :: "string \<Rightarrow> secret_cause \<Rightarrow> string \<Rightarrow> SecretError" where
  "secretErr ref cause detail = \<lparr>se_Ref = ref, se_Detail = detail, se_Err = cause\<rparr>"

definition SchemeEnv :: string where "SchemeEnv = ''env:''"
definition SchemeFile :: string where "SchemeFile = ''file:''"
definition SchemeOP :: string where "SchemeOP = ''op://''"

definition refScheme :: "string \<Rightarrow> string option" where
  "refScheme ref = find (HasPrefix ref) [SchemeEnv, SchemeFile, SchemeOP]"

text \<open>Clipping to \<open>n\<close> bytes backs up to the start of a rune.\<close>

definition RuneStart :: "char \<Rightarrow> bool" where
  "RuneStart c \<longleftrightarrow> (of_char c :: int) AND 192 \<noteq> 128"

fun clip_rune :: "nat \<Rightarrow> string \<Rightarrow> nat" where
  "clip_rune 0 s = 0"
| "clip_rune (Suc n) s = (if RuneStart (s ! Suc n) then Suc n else clip_rune n s)"

definition maxRefDetail :: nat where "maxRefDetail = 96"

definition safeRef :: "string \<Rightarrow> string" where
  "safeRef ref =
     (case refScheme ref of
        None \<Rightarrow> ''<unrecognised reference, '' @ digits 10 (length ref) @ '' bytes, redacted>''
      | Some scheme \<Rightarrow>
          (let rest = TrimPrefix ref scheme
           in scheme @ (if maxRefDetail < length rest
                        then take (clip_rune maxRefDetail rest) rest @ ''...'' else rest)))"

definition cause_text :: "secret_cause \<Rightarrow> string" where
  "cause_text c =
     (case c of
        ErrNoSecretSource \<Rightarrow> ''no credential source configured''
      | ErrSecretRefInvalid \<Rightarrow> ''malformed secret reference''
      | ErrSecretNotFound \<Rightarrow> ''secret source absent''
      | ErrSecretEmpty \<Rightarrow> ''secret resolved to an empty value''
      | ErrSecretUnavailable \<Rightarrow> ''secret backend unavailable''
      | ErrSecretDeadline \<Rightarrow> ''secret backend unavailable: context deadline exceeded'')"

text \<open>\<open>SecretError.Error\<close>; \<open>quote\<close> is the \<open>%q\<close> verb of \<open>fmt\<close>.\<close>

definition SecretError_Error :: "(string \<Rightarrow> string) \<Rightarrow> SecretError \<Rightarrow> string" where
  "SecretError_Error quote e =
     ''secret '' @ quote (safeRef (se_Ref e)) @ '': '' @ cause_text (se_Err e)
       @ (if se_Detail e = [] then [] else '': '' @ se_Detail e)"

type_synonym secret_result = "SecretError + string"

section \<open>Backends\<close>

datatype read_result = ReadOk string | ReadNotExist | ReadPermission | ReadFailed

datatype op_outcome =
    OpOutput string | OpTimeout | OpWaitDelay | OpNotFound | OpExit int string | OpFailed

record secret_world =
  sw_lookup :: "string \<Rightarrow> string option"
  sw_read :: "string \<Rightarrow> read_result"
  sw_stat :: "string \<Rightarrow> int option"
  sw_op :: "string \<Rightarrow> op_outcome"

text \<open>The warnings written while resolving: a rendered reference and the file mode.\<close>

type_synonym secret_warning = "string \<times> int"

definition env_Resolve :: "secret_world \<Rightarrow> string \<Rightarrow> secret_result" where
  "env_Resolve w ref =
     (let name = TrimPrefix ref SchemeEnv
      in if name = [] then Inl (secretErr ref ErrSecretRefInvalid ''environment variable name is empty'')
         else case sw_lookup w name of
           None \<Rightarrow> Inl (secretErr ref ErrSecretNotFound ''environment variable is not set'')
         | Some raw \<Rightarrow>
             (let v = TrimSpace raw
              in if v = [] then Inl (secretErr ref ErrSecretEmpty ''environment variable holds only whitespace'')
                 else Inr v))"

definition nonOwnerPerm :: int where "nonOwnerPerm = 63"

definition warnOnLoosePermissions :: "secret_world \<Rightarrow> string \<Rightarrow> string \<Rightarrow> secret_warning list" where
  "warnOnLoosePermissions w ref path =
     (case sw_stat w path of
        None \<Rightarrow> []
      | Some mode \<Rightarrow> if mode AND nonOwnerPerm = 0 then [] else [(safeRef ref, mode)])"

definition file_Resolve :: "secret_world \<Rightarrow> string \<Rightarrow> secret_result \<times> secret_warning list" where
  "file_Resolve w ref =
     (let path = TrimPrefix ref SchemeFile
      in if path = [] then (Inl (secretErr ref ErrSecretRefInvalid ''file path is empty''), [])
         else case sw_read w path of
           ReadNotExist \<Rightarrow> (Inl (secretErr ref ErrSecretNotFound ''file does not exist''), [])
         | ReadPermission \<Rightarrow> (Inl (secretErr ref ErrSecretUnavailable ''file is not readable''), [])
         | ReadFailed \<Rightarrow> (Inl (secretErr ref ErrSecretUnavailable ''file could not be read''), [])
         | ReadOk b \<Rightarrow>
             (let v = TrimSpace b
              in (if v = [] then Inl (secretErr ref ErrSecretEmpty ''file holds only whitespace'') else Inr v,
                  warnOnLoosePermissions w ref path)))"

text \<open>A rune that must not reach an argument vector: white space, or a control character
  (one byte below 0x20, 0x7F, or the two-byte encodings of U+0080 to U+009F).\<close>

fun has_control :: "string \<Rightarrow> bool" where
  "has_control [] = False"
| "has_control (c # s) =
     ((of_char c :: int) < 32 \<or> (of_char c :: int) = 127
      \<or> (c = CHR 0xC2 \<and> (case s of [] \<Rightarrow> False | d # _ \<Rightarrow> 128 \<le> (of_char d :: int) \<and> (of_char d :: int) \<le> 159))
      \<or> has_control s)"

definition unusable_segment :: "string \<Rightarrow> bool" where
  "unusable_segment seg \<longleftrightarrow> list_ex (str_contains seg) utf8_spaces \<or> has_control seg"

definition opRefSegments :: nat where "opRefSegments = 3"

fun bad_segment :: "string list \<Rightarrow> string option" where
  "bad_segment [] = None"
| "bad_segment (seg # segs) =
     (if seg = [] then Some ''vault, item and field must all be non-empty''
      else if unusable_segment seg
           then Some ''vault, item and field must not contain whitespace or control characters''
      else bad_segment segs)"

definition parseOPRef :: "string \<Rightarrow> SecretError + (string \<times> string \<times> string)" where
  "parseOPRef ref =
     (if \<not> HasPrefix ref SchemeOP
      then Inl (secretErr ref ErrSecretRefInvalid (''reference must begin with \"op://\"''))
      else let parts = split_char (CHR ''/'') (TrimPrefix ref SchemeOP)
           in if length parts \<noteq> opRefSegments
              then Inl (secretErr ref ErrSecretRefInvalid
                     (''expected op://<vault>/<item>/<field> with 3 segments, got '' @ digits 10 (length parts)))
              else case bad_segment parts of
                     Some d \<Rightarrow> Inl (secretErr ref ErrSecretRefInvalid d)
                   | None \<Rightarrow> Inr (parts ! 0, parts ! 1, parts ! 2))"

definition maxCLIErrDetail :: nat where "maxCLIErrDetail = 200"

definition boundedDetail :: "string \<Rightarrow> string" where
  "boundedDetail stderr =
     (let s = TrimSpace stderr;
          s1 = (case index_byte (CHR 0x0A) s of None \<Rightarrow> s | Some i \<Rightarrow> TrimSpace (take i s))
      in if maxCLIErrDetail < length s1 then take maxCLIErrDetail s1 @ ''...'' else s1)"

definition Itoa :: "int \<Rightarrow> string" where
  "Itoa n = (if n < 0 then CHR ''-'' # digits 10 (nat (- n)) else digits 10 (nat n))"

definition opExecError :: "string \<Rightarrow> op_outcome \<Rightarrow> SecretError" where
  "opExecError ref outcome =
     (case outcome of
        OpTimeout \<Rightarrow> secretErr ref ErrSecretDeadline
          ''op read timed out; the vault may be locked or awaiting biometric approval''
      | OpWaitDelay \<Rightarrow> secretErr ref ErrSecretUnavailable
          ''op left a child process holding its output pipe; the read was abandoned after 2s rather than blocking startup''
      | OpNotFound \<Rightarrow> secretErr ref ErrSecretUnavailable
          ''the \"op\" 1Password CLI was not found on PATH''
      | OpExit code stderr \<Rightarrow> secretErr ref ErrSecretUnavailable
          (''op exited '' @ Itoa code @ '': '' @ boundedDetail stderr)
      | _ \<Rightarrow> secretErr ref ErrSecretUnavailable ''op read could not be executed'')"

definition op_Resolve :: "secret_world \<Rightarrow> string \<Rightarrow> secret_result" where
  "op_Resolve w ref =
     (case parseOPRef ref of
        Inl e \<Rightarrow> Inl e
      | Inr _ \<Rightarrow>
          (case sw_op w ref of
             OpOutput out \<Rightarrow>
               (let v = TrimSpace out
                in if v = [] then Inl (secretErr ref ErrSecretEmpty ''op read returned no value'') else Inr v)
           | failure \<Rightarrow> Inl (opExecError ref failure)))"

section \<open>The resolver\<close>

type_synonym provider = "string \<Rightarrow> secret_result \<times> secret_warning list"

record Resolver =
  rv_providers :: "(string \<times> provider) list"
  rv_cache :: "string \<Rightarrow> string option"
  rv_warned :: "secret_warning list"

definition newResolver :: "(string \<times> provider) list \<Rightarrow> Resolver" where
  "newResolver ps = \<lparr>rv_providers = ps, rv_cache = (\<lambda>_. None), rv_warned = []\<rparr>"

definition default_providers :: "secret_world \<Rightarrow> (string \<times> provider) list" where
  "default_providers w =
     [(SchemeEnv, \<lambda>ref. (env_Resolve w ref, [])), (SchemeFile, file_Resolve w),
      (SchemeOP, \<lambda>ref. (op_Resolve w ref, []))]"

definition NewDefaultSecretProvider :: "secret_world \<Rightarrow> Resolver" where
  "NewDefaultSecretProvider w = newResolver (default_providers w)"

definition schemeOf :: "string \<Rightarrow> SecretError + string" where
  "schemeOf ref =
     (case refScheme ref of
        Some s \<Rightarrow> Inr s
      | None \<Rightarrow> Inl (secretErr ref ErrSecretRefInvalid ''expected one of env:, file: or op://''))"

definition providerFor :: "Resolver \<Rightarrow> string \<Rightarrow> SecretError + provider" where
  "providerFor r ref =
     (case schemeOf ref of
        Inl e \<Rightarrow> Inl e
      | Inr scheme \<Rightarrow>
          (case map_of (rv_providers r) scheme of
             None \<Rightarrow> Inl (secretErr ref ErrSecretRefInvalid (''no provider registered for scheme '' @ scheme))
           | Some p \<Rightarrow> Inr p))"

definition resolveOnce :: "string \<Rightarrow> provider \<Rightarrow> Resolver \<Rightarrow> secret_result \<times> Resolver" where
  "resolveOnce ref p r =
     (case rv_cache r ref of
        Some v \<Rightarrow> (Inr v, r)
      | None \<Rightarrow>
          (case p ref of
             (res, warned) \<Rightarrow>
               (let r1 = r\<lparr>rv_warned := rv_warned r @ warned\<rparr>
                in case res of
                     Inl e \<Rightarrow> (Inl e, r1)
                   | Inr v \<Rightarrow>
                       if v = [] then (Inl (secretErr ref ErrSecretEmpty ''provider returned an empty value''), r1)
                       else (Inr v, r1\<lparr>rv_cache := (rv_cache r1)(ref := Some v)\<rparr>))))"

definition Resolver_Resolve :: "string \<Rightarrow> Resolver \<Rightarrow> secret_result \<times> Resolver" where
  "Resolver_Resolve ref r =
     (case rv_cache r ref of
        Some v \<Rightarrow> (Inr v, r)
      | None \<Rightarrow>
          (case providerFor r ref of
             Inl e \<Rightarrow> (Inl e, r)
           | Inr p \<Rightarrow> resolveOnce ref p r))"

section \<open>Ordered sources and key pools\<close>

definition secretRefs :: "string \<Rightarrow> string \<Rightarrow> string \<Rightarrow> string list" where
  "secretRefs ref envName filePath =
     (if ref \<noteq> [] then [ref] else [])
       @ (if envName \<noteq> [] then [SchemeEnv @ envName] else [])
       @ (if filePath \<noteq> [] then [SchemeFile @ filePath] else [])"

datatype secret_failure = NoSecretSource | AllFailed "SecretError list"

fun try_refs ::
  "(string \<Rightarrow> 's \<Rightarrow> secret_result \<times> 's) \<Rightarrow> string list \<Rightarrow> SecretError list \<Rightarrow> 's
   \<Rightarrow> (secret_failure + string) \<times> 's" where
  "try_refs sp [] errs s = (Inl (AllFailed errs), s)"
| "try_refs sp (ref # refs) errs s =
     (case sp ref s of
        (Inr v, s') \<Rightarrow>
          if TrimSpace v \<noteq> [] then (Inr (TrimSpace v), s')
          else try_refs sp refs (errs @ [secretErr ref ErrSecretEmpty ''provider returned an empty value'']) s'
      | (Inl e, s') \<Rightarrow> try_refs sp refs (errs @ [e]) s')"

definition resolveFirst ::
  "(string \<Rightarrow> 's \<Rightarrow> secret_result \<times> 's) \<Rightarrow> string list \<Rightarrow> 's \<Rightarrow> (secret_failure + string) \<times> 's" where
  "resolveFirst sp refs s = (if refs = [] then (Inl NoSecretSource, s) else try_refs sp refs [] s)"

definition validateSecretRef :: "string \<Rightarrow> SecretError option" where
  "validateSecretRef ref =
     (if ref = [] then None
      else case schemeOf ref of
        Inl e \<Rightarrow> Some e
      | Inr scheme \<Rightarrow>
          if scheme = SchemeOP then (case parseOPRef ref of Inl e \<Rightarrow> Some e | Inr _ \<Rightarrow> None)
          else if scheme = SchemeEnv \<and> TrimPrefix ref SchemeEnv = []
               then Some (secretErr ref ErrSecretRefInvalid ''environment variable name is empty'')
          else if scheme = SchemeFile \<and> TrimPrefix ref SchemeFile = []
               then Some (secretErr ref ErrSecretRefInvalid ''file path is empty'')
          else None)"

text \<open>The slots of a pool in their frozen order, each a label and a reference.\<close>

definition slot_refs :: "string \<Rightarrow> string \<Rightarrow> string list option \<Rightarrow> (string \<times> string) list" where
  "slot_refs field scheme items =
     map (\<lambda>(i, item). (field @ ''['' @ digits 10 i @ '']'', scheme @ item)) (indexed (slice items))"

definition keySlots :: "Route \<Rightarrow> (string \<times> string) list" where
  "keySlots r =
     slot_refs ''key_envs'' SchemeEnv (r_KeyEnvs r) @ slot_refs ''key_files'' SchemeFile (r_KeyFiles r)
       @ slot_refs ''key_refs'' [] (r_KeyRefs r)"

datatype pool_error =
    SlotFailed string string SecretError
  | PoolEmpty string
  | DuplicateCredential string string string

fun resolve_slots ::
  "(string \<Rightarrow> 's \<Rightarrow> secret_result \<times> 's) \<Rightarrow> string \<Rightarrow> (string \<times> string) list \<Rightarrow> 's
   \<Rightarrow> (pool_error + string list) \<times> 's" where
  "resolve_slots sp route [] s = (Inr [], s)"
| "resolve_slots sp route ((label, ref) # slots) s =
     (case sp ref s of
        (Inl e, s') \<Rightarrow> (Inl (SlotFailed route label e), s')
      | (Inr raw, s') \<Rightarrow>
          if TrimSpace raw = []
          then (Inl (SlotFailed route label (secretErr ref ErrSecretEmpty ''provider returned an empty value'')), s')
          else (case resolve_slots sp route slots s' of
                  (Inl e, s'') \<Rightarrow> (Inl e, s'')
                | (Inr ks, s'') \<Rightarrow> (Inr (TrimSpace raw # ks), s'')))"

text \<open>The first key equal to an earlier one, by the labels of both slots; \<open>seen\<close> holds the keys
  before it with their labels.\<close>

fun duplicate_at :: "(string \<times> string) list \<Rightarrow> (string \<times> string) list \<Rightarrow> (string \<times> string) option" where
  "duplicate_at seen [] = None"
| "duplicate_at seen ((k, label) # rest) =
     (case map_of seen k of
        Some first \<Rightarrow> Some (label, first)
      | None \<Rightarrow> duplicate_at ((k, label) # seen) rest)"

definition rejectDuplicateCredentials :: "string \<Rightarrow> string list \<Rightarrow> string list \<Rightarrow> pool_error option" where
  "rejectDuplicateCredentials route keys labels =
     (case duplicate_at [] (zip keys labels) of
        None \<Rightarrow> None
      | Some (label, first) \<Rightarrow> Some (DuplicateCredential route label first))"

definition resolveKeyPool ::
  "(string \<Rightarrow> 's \<Rightarrow> secret_result \<times> 's) \<Rightarrow> Route \<Rightarrow> 's \<Rightarrow> (pool_error + string list) \<times> 's" where
  "resolveKeyPool sp r s =
     (case resolve_slots sp (r_Name r) (keySlots r) s of
        (Inl e, s') \<Rightarrow> (Inl e, s')
      | (Inr keys, s') \<Rightarrow>
          if keys = [] then (Inl (PoolEmpty (r_Name r)), s')
          else (case rejectDuplicateCredentials (r_Name r) keys (map fst (keySlots r)) of
                  Some e \<Rightarrow> (Inl e, s')
                | None \<Rightarrow> (Inr keys, s')))"

section \<open>The provider contract\<close>

text \<open>What every \<open>SecretProvider\<close> promises: a successful resolution is trimmed and not empty.
  \<open>inv\<close> is what the provider keeps of its own state.\<close>

abbreviation usable :: "string \<Rightarrow> bool" where
  "usable v \<equiv> v \<noteq> [] \<and> TrimSpace v = v"

locale secret_seam =
  fixes Res :: "string \<Rightarrow> 's \<Rightarrow> secret_result \<times> 's" and inv :: "'s \<Rightarrow> bool"
  assumes keeps: "inv s \<Longrightarrow> Res ref s = (res, s') \<Longrightarrow> inv s'"
    and contract: "inv s \<Longrightarrow> Res ref s = (Inr v, s') \<Longrightarrow> usable v"
begin

text \<open>Under the contract a source that resolves is used as it stands.\<close>

lemma resolveFirst_takes_first:
  assumes "inv s" "Res ref s = (Inr v, s')"
  shows "resolveFirst Res (ref # refs) s = (Inr v, s')"
  using contract [OF assms] assms(2) by (simp add: resolveFirst_def)

lemma resolve_slots_inv:
  "inv s \<Longrightarrow> resolve_slots Res route slots s = (res, s') \<Longrightarrow> inv s'"
proof (induction slots arbitrary: s res s')
  case (Cons slot slots)
  then show ?case
    by (cases slot) (auto split: prod.splits sum.splits if_splits dest: keeps)
qed simp

lemma try_refs_inv: "inv s \<Longrightarrow> try_refs Res refs errs s = (res, s') \<Longrightarrow> inv s'"
proof (induction refs arbitrary: s errs res s')
  case (Cons ref refs)
  then show ?case by (auto split: prod.splits sum.splits if_splits dest: keeps)
qed simp

end

definition cache_ok :: "Resolver \<Rightarrow> bool" where
  "cache_ok r \<longleftrightarrow> (\<forall>ref v. rv_cache r ref = Some v \<longrightarrow> usable v)
     \<and> (\<forall>(scheme, p) \<in> set (rv_providers r). \<forall>ref v. fst (p ref) = Inr v \<longrightarrow> usable v)"

lemma env_Resolve_usable: "env_Resolve w ref = Inr v \<Longrightarrow> usable v"
  by (auto simp: env_Resolve_def Let_def split: if_splits option.splits)

lemma file_Resolve_usable: "fst (file_Resolve w ref) = Inr v \<Longrightarrow> usable v"
  by (auto simp: file_Resolve_def Let_def split: if_splits read_result.splits)

lemma op_Resolve_usable: "op_Resolve w ref = Inr v \<Longrightarrow> usable v"
  by (auto simp: op_Resolve_def Let_def split: if_splits sum.splits op_outcome.splits)

lemma cache_ok_default: "cache_ok (NewDefaultSecretProvider w)"
proof -
  have "usable v" if "(scheme, p) \<in> set (default_providers w)" "fst (p ref) = Inr v" for scheme p ref v
    using that env_Resolve_usable [of w ref v] file_Resolve_usable [of w ref v] op_Resolve_usable [of w ref v]
    unfolding default_providers_def by (simp, elim disjE) simp_all
  then show ?thesis
    unfolding cache_ok_def NewDefaultSecretProvider_def newResolver_def by auto
qed

lemma Resolver_Resolve_cases:
  assumes "Resolver_Resolve ref r = (res, r')"
  obtains (cached) v where "rv_cache r ref = Some v" "res = Inr v" "r' = r"
  | (failed) e where "rv_cache r ref = None" "res = Inl e" "rv_cache r' = rv_cache r" "rv_providers r' = rv_providers r"
  | (fetched) v p scheme where "rv_cache r ref = None" "(scheme, p) \<in> set (rv_providers r)" "fst (p ref) = Inr v"
      "res = Inr v" "rv_cache r' = (rv_cache r)(ref := Some v)" "rv_providers r' = rv_providers r" "v \<noteq> []"
proof (cases "rv_cache r ref")
  case (Some v)
  moreover from this have "res = Inr v" "r' = r" using assms by (simp_all add: Resolver_Resolve_def)
  ultimately show thesis by (rule that(1))
next
  case None
  show thesis
  proof (cases "providerFor r ref")
    case (Inl e)
    then have "res = Inl e" "rv_cache r' = rv_cache r" "rv_providers r' = rv_providers r"
      using assms None by (simp_all add: Resolver_Resolve_def)
    with None show thesis by (rule that(2))
  next
    case (Inr p)
    then obtain scheme where mem: "(scheme, p) \<in> set (rv_providers r)"
      by (auto simp: providerFor_def split: sum.splits option.splits dest: map_of_SomeD)
    obtain x warned where x: "p ref = (x, warned)" by fastforce
    have once: "resolveOnce ref p r = (res, r')" using assms None Inr by (simp add: Resolver_Resolve_def)
    show thesis
    proof (cases x)
      case (Inl e)
      then have "res = Inl e" "rv_cache r' = rv_cache r" "rv_providers r' = rv_providers r"
        using once None x by (auto simp: resolveOnce_def Let_def)
      with None show thesis by (rule that(2))
    next
      case (Inr v)
      show thesis
      proof (cases "v = []")
        case True
        then have "res = Inl (secretErr ref ErrSecretEmpty ''provider returned an empty value'')"
          "rv_cache r' = rv_cache r" "rv_providers r' = rv_providers r"
          using once None x Inr by (auto simp: resolveOnce_def Let_def)
        with None show thesis by (rule that(2))
      next
        case False
        then have "res = Inr v" "rv_cache r' = (rv_cache r)(ref := Some v)" "rv_providers r' = rv_providers r"
          using once None x Inr by (auto simp: resolveOnce_def Let_def)
        moreover have "fst (p ref) = Inr v" using x Inr by simp
        ultimately show thesis using that(3) [OF None mem] False by blast
      qed
    qed
  qed
qed

interpretation resolver: secret_seam Resolver_Resolve cache_ok
proof unfold_locales
  fix r ref res r' v
  assume r: "cache_ok r"
  show "cache_ok r'" if "Resolver_Resolve ref r = (res, r')"
    using that
  proof (cases rule: Resolver_Resolve_cases)
    case (fetched v p scheme)
    then have "usable v" using r unfolding cache_ok_def by blast
    with fetched r show ?thesis unfolding cache_ok_def by simp
  qed (use r in \<open>simp_all add: cache_ok_def\<close>)
  show "usable v" if "Resolver_Resolve ref r = (Inr v, r')"
    using that
  proof (cases rule: Resolver_Resolve_cases)
    case (fetched v' p scheme)
    then show ?thesis using r unfolding cache_ok_def by blast
  qed (use r in \<open>auto simp: cache_ok_def\<close>)
qed

section \<open>Whatever the provider does\<close>

lemma try_refs_usable: "try_refs sp refs errs s = (Inr v, s') \<Longrightarrow> usable v"
  by (induction sp refs errs s rule: try_refs.induct) (auto split: prod.splits sum.splits if_splits)

lemma resolveFirst_usable: "resolveFirst sp refs s = (Inr v, s') \<Longrightarrow> usable v"
  by (auto simp: resolveFirst_def dest: try_refs_usable split: if_splits)

lemma resolve_slots_usable:
  "resolve_slots sp route slots s = (Inr ks, s') \<Longrightarrow> length ks = length slots \<and> (\<forall>k \<in> set ks. usable k)"
proof (induction slots arbitrary: s ks s')
  case (Cons slot slots)
  obtain label ref where slot: "slot = (label, ref)" by fastforce
  then obtain raw s1 ks1 where "sp ref s = (Inr raw, s1)" "TrimSpace raw \<noteq> []"
    "resolve_slots sp route slots s1 = (Inr ks1, s')" "ks = TrimSpace raw # ks1"
    using Cons.prems by (auto split: prod.splits sum.splits if_splits)
  with Cons.IH [of s1 ks1 s'] show ?case by simp
qed simp

lemma length_keySlots: "length (keySlots r) = declaredKeyCount r"
  by (simp add: keySlots_def slot_refs_def declaredKeyCount_def)

lemma duplicate_at_None:
  "duplicate_at seen ps = None \<longleftrightarrow> distinct (map fst ps) \<and> set (map fst seen) \<inter> set (map fst ps) = {}"
proof (induction seen ps rule: duplicate_at.induct)
  case (2 seen k label rest)
  have "map_of seen k = None \<longleftrightarrow> k \<notin> set (map fst seen)" by (simp add: map_of_eq_None_iff)
  with 2 show ?case by (auto split: option.splits)
qed simp

lemma rejectDuplicate_iff:
  "length keys = length labels \<Longrightarrow> rejectDuplicateCredentials route keys labels = None \<longleftrightarrow> distinct keys"
  using duplicate_at_None [of "[]" "zip keys labels"]
  by (auto simp: rejectDuplicateCredentials_def split: option.splits)

lemma clip_rune_le: "clip_rune n s \<le> n"
  by (induction n) auto

text \<open>A sequence of further resolutions.\<close>

fun resolve_all :: "string list \<Rightarrow> Resolver \<Rightarrow> Resolver" where
  "resolve_all [] r = r"
| "resolve_all (ref # refs) r = resolve_all refs (snd (Resolver_Resolve ref r))"

lemma cache_grows:
  "Resolver_Resolve ref' r = (res, r') \<Longrightarrow> rv_cache r ref = Some v \<Longrightarrow> rv_cache r' ref = Some v"
  by (erule Resolver_Resolve_cases) auto

lemma resolve_all_cache: "rv_cache r ref = Some v \<Longrightarrow> rv_cache (resolve_all refs r) ref = Some v"
  by (induction refs r rule: resolve_all.induct) (auto intro: cache_grows prod.collapse [symmetric])

lemma Resolver_Resolve_cached: "rv_cache r ref = Some v \<Longrightarrow> Resolver_Resolve ref r = (Inr v, r)"
  by (simp add: Resolver_Resolve_def)

lemma Resolver_success_cached: "Resolver_Resolve ref r = (Inr v, r') \<Longrightarrow> rv_cache r' ref = Some v"
  by (erule Resolver_Resolve_cases) auto

section \<open>Properties\<close>



text \<open>A vault item named twice is fetched once, and a failure is not remembered.  After a
  reference has resolved, every later resolution of it, whatever else was resolved in
  between and however the backends have changed, returns the same value without
  consulting one; a failed resolution leaves the cache as it was.\<close>

theorem resolver_fetches_once:
  assumes "Resolver_Resolve ref r = (res, r')"
  shows "(\<forall>v refs ps. res = Inr v \<longrightarrow>
            Resolver_Resolve ref ((resolve_all refs r')\<lparr>rv_providers := ps\<rparr>)
              = (Inr v, (resolve_all refs r')\<lparr>rv_providers := ps\<rparr>))
    \<and> (\<forall>e. res = Inl e \<longrightarrow> rv_cache r' = rv_cache r)"
proof -
  have "rv_cache (resolve_all refs r') ref = Some v" if "res = Inr v" for v refs
    using assms that by (auto intro: resolve_all_cache Resolver_success_cached)
  moreover have "rv_cache r' = rv_cache r" if "res = Inl e" for e
    using assms that by (cases rule: Resolver_Resolve_cases) auto
  ultimately show ?thesis by (auto intro!: Resolver_Resolve_cached)
qed

definition example_world :: secret_world where
  "example_world = \<lparr>sw_lookup = (\<lambda>n. if n = ''KEY'' then Some '' k1 '' else if n = ''KEY2'' then Some ''k2'' else None),
     sw_read = (\<lambda>_. ReadNotExist), sw_stat = (\<lambda>_. None), sw_op = (\<lambda>_. OpTimeout)\<rparr>"

definition example_pool_route :: Route where
  "example_pool_route = \<lparr>r_Name = ''mm'', r_Prefix = ''/mm/'', r_Upstream = ''https://u'', r_Auth = AuthInject,
     r_Enabled = True, r_Timeout = 0, r_KeyEnv = [], r_KeyFile = [], r_KeyRef = [],
     r_KeyEnvs = Some [''KEY'', ''KEY2''], r_KeyFiles = None, r_KeyRefs = None, r_KeyHeader = [], r_KeyPrefix = [],
     r_Rotation = None\<rparr>"

lemma example_pool:
  "fst (resolveKeyPool Resolver_Resolve example_pool_route (NewDefaultSecretProvider example_world)) = Inr [''k1'', ''k2'']"
  by code_simp


lemma example_fetch:
  "fst (Resolver_Resolve ''env:KEY'' (NewDefaultSecretProvider example_world)) = Inr ''k1''"
  by code_simp

theorem resolver_fetches_once_witness:
  "\<exists>r'. Resolver_Resolve ''env:KEY'' (NewDefaultSecretProvider example_world) = (Inr ''k1'', r')
     \<and> fst (Resolver_Resolve ''env:KEY'' (r'\<lparr>rv_providers := []\<rparr>)) = Inr ''k1''"
proof -
  obtain r' where r: "Resolver_Resolve ''env:KEY'' (NewDefaultSecretProvider example_world) = (Inr ''k1'', r')"
    using example_fetch by (cases "Resolver_Resolve ''env:KEY'' (NewDefaultSecretProvider example_world)") simp
  have "Resolver_Resolve ''env:KEY'' ((resolve_all [] r')\<lparr>rv_providers := []\<rparr>)
      = (Inr ''k1'', (resolve_all [] r')\<lparr>rv_providers := []\<rparr>)"
    using resolver_fetches_once [OF r] by blast
  with r show ?thesis by simp
qed

text \<open>A pasted key is not disclosed.  A reference with no known scheme is most often the
  credential itself; what an error prints of it is its length and nothing else, and of a
  recognised reference at most 96 bytes of the payload are printed.\<close>

theorem unrecognised_reference_redacted:
  "(refScheme ref = None \<and> refScheme ref' = None \<and> length ref = length ref' \<longrightarrow>
      SecretError_Error quote (secretErr ref cause detail) = SecretError_Error quote (secretErr ref' cause detail))
   \<and> (refScheme ref \<noteq> None \<longrightarrow> length (safeRef ref) \<le> 104)"
proof -
  have "length (safeRef ref) \<le> 104" if s: "refScheme ref = Some scheme" for scheme
  proof -
    have "length scheme \<le> 5" using s
      by (auto simp: refScheme_def SchemeEnv_def SchemeFile_def SchemeOP_def split: if_splits)
    moreover have "clip_rune 96 (TrimPrefix ref scheme) \<le> 96" by (rule clip_rune_le)
    ultimately show ?thesis using s by (simp add: safeRef_def Let_def maxRefDetail_def)
  qed
  then show ?thesis by (auto simp: SecretError_Error_def secretErr_def safeRef_def)
qed

theorem unrecognised_reference_redacted_witness:
  "SecretError_Error id (secretErr ''sk-a'' ErrSecretRefInvalid []) = SecretError_Error id (secretErr ''sk-b'' ErrSecretRefInvalid [])
   \<and> length (safeRef ''env:KEY'') \<le> 104"
proof -
  have "refScheme ''sk-a'' = None" "refScheme ''sk-b'' = None" "refScheme ''env:KEY'' \<noteq> None" by code_simp+
  then show ?thesis
    using unrecognised_reference_redacted [of "''sk-a''" "''sk-b''" id ErrSecretRefInvalid "[]"]
      unrecognised_reference_redacted [of "''env:KEY''" "''env:KEY''" id ErrSecretRefInvalid "[]"] by simp
qed

end
