(* ===== verification/Connect_Target.thy ===== *)
theory Connect_Target
  imports Go_Net
begin

text \<open>
  Whether a CONNECT target names the machine the gateway runs on,
  \<open>internal/channel/connect_target.go\<close>: the spellings of a local address, the inet\_aton
  grammar, the scope of a bound socket, the refusal of an allowlist entry at
  configuration time and the refusal of a dialled peer.  The explanatory sentences of the
  code are values of a datatype that carries the parts they are built from; the empty string
  is \<^const>\<open>None\<close>.  \<open>uni\<close> and \<open>ufold\<close> are the Unicode tables behind \<open>strings.ToLower\<close> and
  \<open>strings.EqualFold\<close>, consulted for non-ASCII text only.
\<close>

unbundle bit_operations_syntax

section \<open>Reading a host\<close>

definition bareHost :: "string \<Rightarrow> string" where
  "bareHost host =
     (let h = TrimSuffix (TrimPrefix host ''['') '']''
      in case index_byte (CHR ''%'') h of
           None \<Rightarrow> h
         | Some i \<Rightarrow>
             (case find (\<lambda>c. c = CHR ''.'' \<or> c = CHR '':'') (take i h) of
                Some c \<Rightarrow> if c = CHR '':'' then take i h else h
              | None \<Rightarrow> h))"

definition parseIPv4Part :: "string \<Rightarrow> int option" where
  "parseIPv4Part p =
     (if p = [] then None
      else let (base, q) =
             (if HasPrefix p ''0x'' \<or> HasPrefix p ''0X'' then (16, drop 2 p)
              else if 1 < length p \<and> hd p = CHR ''0'' then (8, drop 1 p)
              else (10, p))
           in if q = [] then None
              else case ParseUint q base of
                     None \<Rightarrow> None
                   | Some v \<Rightarrow> if 4294967295 < v then None else Some v)"

text \<open>The parts of the address, or \<^const>\<open>None\<close> as soon as one does not parse.\<close>

fun parse_parts :: "string list \<Rightarrow> int list option" where
  "parse_parts [] = Some []"
| "parse_parts (p # ps) =
     (case parseIPv4Part p of
        None \<Rightarrow> None
      | Some v \<Rightarrow> map_option ((#) v) (parse_parts ps))"

text \<open>The 32-bit address: the leading parts are its high bytes, the last part the rest.\<close>

fun or_parts :: "int list \<Rightarrow> nat \<Rightarrow> int" where
  "or_parts [] i = 0"
| "or_parts [v] i = v"
| "or_parts (v # w # vs) i = push_bit (8 * (3 - i)) v OR or_parts (w # vs) (Suc i)"

definition addr_byte :: "nat \<Rightarrow> int \<Rightarrow> int" where
  "addr_byte k addr = (addr div 2 ^ k) mod 256"

definition parseIPv4Numeric :: "string \<Rightarrow> ip option" where
  "parseIPv4Numeric host =
     (let parts = split_char (CHR ''.'') host
      in if parts = [] \<or> 4 < length parts then None
         else case parse_parts parts of
           None \<Rightarrow> None
         | Some vals \<Rightarrow>
             let n = length vals in
             if list_ex (\<lambda>v. 255 < v) (butlast vals) then None
             else if 2 ^ (8 * (5 - n)) \<le> last vals then None
             else let addr = or_parts vals 0
                  in Some (IPv4 (addr_byte 24 addr) (addr_byte 16 addr) (addr_byte 8 addr) (addr_byte 0 addr)))"

definition hostIP :: "string \<Rightarrow> ip option" where
  "hostIP host =
     (let h = bareHost host
      in case ParseIP h of Some x \<Rightarrow> Some x | None \<Rightarrow> parseIPv4Numeric h)"

definition sameHost :: "(string \<Rightarrow> string \<Rightarrow> bool) \<Rightarrow> string \<Rightarrow> string \<Rightarrow> bool" where
  "sameHost ufold a b =
     (case (hostIP a, hostIP b) of
        (Some x, Some y) \<Rightarrow> ip_Equal x y
      | (None, None) \<Rightarrow> EqualFold ufold (TrimSuffix a ''.'') (TrimSuffix b ''.'')
      | _ \<Rightarrow> False)"

section \<open>Local targets\<close>

datatype target_kind =
    EmptyHost | LoopbackAddress | UnspecifiedAddress
  | LoopbackNumeric | UnspecifiedNumeric | ReservedName

definition reservedLoopbackNames :: "string list" where
  "reservedLoopbackNames =
     [''localhost'', ''localhost.localdomain'', ''ip6-localhost'', ''ip6-loopback'']"

definition isReservedLoopbackName :: "(string \<Rightarrow> string) \<Rightarrow> string \<Rightarrow> bool" where
  "isReservedLoopbackName uni host =
     (let name = ToLower uni (TrimSuffix host ''.'')
      in List.member reservedLoopbackNames name \<or> HasSuffix name ''.localhost'')"

definition localTargetKind :: "(string \<Rightarrow> string) \<Rightarrow> string \<Rightarrow> target_kind option" where
  "localTargetKind uni host =
     (let h = bareHost host
      in if h = [] then Some EmptyHost
         else case ParseIP h of
           Some x \<Rightarrow>
             if IsLoopback x then Some LoopbackAddress
             else if IsUnspecified x then Some UnspecifiedAddress
             else None
         | None \<Rightarrow>
             (case parseIPv4Numeric h of
                Some x \<Rightarrow>
                  if IsLoopback x then Some LoopbackNumeric
                  else if IsUnspecified x then Some UnspecifiedNumeric
                  else None
              | None \<Rightarrow> if isReservedLoopbackName uni h then Some ReservedName else None))"

section \<open>The scope of a socket\<close>

datatype listenScope = scopeUnknown | scopeLoopbackOnly | scopeReachable

text \<open>A \<open>net.Addr\<close>: the nil interface, a TCP address (whose IP field may be nil), or another
  kind with its printed form.\<close>

datatype net_addr = NilAddr | TCPAddr "ip option" | OtherAddr string

definition splitHostPortLenient :: "string \<Rightarrow> string \<times> string" where
  "splitHostPortLenient addr =
     (case SplitHostPort addr of Some hp \<Rightarrow> hp | None \<Rightarrow> (addr, []))"

fun addrIP :: "net_addr \<Rightarrow> ip option" where
  "addrIP NilAddr = None"
| "addrIP (TCPAddr x) = x"
| "addrIP (OtherAddr s) = ParseIP (bareHost (fst (splitHostPortLenient s)))"

definition boundListenScope :: "net_addr \<Rightarrow> listenScope" where
  "boundListenScope addr =
     (case addrIP addr of
        None \<Rightarrow> scopeReachable
      | Some x \<Rightarrow>
          if IsUnspecified x then scopeReachable
          else if IsLoopback x then scopeLoopbackOnly
          else scopeReachable)"

definition isLoopbackListen :: "string \<Rightarrow> bool" where
  "isLoopbackListen addr =
     (case ParseIP (bareHost (fst (splitHostPortLenient addr))) of
        Some x \<Rightarrow> IsLoopback x
      | None \<Rightarrow> False)"

section \<open>Hints for the operator\<close>

datatype listen_hint =
    NameHint string                 \<comment> \<open>the listen string\<close>
  | ZoneHint string string ip       \<comment> \<open>the listen string, the zone, the address\<close>
  | NumericHint string ip           \<comment> \<open>the listen string, the address it spells\<close>

definition loopbackNameHint :: "(string \<Rightarrow> string) \<Rightarrow> string \<Rightarrow> listen_hint option" where
  "loopbackNameHint uni listen =
     (if isReservedLoopbackName uni (fst (splitHostPortLenient listen))
      then Some (NameHint listen) else None)"

definition loopbackZoneHint :: "string \<Rightarrow> listen_hint option" where
  "loopbackZoneHint listen =
     (let host = fst (splitHostPortLenient listen);
          h = TrimSuffix (TrimPrefix host ''['') '']''
      in case index_byte (CHR ''%'') h of
           None \<Rightarrow> None
         | Some i \<Rightarrow>
             if bareHost host \<noteq> h then None
             else case (case ParseIP (take i h) of
                          Some x \<Rightarrow> Some x | None \<Rightarrow> parseIPv4Numeric (take i h)) of
                    None \<Rightarrow> None
                  | Some x \<Rightarrow>
                      if IsLoopback x then Some (ZoneHint listen (CHR ''%'' # drop (i + 1) h) x)
                      else None)"

definition loopbackNumericHint :: "string \<Rightarrow> listen_hint option" where
  "loopbackNumericHint listen =
     (let h = bareHost (fst (splitHostPortLenient listen))
      in if ParseIP h \<noteq> None then None
         else case parseIPv4Numeric h of
                None \<Rightarrow> None
              | Some x \<Rightarrow> if IsLoopback x then Some (NumericHint listen x) else None)"

definition loopbackListenHint :: "(string \<Rightarrow> string) \<Rightarrow> string \<Rightarrow> listen_hint option" where
  "loopbackListenHint uni listen =
     (case loopbackNameHint uni listen of
        Some h \<Rightarrow> Some h
      | None \<Rightarrow>
          (case loopbackZoneHint listen of
             Some h \<Rightarrow> Some h
           | None \<Rightarrow> loopbackNumericHint listen))"

section \<open>The two refusals\<close>

datatype self_reference =
    OwnListenPort target_kind
  | LocalTarget target_kind string "listen_hint option"
  | OwnListenAddress string

definition connectSelfReference ::
  "(string \<Rightarrow> string) \<Rightarrow> (string \<Rightarrow> string \<Rightarrow> bool) \<Rightarrow> string \<Rightarrow> string \<Rightarrow> string \<Rightarrow> bool \<Rightarrow>
   self_reference option" where
  "connectSelfReference uni ufold host port listen loopbackOnly =
     (let (lhost, lport) = splitHostPortLenient listen
      in case localTargetKind uni host of
           Some kind \<Rightarrow>
             if loopbackOnly then
               if port = lport \<and> port \<noteq> [] then Some (OwnListenPort kind) else None
             else Some (LocalTarget kind listen (loopbackListenHint uni listen))
         | None \<Rightarrow>
             if lhost \<noteq> [] \<and> localTargetKind uni lhost = None \<and> sameHost ufold host lhost
             then Some (OwnListenAddress listen) else None)"

datatype dial_refusal = TargetResolvesToLoopback | TargetResolvesToGatewayHost

definition connectDialRefusal :: "listenScope \<Rightarrow> net_addr \<Rightarrow> net_addr \<Rightarrow> dial_refusal option" where
  "connectDialRefusal scope local remote =
     (if scope = scopeLoopbackOnly then None
      else case addrIP remote of
        None \<Rightarrow> None
      | Some rip \<Rightarrow>
          if IsLoopback rip \<or> IsUnspecified rip then Some TargetResolvesToLoopback
          else (case addrIP local of
                  None \<Rightarrow> None
                | Some lip \<Rightarrow> if ip_Equal lip rip then Some TargetResolvesToGatewayHost else None))"


section \<open>Spellings of an address\<close>

text \<open>A number as a part of an inet\_aton spelling: octal, decimal or hexadecimal.\<close>

definition spell :: "nat \<Rightarrow> nat \<Rightarrow> string" where
  "spell b n = (if b = 16 then ''0x'' else if b = 8 then ''0'' else []) @ digits b n"

text \<open>The parts of the address \<open>a\<close> when it is written with \<open>n\<close> of them.\<close>

definition aton_parts :: "nat \<Rightarrow> nat \<Rightarrow> nat list" where
  "aton_parts n a =
     take (n - 1) [a div 16777216 mod 256, a div 65536 mod 256, a div 256 mod 256]
       @ [a mod 2 ^ (8 * (5 - n))]"

definition inet_spelling :: "nat list \<Rightarrow> nat \<Rightarrow> string" where
  "inet_spelling bases a = join_char (CHR ''.'') (map2 spell bases (aton_parts (length bases) a))"

lemma spell_nonempty [simp]: "spell b n \<noteq> []"
  by (simp add: spell_def)

lemma set_spell:
  assumes "b \<in> {8, 10, 16}" "c \<in> set (spell b n)"
  shows "c \<noteq> CHR ''.'' \<and> c \<noteq> CHR '':'' \<and> c \<noteq> CHR ''%'' \<and> c \<noteq> CHR ''['' \<and> c \<noteq> CHR '']''"
proof -
  have "c \<in> {CHR ''0'', CHR ''x''} \<or> c \<in> set (digits b n)"
    using assms(2) by (auto simp: spell_def split: if_splits)
  moreover have "c \<in> set (digits b n) \<Longrightarrow> \<exists>d < 16. c = digit_char d"
    using assms(1) by (intro set_digits) auto
  ultimately consider "c = CHR ''0''" | "c = CHR ''x''" | d where "d < 16" "c = digit_char d" by auto
  then show ?thesis using digit_char_plain by cases simp_all
qed

lemma parse_spell:
  assumes b: "b \<in> {8, 10, 16}" and n: "n \<le> 4294967295"
  shows "parseIPv4Part (spell b n) = Some (int n)"
proof -
  have pd: "ParseUint (digits b n) (int b) = Some (int n)"
    using assms by (auto simp: ParseUint_def intro!: parse_digits [simplified])
  have x: "hd s \<noteq> CHR ''x'' \<and> hd s \<noteq> CHR ''X''" if "s = digits b n \<or> s = tl (digits b n) \<and> s \<noteq> []" for s
  proof -
    have "hd s \<in> set (digits b n)"
      using that by (metis digits_nonempty hd_in_set list.set_sel(2))
    then obtain d where "d < 16" "hd s = digit_char d" using set_digits [of b "hd s" n] b by auto
    then show ?thesis using digit_char_plain by auto
  qed
  have px: "\<not> HasPrefix (digits b n) ''0x'' \<and> \<not> HasPrefix (digits b n) ''0X''"
    using x [of "tl (digits b n)"] by (cases "digits b n"; cases "tl (digits b n)") (auto simp: HasPrefix_def)
  from b consider "b = 16" | "b = 8" | "b = 10" by auto
  then show ?thesis
  proof cases
    case 1
    then show ?thesis using pd n by (simp add: spell_def parseIPv4Part_def HasPrefix_def)
  next
    case 2
    then have "\<not> HasPrefix (CHR ''0'' # digits b n) ''0x'' \<and> \<not> HasPrefix (CHR ''0'' # digits b n) ''0X''"
      using x [of "digits b n"] by (cases "digits b n") (auto simp: HasPrefix_def)
    then show ?thesis using pd n 2 by (simp add: spell_def parseIPv4Part_def)
  next
    case 3
    have "\<not> (1 < length (digits b n) \<and> hd (digits b n) = CHR ''0'')"
      using hd_digits [of b n] 3 by (cases "n = 0") (auto simp: digits.simps [of 10 0])
    then show ?thesis using pd n px 3 by (auto simp: spell_def parseIPv4Part_def)
  qed
qed

lemma split_join:
  "ps \<noteq> [] \<Longrightarrow> \<forall>p \<in> set ps. sep \<notin> set p \<Longrightarrow> split_char sep (join_char sep ps) = ps"
proof (induction sep ps rule: join_char.induct)
  case (2 sep p)
  then show ?case by (induction p) auto
next
  case (3 sep p q ps)
  have "split_char sep (p @ sep # s) = p # split_char sep s" if "sep \<notin> set p" for s
    using that by (induction p) auto
  with 3 show ?case by simp
qed simp

lemma parse_parts_map:
  "\<forall>p \<in> set ps. parseIPv4Part p = Some (f p) \<Longrightarrow> parse_parts ps = Some (map f ps)"
  by (induction ps) auto

lemma push_or_add: "0 \<le> y \<Longrightarrow> y < 2 ^ k \<Longrightarrow> push_bit k x OR y = x * 2 ^ k + (y::int)"
proof (induction k arbitrary: y)
  case (Suc k)
  have "push_bit (Suc k) x OR y = of_bool (odd y) + 2 * (push_bit k x OR y div 2)"
    by (subst or_int_rec) (simp add: push_bit_eq_mult)
  also have "\<dots> = of_bool (odd y) + 2 * (x * 2 ^ k + y div 2)" using Suc by simp
  also have "\<dots> = x * 2 ^ Suc k + y" by (simp add: algebra_simps) presburger
  finally show ?case .
next
  case 0
  then have "y = 0" by simp
  then show ?case by simp
qed

text \<open>The address that a list of part values denotes.\<close>

definition aton_ok :: "int list \<Rightarrow> bool" where
  "aton_ok vals \<longleftrightarrow> vals \<noteq> [] \<and> length vals \<le> 4 \<and> (\<forall>v \<in> set vals. 0 \<le> v)
     \<and> (\<forall>v \<in> set (butlast vals). v \<le> 255) \<and> last vals < 2 ^ (8 * (5 - length vals))"

fun aton_value :: "int list \<Rightarrow> int" where
  "aton_value [a] = a"
| "aton_value [a, b] = a * 16777216 + b"
| "aton_value [a, b, c] = a * 16777216 + b * 65536 + c"
| "aton_value [a, b, c, d] = a * 16777216 + b * 65536 + c * 256 + d"
| "aton_value _ = 0"

lemma or_parts_value: "aton_ok vals \<Longrightarrow> or_parts vals 0 = aton_value vals"
  by (cases vals rule: aton_value.cases) (auto simp: aton_ok_def push_or_add)

lemma parseIPv4Numeric_parts:
  assumes "split_char (CHR ''.'') host = ps" "parse_parts ps = Some vals" "length ps = length vals"
    "aton_ok vals"
  shows "parseIPv4Numeric host =
    Some (IPv4 (addr_byte 24 (aton_value vals)) (addr_byte 16 (aton_value vals))
               (addr_byte 8 (aton_value vals)) (addr_byte 0 (aton_value vals)))"
proof -
  have "\<not> list_ex (\<lambda>v. 255 < v) (butlast vals)" "ps \<noteq> []" "\<not> 4 < length ps"
    "\<not> 2 ^ (8 * (5 - length vals)) \<le> last vals"
    using assms by (auto simp: aton_ok_def list_ex_iff)
  with assms(1,2,4) show ?thesis by (simp add: parseIPv4Numeric_def Let_def or_parts_value)
qed

lemma aton_parts_ok:
  assumes n: "n \<in> {1, 2, 3, 4}" and a: "a < 4294967296"
  shows "aton_ok (map int (aton_parts n a)) \<and> aton_value (map int (aton_parts n a)) = int a"
proof -
  have h: "a div 16777216 mod 256 = a div 16777216" using a by (simp add: less_mult_imp_div_less)
  have h2: "a div 16777216 \<le> 255" using h mod_less_divisor [of 256 "a div 16777216"] by linarith
  have e1: "a = a div 16777216 * 16777216 + a mod 16777216" by simp
  have e2: "a mod 16777216 = a div 65536 mod 256 * 65536 + a mod 65536"
    using mod_mult2_eq [of a 65536 256] by simp
  have e3: "a mod 65536 = a div 256 mod 256 * 256 + a mod 256"
    using mod_mult2_eq [of a 256 256] by simp
  have i1: "int a = int (a div 16777216) * 16777216 + int (a mod 16777216)"
    by (subst e1) (simp only: of_nat_add of_nat_mult of_nat_numeral)
  have i2: "int (a mod 16777216) = int (a div 65536 mod 256) * 65536 + int (a mod 65536)"
    by (subst e2) (simp only: of_nat_add of_nat_mult of_nat_numeral)
  have i3: "int (a mod 65536) = int (a div 256 mod 256) * 256 + int (a mod 256)"
    by (subst e3) (simp only: of_nat_add of_nat_mult of_nat_numeral)
  have c: "int (x mod 256) < 256" "int (x mod 65536) < 65536" "int (x mod 16777216) < 16777216" for x
    by (simp_all only: of_nat_less_numeral_iff mod_less_divisor zero_less_numeral)
  have b: "int (x mod 256) \<le> 255" for x using c(1) [of x] by linarith
  from n consider "n = 1" | "n = 2" | "n = 3" | "n = 4" by auto
  then show ?thesis
  proof cases
    case 1
    then show ?thesis using a by (simp add: aton_parts_def aton_ok_def)
  next
    case 2
    then have "aton_parts n a = [a div 16777216 mod 256, a mod 16777216]" by (simp add: aton_parts_def)
    then show ?thesis using b c i1 h h2 by (simp add: aton_ok_def del: of_nat_mod)
  next
    case 3
    then have "aton_parts n a = [a div 16777216 mod 256, a div 65536 mod 256, a mod 65536]"
      by (simp add: aton_parts_def)
    then show ?thesis using b c i1 i2 h h2 by (simp add: aton_ok_def del: of_nat_mod)
  next
    case 4
    then have "aton_parts n a = [a div 16777216 mod 256, a div 65536 mod 256, a div 256 mod 256, a mod 256]"
      by (simp add: aton_parts_def)
    then show ?thesis using b c i1 i2 i3 h h2 by (simp add: aton_ok_def del: of_nat_mod)
  qed
qed

lemma parse_inet_spelling:
  assumes "length bases \<in> {1, 2, 3, 4}" "set bases \<subseteq> {8, 10, 16}" "a < 4294967296"
  shows "parseIPv4Numeric (inet_spelling bases a) =
    Some (IPv4 (addr_byte 24 (int a)) (addr_byte 16 (int a)) (addr_byte 8 (int a)) (addr_byte 0 (int a)))"
proof -
  let ?vs = "aton_parts (length bases) a"
  let ?ps = "map2 spell bases ?vs"
  have ok: "aton_ok (map int ?vs)" "aton_value (map int ?vs) = int a"
    using aton_parts_ok assms by auto
  have len: "length ?vs = length bases" using assms(1) by (auto simp: aton_parts_def)
  have small: "v \<le> 4294967295" if "v \<in> set ?vs" for v
  proof -
    have m: "x mod 256 \<le> (4294967295::nat)" for x
      by (rule order_trans [of _ 255]) (simp_all add: less_Suc_eq_le [symmetric])
    have "v = a mod 2 ^ (8 * (5 - length bases)) \<or> v \<in> {a div 16777216 mod 256, a div 65536 mod 256, a div 256 mod 256}"
      using that set_take_subset by (fastforce simp: aton_parts_def)
    moreover have "a mod 2 ^ (8 * (5 - length bases)) \<le> 4294967295"
      using assms(3) mod_less_eq_dividend [of a "2 ^ (8 * (5 - length bases))"] by linarith
    ultimately show ?thesis using m by auto
  qed
  have nth: "parseIPv4Part (spell (bases ! i) (?vs ! i)) = Some (int (?vs ! i))" if "i < length bases" for i
  proof (rule parse_spell)
    show "bases ! i \<in> {8, 10, 16}" using assms(2) that nth_mem by blast
    show "?vs ! i \<le> 4294967295" using small len that nth_mem by metis
  qed
  have "parse_parts ?ps = Some (map (the \<circ> parseIPv4Part) ?ps)"
    using len nth by (intro parse_parts_map) (auto simp: set_zip)
  also have "map (the \<circ> parseIPv4Part) ?ps = map int ?vs"
    using len nth by (intro nth_equalityI) auto
  finally have pp: "parse_parts ?ps = Some (map int ?vs)" .
  have "CHR ''.'' \<notin> set p" if "p \<in> set ?ps" for p
  proof -
    obtain i where "i < length bases" "p = spell (bases ! i) (?vs ! i)"
      using \<open>p \<in> set ?ps\<close> len by (auto simp: set_zip)
    moreover have "bases ! i \<in> {8, 10, 16}" if "i < length bases" for i using assms(2) that nth_mem by blast
    ultimately show ?thesis using set_spell by blast
  qed
  moreover have "?ps \<noteq> []" using assms(1) len by (cases bases; cases ?vs) auto
  ultimately have "split_char (CHR ''.'') (inet_spelling bases a) = ?ps"
    by (simp add: inet_spelling_def split_join)
  from parseIPv4Numeric_parts [OF this pp] ok len show ?thesis by simp
qed

section \<open>Agreement of the two IPv4 grammars\<close>

text \<open>The decimal value of a digit string, and the octets of a dotted quad.\<close>

definition dval :: "string \<Rightarrow> int" where
  "dval s = foldl (\<lambda>n c. n * 10 + (of_char c - 48)) 0 s"

definition octet :: "string \<Rightarrow> bool" where
  "octet q \<longleftrightarrow> q \<noteq> [] \<and> list_all is_digit q \<and> (1 < length q \<longrightarrow> hd q \<noteq> CHR ''0'') \<and> 0 \<le> dval q \<and> dval q \<le> 255"

lemma dval_snoc: "dval (s @ [c]) = dval s * 10 + (of_char c - 48)"
  by (simp add: dval_def)

lemma is_digit_value: "is_digit c \<Longrightarrow> digit_value c = Some (of_char c - 48)"
  by (auto simp: is_digit_def digit_value_def Let_def)

lemma is_digit_range: "is_digit c \<Longrightarrow> 0 \<le> (of_char c :: int) - 48 \<and> (of_char c :: int) - 48 \<le> 9"
  by (auto simp: is_digit_def Let_def)

lemma dval_nonneg: "list_all is_digit q \<Longrightarrow> 0 \<le> dval q"
proof (induction q rule: rev_induct)
  case (snoc c q)
  then show ?case using is_digit_range [of c] by (simp add: dval_snoc)
qed (simp add: dval_def)

lemma parse_decimal:
  "list_all is_digit q \<Longrightarrow> dval q \<le> 18446744073709551615 \<Longrightarrow> parse_uint_loop 10 0 q = Some (dval q)"
proof (induction q rule: rev_induct)
  case (snoc c q)
  have "0 \<le> dval q" using snoc dval_nonneg by simp
  moreover have "is_digit c" using snoc by simp
  moreover from this have "0 \<le> (of_char c :: int) - 48" using is_digit_range by blast
  moreover have "dval (q @ [c]) = dval q * 10 + (of_char c - 48)" by (rule dval_snoc)
  ultimately show ?case using snoc is_digit_range [of c]
    by (simp add: parse_uint_loop_snoc is_digit_value)
qed (simp add: dval_def)

lemma parse_octet:
  assumes "octet q"
  shows "parseIPv4Part q = Some (dval q)"
proof -
  have "\<not> is_digit (CHR ''x'')" "\<not> is_digit (CHR ''X'')" by (simp_all add: is_digit_def)
  then have "\<not> HasPrefix q ''0x''" "\<not> HasPrefix q ''0X''"
    using assms by (auto simp: octet_def HasPrefix_iff)
  moreover have "\<not> (1 < length q \<and> hd q = CHR ''0'')" using assms by (auto simp: octet_def)
  moreover have "ParseUint q 10 = Some (dval q)"
    using assms parse_decimal [of q] by (simp add: octet_def ParseUint_def)
  ultimately show ?thesis using assms by (auto simp: octet_def parseIPv4Part_def)
qed

lemma fields_parts:
  assumes "parseIPv4Fields s prev val digLen fields = Some r"
    and "list_all is_digit pre" "digLen = length pre" "val = dval pre" "1 < length pre \<longrightarrow> hd pre \<noteq> CHR ''0''"
    and "val \<le> 255" "prev = None \<or> prev = Some (CHR ''.'') \<longleftrightarrow> pre = []" "pre = [] \<longrightarrow> s \<noteq> []" "length fields \<le> 3"
  shows "\<exists>p ps. split_char (CHR ''.'') s = p # ps \<and> (\<forall>q \<in> set ((pre @ p) # ps). octet q)
    \<and> r = fields @ map dval ((pre @ p) # ps) \<and> length r = 4"
  using assms
proof (induction s prev val digLen fields arbitrary: pre rule: parseIPv4Fields.induct)
  case (1 prev val digLen fields)
  then show ?case by (auto simp: octet_def dval_nonneg split: if_splits)
next
  case (2 c s prev val digLen fields)
  show ?case
  proof (cases "is_digit c")
    case True
    let ?v = "val * 10 + (of_char c - 48)"
    have ok: "\<not> (digLen = 1 \<and> val = 0)" "?v \<le> 255" and
      rec: "parseIPv4Fields s (Some c) ?v (Suc digLen) fields = Some r"
      using 2(3) True by (auto simp: Let_def split: if_splits)
    have c: "c \<noteq> CHR ''.''" using True by (auto simp: is_digit_def)
    have hd: "1 < length (pre @ [c]) \<longrightarrow> hd (pre @ [c]) \<noteq> CHR ''0''"
    proof (cases pre)
      case (Cons x xs)
      then have "xs = [] \<Longrightarrow> x \<noteq> CHR ''0''" using ok(1) 2(5,6) by (auto simp: dval_def)
      then show ?thesis using Cons 2(7) by auto
    qed simp
    have "\<exists>p ps. split_char (CHR ''.'') s = p # ps \<and> (\<forall>q \<in> set (((pre @ [c]) @ p) # ps). octet q)
        \<and> r = fields @ map dval (((pre @ [c]) @ p) # ps) \<and> length r = 4"
      using True ok c hd 2(4-8,11)
      by (intro 2(1) [OF True _ refl _ rec]) (auto simp: dval_snoc)
    then show ?thesis using c by auto
  next
    case False
    then have c: "c = CHR ''.''" and ne: "prev \<noteq> None" "s \<noteq> []" "prev \<noteq> Some (CHR ''.'')" and l: "length fields \<noteq> 3"
      and rec: "parseIPv4Fields s (Some c) 0 0 (fields @ [val]) = Some r"
      using 2(3) by (auto split: if_splits)
    have pre: "octet pre" using 2(4-9) ne dval_nonneg [of pre] by (auto simp: octet_def)
    have "\<exists>p ps. split_char (CHR ''.'') s = p # ps \<and> (\<forall>q \<in> set (([] @ p) # ps). octet q)
        \<and> r = (fields @ [val]) @ map dval (([] @ p) # ps) \<and> length r = 4"
      using False c ne l 2(11) by (intro 2(2) [OF _ _ _ _ rec]) (auto simp: dval_def)
    then show ?thesis using c pre 2(6) by auto
  qed
qed

lemma addr_bytes:
  assumes "0 \<le> a" "a \<le> 255" "0 \<le> b" "b \<le> 255" "0 \<le> c" "c \<le> 255" "0 \<le> d" "d \<le> 255"
  defines "v \<equiv> a * 16777216 + b * 65536 + c * 256 + d"
  shows "addr_byte 24 v = a" "addr_byte 16 v = b" "addr_byte 8 v = c" "addr_byte 0 v = d"
proof -
  have 1: "v div 16777216 = a" using assms by (intro int_div_pos_eq [of _ _ _ "b * 65536 + c * 256 + d"]) auto
  have 2: "v div 65536 = a * 256 + b" using assms by (intro int_div_pos_eq [of _ _ _ "c * 256 + d"]) auto
  have 3: "v div 256 = a * 65536 + b * 256 + c" using assms by (intro int_div_pos_eq [of _ _ _ d]) auto
  have m: "(x * 256 + y) mod 256 = y" if "0 \<le> y" "y \<le> 255" for x y :: int using that by simp
  show "addr_byte 24 v = a" using 1 assms by (simp add: addr_byte_def)
  show "addr_byte 16 v = b" using 2 m assms by (simp add: addr_byte_def)
  show "addr_byte 8 v = c" using 3 m [of c "a * 256 + b"] assms by (simp add: addr_byte_def algebra_simps)
  show "addr_byte 0 v = d"
    using m [of d "a * 65536 + b * 256 + c"] assms by (simp add: addr_byte_def algebra_simps)
qed

lemma parseIPv4_agrees:
  assumes "parseIPv4 h = Some q" "h \<noteq> []"
  shows "parseIPv4Numeric h = Some (v4InV6Prefix @ q)"
proof -
  obtain p ps where sp: "split_char (CHR ''.'') h = p # ps" and oc: "\<forall>x \<in> set (p # ps). octet x"
    and q: "q = map dval (p # ps)" "length q = 4"
    using fields_parts [of h None 0 0 "[]" q "[]"] assms by (auto simp: parseIPv4_def dval_def)
  have rng: "\<forall>v \<in> set q. 0 \<le> v \<and> v \<le> 255" using oc q by (auto simp: octet_def)
  obtain a b c d where abcd: "q = [a, b, c, d]" using q(2) by (auto simp: length_Suc_conv eval_nat_numeral)
  have ok: "aton_ok q" using rng abcd by (auto simp: aton_ok_def)
  have "parse_parts (p # ps) = Some q" using oc q parse_octet by (auto intro: parse_parts_map)
  from parseIPv4Numeric_parts [OF sp this] ok q have
    "parseIPv4Numeric h = Some (IPv4 (addr_byte 24 (aton_value q)) (addr_byte 16 (aton_value q))
        (addr_byte 8 (aton_value q)) (addr_byte 0 (aton_value q)))"
    by simp
  moreover have "addr_byte 24 (aton_value q) = a \<and> addr_byte 16 (aton_value q) = b
      \<and> addr_byte 8 (aton_value q) = c \<and> addr_byte 0 (aton_value q) = d"
    using rng abcd addr_bytes by simp
  ultimately show ?thesis using abcd by (simp add: IPv4_def v4InV6Prefix_def)
qed

section \<open>Hosts without brackets\<close>

abbreviation plain :: "string \<Rightarrow> bool" where
  "plain h \<equiv> CHR ''['' \<notin> set h \<and> CHR '']'' \<notin> set h \<and> CHR ''%'' \<notin> set h \<and> CHR '':'' \<notin> set h"

lemma bareHost_plain [simp]:
  assumes "plain h"
  shows "bareHost h = h"
proof -
  have "TrimPrefix h ''['' = h" using assms by (auto simp: TrimPrefix_def HasPrefix_iff)
  moreover have "TrimSuffix h '']'' = h" using assms by (auto simp: TrimSuffix_def HasSuffix_iff)
  moreover have "index_byte (CHR ''%'') h = None" using assms by (simp add: index_byte_None)
  ultimately show ?thesis by (simp add: bareHost_def)
qed

lemma addr_family_plain: "plain h \<Longrightarrow> addr_family h \<in> {None, Some (CHR ''.'')}"
  by (induction h) auto

lemma addr_family_Nil: "addr_family h = Some c \<Longrightarrow> h \<noteq> []"
  by auto

text \<open>Where both readers of a host accept, they read the same address.\<close>

lemma ParseIP_plain:
  assumes "ParseIP h = Some x" "plain h"
  shows "parseIPv4Numeric h = Some x"
proof -
  have "addr_family h = Some (CHR ''.'')" using assms addr_family_plain [of h] by (auto simp: ParseIP_def)
  moreover from this have "h \<noteq> []" by (rule addr_family_Nil)
  ultimately show ?thesis using assms(1) parseIPv4_agrees by (auto simp: ParseIP_def)
qed

lemma hostIP_plain: "plain h \<Longrightarrow> parseIPv4Numeric h = Some x \<Longrightarrow> hostIP h = Some x"
  using ParseIP_plain by (fastforce simp: hostIP_def split: option.splits)

lemma set_join_char: "set (join_char sep ps) \<subseteq> insert sep (\<Union> (set ` set ps))"
  by (induction sep ps rule: join_char.induct) auto

lemma plain_inet_spelling:
  assumes "set bases \<subseteq> {8, 10, 16}"
  shows "plain (inet_spelling bases a)"
proof -
  have "c = CHR ''.'' \<or> (\<exists>b n. b \<in> {8, 10, 16} \<and> c \<in> set (spell b n))"
    if "c \<in> set (inet_spelling bases a)" for c
  proof -
    have "c = CHR ''.'' \<or> (\<exists>p \<in> set (map2 spell bases (aton_parts (length bases) a)). c \<in> set p)"
      using that set_join_char [of "CHR ''.''"] by (fastforce simp: inet_spelling_def)
    then show ?thesis using assms by (auto dest: set_zip_leftD)
  qed
  then show ?thesis using set_spell by fastforce
qed

lemma localTargetKind_plain:
  assumes "plain h" "parseIPv4Numeric h = Some x" "h \<noteq> []" "IsLoopback x \<or> IsUnspecified x"
  shows "localTargetKind uni h \<noteq> None"
proof (cases "ParseIP h")
  case (Some y)
  then have "y = x" using ParseIP_plain assms by fastforce
  with Some assms show ?thesis by (auto simp: localTargetKind_def)
qed (use assms in \<open>auto simp: localTargetKind_def\<close>)

lemma localTargetKind_remote:
  assumes "plain h" "parseIPv4Numeric h = Some x" "h \<noteq> []" "\<not> IsLoopback x" "\<not> IsUnspecified x"
  shows "localTargetKind uni h = None"
proof (cases "ParseIP h")
  case (Some y)
  then have "y = x" using ParseIP_plain assms by fastforce
  with Some assms show ?thesis by (simp add: localTargetKind_def)
qed (use assms in \<open>simp add: localTargetKind_def\<close>)

lemma IsLoopback_IPv4 [simp]: "IsLoopback (IPv4 a b c d) \<longleftrightarrow> a = 127"
  by (simp add: IsLoopback_def To4_def IPv4_def v4InV6Prefix_def eval_nat_numeral)

lemma IsUnspecified_IPv4 [simp]: "IsUnspecified (IPv4 a b c d) \<longleftrightarrow> a = 0 \<and> b = 0 \<and> c = 0 \<and> d = 0"
  by (simp add: IsUnspecified_def ip_Equal_def IPv4_def eval_nat_numeral)

lemma parseIPv4Numeric_Nil [simp]: "parseIPv4Numeric [] = None"
  by (simp add: parseIPv4Numeric_def parseIPv4Part_def Let_def)

lemma SplitHostPort_plain:
  assumes "plain h" "plain p"
  shows "SplitHostPort (h @ CHR '':'' # p) = Some (h, p)"
proof -
  have ib: "index_byte b (xs @ b # ys) = Some (length xs)" if "b \<notin> set xs" for b xs ys
    using that by (induction xs) auto
  have "last_index_byte (CHR '':'') (h @ CHR '':'' # p) = Some (length h)"
    using assms ib [of "CHR '':''" "rev p" "rev h"] by (simp add: last_index_byte_def)
  moreover have "hd (h @ CHR '':'' # p) \<noteq> CHR ''[''" using assms by (cases h) auto
  moreover have "index_byte (CHR ''['') (h @ CHR '':'' # p) = None"
    "index_byte (CHR '']'') (h @ CHR '':'' # p) = None" "index_byte (CHR '':'') h = None"
    using assms by (simp_all add: index_byte_None)
  ultimately show ?thesis by (simp add: SplitHostPort_def)
qed

section \<open>Properties\<close>



text \<open>The gateway's own routable address is refused as a CONNECT target on any port and in
  any spelling: with \<open>listen\<close> bound to an address that is neither loopback nor
  unspecified, an allowlist entry that spells the same address differently is recognised, and
  no other address spelled that way is.\<close>

theorem own_address_refused:
  assumes "length bs \<in> {1, 2, 3, 4}" "set bs \<subseteq> {8, 10, 16}" "length cs \<in> {1, 2, 3, 4}" "set cs \<subseteq> {8, 10, 16}"
    and a: "a < 4294967296" "a div 16777216 \<noteq> 127" "a \<noteq> 0" and b: "b < 4294967296" "b div 16777216 \<noteq> 127" "b \<noteq> 0"
    and "plain lport"
  shows "connectSelfReference uni ufold (inet_spelling bs a) port (inet_spelling cs b @ CHR '':'' # lport) only
    = (if a = b then Some (OwnListenAddress (inet_spelling cs b @ CHR '':'' # lport)) else None)"
proof -
  let ?ip = "\<lambda>a. IPv4 (addr_byte 24 (int a)) (addr_byte 16 (int a)) (addr_byte 8 (int a)) (addr_byte 0 (int a))"
  have split: "int x = addr_byte 24 (int x) * 16777216 + addr_byte 16 (int x) * 65536 + addr_byte 8 (int x) * 256
      + addr_byte 0 (int x)" if "x < 4294967296" for x
  proof -
    have x: "aton_value (map int (aton_parts 4 x)) = int x" using aton_parts_ok that by simp
    show ?thesis by (subst x [symmetric]) (simp add: aton_parts_def addr_byte_def zdiv_int zmod_int)
  qed
  have remote: "\<not> IsLoopback (?ip x) \<and> \<not> IsUnspecified (?ip x)"
    if "x < 4294967296" "x div 16777216 \<noteq> 127" "x \<noteq> 0" for x
  proof -
    have "x div 16777216 < 256" using that(1) by (simp add: less_mult_imp_div_less)
    then have "addr_byte 24 (int x) = int (x div 16777216)"
      by (simp add: addr_byte_def zdiv_int [symmetric] flip: zmod_int)
    then have "\<not> IsLoopback (?ip x)" using that(2) by simp
    moreover have "\<not> IsUnspecified (?ip x)" using split [OF that(1)] that(3) by auto
    ultimately show ?thesis by blast
  qed
  note pa = parse_inet_spelling [OF assms(1,2) a(1)] and pb = parse_inet_spelling [OF assms(3,4) b(1)]
  note na = plain_inet_spelling [OF assms(2), of a] and nb = plain_inet_spelling [OF assms(4), of b]
  have ne: "inet_spelling bs a \<noteq> []" "inet_spelling cs b \<noteq> []" using pa pb by auto
  have "ip_Equal (?ip a) (?ip b) \<longleftrightarrow> a = b"
    using split [OF a(1)] split [OF b(1)] by (auto simp: ip_Equal_def IPv4_def)
  then have "sameHost ufold (inet_spelling bs a) (inet_spelling cs b) \<longleftrightarrow> a = b"
    using hostIP_plain [OF na pa] hostIP_plain [OF nb pb] by (simp add: sameHost_def)
  moreover have "localTargetKind uni (inet_spelling bs a) = None"
    using localTargetKind_remote [OF na pa ne(1)] remote [OF a] by blast
  moreover have "localTargetKind uni (inet_spelling cs b) = None"
    using localTargetKind_remote [OF nb pb ne(2)] remote [OF b] by blast
  ultimately show ?thesis using ne(2) SplitHostPort_plain [OF nb \<open>plain lport\<close>]
    by (simp add: connectSelfReference_def splitHostPortLenient_def)
qed

theorem own_address_refused_witness:
  "connectSelfReference id (\<lambda>_ _. False) (inet_spelling [16] 167772165) ''443''
     (inet_spelling [10, 10, 10, 10] 167772165 @ CHR '':'' # ''14443'') False =
   Some (OwnListenAddress (inet_spelling [10, 10, 10, 10] 167772165 @ CHR '':'' # ''14443''))"
  using own_address_refused [of "[16]" "[10, 10, 10, 10]" 167772165 167772165 "''14443''" id "\<lambda>_ _. False" "''443''" False]
  by simp
end
