(* ===== verification/Channel_Config.thy ===== *)
theory Channel_Config
  imports Secret Connect_Target
begin

text \<open>
  Validation of the gateway configuration, \<open>internal/channel/config.go\<close>.  \<open>Validate\<close> checks
  every block in the order of the code and returns the configuration with its defaults
  filled in, or the first error; an error is a value that carries what its message is
  built from.  \<open>uni\<close> and \<open>ufold\<close> are the Unicode tables of \<open>strings.ToLower\<close> and
  \<open>strings.EqualFold\<close>.
\<close>

section \<open>Library routines\<close>

text \<open>\<open>filepath.Clean\<close>: the elements of the path on a stack, \<open>..\<close> popping one.\<close>

fun clean_elems :: "bool \<Rightarrow> string list \<Rightarrow> string list \<Rightarrow> string list" where
  "clean_elems rooted stack [] = rev stack"
| "clean_elems rooted stack (e # es) =
     (if e = [] \<or> e = ''.'' then clean_elems rooted stack es
      else if e = ''..'' then
        (case stack of
           [] \<Rightarrow> clean_elems rooted (if rooted then [] else [e]) es
         | t # ts \<Rightarrow> if t = ''..'' then clean_elems rooted (e # stack) es else clean_elems rooted ts es)
      else clean_elems rooted (e # stack) es)"

definition filepath_Clean :: "string \<Rightarrow> string" where
  "filepath_Clean path =
     (let rooted = HasPrefix path ''/'';
          out = (if rooted then ''/'' else []) @ join_char (CHR ''/'') (clean_elems rooted [] (split_char (CHR ''/'') path))
      in if out = [] then ''.'' else out)"

text \<open>\<open>hex.DecodeString\<close> and \<open>base64.StdEncoding.DecodeString\<close>.\<close>

fun hex_decode :: "string \<Rightarrow> string option" where
  "hex_decode [] = Some []"
| "hex_decode [c] = None"
| "hex_decode (c # d # s) =
     (case (hex_value c, hex_value d, hex_decode s) of
        (Some a, Some b, Some r) \<Rightarrow> Some (char_of (a * 16 + b) # r)
      | _ \<Rightarrow> None)"

definition b64_value :: "char \<Rightarrow> int option" where
  "b64_value c =
     (let n = of_char c :: int
      in if 65 \<le> n \<and> n \<le> 90 then Some (n - 65)
         else if 97 \<le> n \<and> n \<le> 122 then Some (n - 71)
         else if 48 \<le> n \<and> n \<le> 57 then Some (n + 4)
         else if c = CHR ''+'' then Some 62
         else if c = CHR ''/'' then Some 63
         else None)"

fun b64_quanta :: "string \<Rightarrow> string option" where
  "b64_quanta [] = Some []"
| "b64_quanta (c0 # c1 # c2 # c3 # s) =
     (case (b64_value c0, b64_value c1) of
        (Some v0, Some v1) \<Rightarrow>
          if c2 = CHR ''='' then
            if c3 = CHR ''='' \<and> s = [] then Some [char_of (v0 * 4 + v1 div 16)] else None
          else (case b64_value c2 of
            None \<Rightarrow> None
          | Some v2 \<Rightarrow>
              if c3 = CHR ''='' then
                if s = [] then Some [char_of (v0 * 4 + v1 div 16), char_of (v1 mod 16 * 16 + v2 div 4)] else None
              else (case (b64_value c3, b64_quanta s) of
                (Some v3, Some r) \<Rightarrow>
                  Some (char_of (v0 * 4 + v1 div 16) # char_of (v1 mod 16 * 16 + v2 div 4)
                          # char_of (v2 mod 4 * 64 + v3) # r)
              | _ \<Rightarrow> None))
      | _ \<Rightarrow> None)"
| "b64_quanta _ = None"

definition b64_decode :: "string \<Rightarrow> string option" where
  "b64_decode s = b64_quanta (filter (\<lambda>c. c \<noteq> CHR 0x0A \<and> c \<noteq> CHR 0x0D) s)"

section \<open>Errors\<close>

datatype route_error =
    SingularAndPlural
  | EmptyList string
  | BlankEntry string
  | DuplicateSource string string
  | BadKeyRef SecretError
  | BadKeyRefAt nat SecretError
  | KeyHeaderNotHeaderMode
  | KeyPrefixNotHeaderMode
  | KeysRequired AuthMode
  | PassthroughWithKeys
  | UnknownAuth AuthMode
  | KeyHeaderRequired
  | KeyHeaderInvalid string
  | KeyHeaderHopByHop string
  | KeyHeaderHost string
  | RotationOnPassthrough
  | RotationWithoutPool
  | RotationPolicyUnknown string
  | LeastTokensWithHeader
  | SoftRatioRange rat
  | WindowNegative
  | WindowRequired
  | EstimateRequired
  | MaxRetryAfterNegative

datatype config_error =
    ListenRequired
  | TimeoutNegative duration
  | RouteNameRequired nat
  | DuplicateRouteName nat string
  | PrefixRequired string
  | PrefixShape string string
  | DuplicatePrefix string string
  | UpstreamRequired string
  | UpstreamScheme string string
  | RouteInvalid string route_error
  | RouteTimeoutNegative string duration
  | TLSPair
  | AllowedHostsRequired
  | ConnectTokenRequired
  | ConnectTokenRef SecretError
  | AllowedHostShape string
  | AllowedHostSelf string self_reference
  | MaxConcurrentNegative int
  | IdleTimeoutNegative duration
  | AESListenRequired
  | AESListenClash string
  | AESTLSPair
  | AESTLSRequired
  | AESKeyRequired
  | GatewayTokenRef SecretError
  | TokenAndUnauthenticated
  | ExemptWithoutToken
  | OpenNonLoopback string "listen_hint option"

section \<open>Routes\<close>

fun rejectDuplicateSources :: "string \<Rightarrow> bool \<Rightarrow> string list \<Rightarrow> string list \<Rightarrow> route_error option" where
  "rejectDuplicateSources field clean seen [] = None"
| "rejectDuplicateSources field clean seen (item # items) =
     (if TrimSpace item = [] then Some (BlankEntry field)
      else let k = (if clean then filepath_Clean item else item)
           in if k \<in> set seen then Some (DuplicateSource field item)
              else rejectDuplicateSources field clean (k # seen) items)"

definition check_list :: "string \<Rightarrow> bool \<Rightarrow> string list option \<Rightarrow> route_error option" where
  "check_list field clean items =
     (case items of
        None \<Rightarrow> None
      | Some xs \<Rightarrow> if xs = [] then Some (EmptyList field) else rejectDuplicateSources field clean [] xs)"

fun first_bad_ref :: "nat \<Rightarrow> string list \<Rightarrow> route_error option" where
  "first_bad_ref i [] = None"
| "first_bad_ref i (ref # refs) =
     (case validateSecretRef ref of
        Some e \<Rightarrow> Some (BadKeyRefAt i e)
      | None \<Rightarrow> first_bad_ref (Suc i) refs)"

text \<open>The first error of a sequence of checks.\<close>

fun first_error :: "'e option list \<Rightarrow> 'e option" where
  "first_error [] = None"
| "first_error (None # cs) = first_error cs"
| "first_error (Some e # cs) = Some e"

definition validateKeySources :: "Route \<Rightarrow> route_error option" where
  "validateKeySources r =
     (if hasSingularKeys r \<and> hasPluralKeys r then Some SingularAndPlural
      else first_error
        [check_list ''key_envs'' False (r_KeyEnvs r),
         check_list ''key_files'' True (r_KeyFiles r),
         check_list ''key_refs'' False (r_KeyRefs r),
         map_option BadKeyRef (validateSecretRef (r_KeyRef r)),
         first_bad_ref 0 (slice (r_KeyRefs r))])"

definition header_char :: "char \<Rightarrow> bool" where
  "header_char c \<longleftrightarrow>
     (let n = of_char c :: int
      in (97 \<le> n \<and> n \<le> 122) \<or> (65 \<le> n \<and> n \<le> 90) \<or> (48 \<le> n \<and> n \<le> 57)
         \<or> c \<in> set [CHR ''!'', CHR ''#'', CHR ''$'', CHR ''%'', CHR ''&'', CHR 0x27, CHR ''*'', CHR ''+'', CHR ''-'',
                    CHR ''.'', CHR ''^'', CHR ''_'', CHR 0x60, CHR ''|'', CHR ''~''])"

definition validHeaderName :: "string \<Rightarrow> bool" where
  "validHeaderName name \<longleftrightarrow> name \<noteq> [] \<and> list_all header_char name"

definition hopByHop :: "string list" where
  "hopByHop = [''connection'', ''keep-alive'', ''proxy-authenticate'', ''proxy-authorization'', ''te'',
     ''trailer'', ''transfer-encoding'', ''upgrade'']"

definition validateKeyHeader :: "(string \<Rightarrow> string) \<Rightarrow> (string \<Rightarrow> string \<Rightarrow> bool) \<Rightarrow> Route \<Rightarrow> route_error option" where
  "validateKeyHeader uni ufold r =
     (let h = r_KeyHeader r
      in if h = [] then Some KeyHeaderRequired
         else if \<not> validHeaderName h then Some (KeyHeaderInvalid h)
         else if ToLower uni h \<in> set hopByHop then Some (KeyHeaderHopByHop h)
         else if EqualFold ufold h ''Host'' then Some (KeyHeaderHost h)
         else None)"

definition validateAuthMode :: "(string \<Rightarrow> string) \<Rightarrow> (string \<Rightarrow> string \<Rightarrow> bool) \<Rightarrow> Route \<Rightarrow> route_error option" where
  "validateAuthMode uni ufold r =
     (if r_Auth r \<noteq> AuthHeaderInject \<and> r_KeyHeader r \<noteq> [] then Some KeyHeaderNotHeaderMode
      else if r_Auth r \<noteq> AuthHeaderInject \<and> r_KeyPrefix r \<noteq> [] then Some KeyPrefixNotHeaderMode
      else if r_Auth r = AuthInject \<or> r_Auth r = AuthHeaderInject then
        if \<not> hasSingularKeys r \<and> \<not> hasPluralKeys r then Some (KeysRequired (r_Auth r))
        else if r_Auth r = AuthHeaderInject then validateKeyHeader uni ufold r
        else None
      else if r_Auth r = AuthPassthrough then
        if hasSingularKeys r \<or> hasPluralKeys r then Some PassthroughWithKeys else None
      else Some (UnknownAuth (r_Auth r)))"

definition validateBudget :: "Budget \<Rightarrow> route_error + Budget" where
  "validateBudget b =
     (if b_SoftRatio b < 0 \<or> 1 < b_SoftRatio b then Inl (SoftRatioRange (b_SoftRatio b))
      else if b_Window b < 0 then Inl WindowNegative
      else if b_Window b = 0 \<and> (0 < b_Tokens b \<or> 0 < b_Requests b) then Inl WindowRequired
      else if 0 < b_Tokens b \<and> b_EstimateTokens b \<le> 0 then Inl EstimateRequired
      else Inr (if b_SoftRatio b = 0 then b\<lparr>b_SoftRatio := DefaultSoftRatio\<rparr> else b))"

definition validateRotation :: "Route \<Rightarrow> route_error + Route" where
  "validateRotation r =
     (case r_Rotation r of
        None \<Rightarrow> Inr r
      | Some rot \<Rightarrow>
          if r_Auth r = AuthPassthrough then Inl RotationOnPassthrough
          else if \<not> hasPluralKeys r then Inl RotationWithoutPool
          else (case NewPolicy (rc_Policy rot) of
            Inl _ \<Rightarrow> Inl (RotationPolicyUnknown (rc_Policy rot))
          | Inr _ \<Rightarrow>
              (let pol = (if rc_Policy rot = [] then PolicyRoundRobin else rc_Policy rot)
               in if r_Auth r = AuthHeaderInject \<and> pol = PolicyLeastTokens then Inl LeastTokensWithHeader
                  else case validateBudget (rc_Budget rot) of
                    Inl e \<Rightarrow> Inl e
                  | Inr b \<Rightarrow>
                      if rc_MaxRetryAfter rot < 0 then Inl MaxRetryAfterNegative
                      else Inr (r\<lparr>r_Rotation := Some (rot\<lparr>rc_Policy := pol, rc_Budget := b,
                             rc_MaxRetryAfter := (if rc_MaxRetryAfter rot = 0 then DefaultMaxRetryAfter
                                                  else rc_MaxRetryAfter rot)\<rparr>)\<rparr>))))"

definition validateRouteAuth ::
  "(string \<Rightarrow> string) \<Rightarrow> (string \<Rightarrow> string \<Rightarrow> bool) \<Rightarrow> Route \<Rightarrow> route_error + Route" where
  "validateRouteAuth uni ufold r =
     (case first_error [validateKeySources r, validateAuthMode uni ufold r] of
        Some e \<Rightarrow> Inl e
      | None \<Rightarrow> validateRotation r)"

text \<open>The shape checks of one route, in the order of the switch.\<close>

definition route_shape :: "nat \<Rightarrow> string list \<Rightarrow> string list \<Rightarrow> Route \<Rightarrow> config_error option" where
  "route_shape i seenName seenPrefix r =
     (if r_Name r = [] then Some (RouteNameRequired i)
      else if r_Name r \<in> set seenName then Some (DuplicateRouteName i (r_Name r))
      else if r_Prefix r = [] then Some (PrefixRequired (r_Name r))
      else if \<not> HasPrefix (r_Prefix r) ''/'' \<or> \<not> HasSuffix (r_Prefix r) ''/'' then Some (PrefixShape (r_Name r) (r_Prefix r))
      else if r_Prefix r \<in> set seenPrefix then Some (DuplicatePrefix (r_Name r) (r_Prefix r))
      else if r_Upstream r = [] then Some (UpstreamRequired (r_Name r))
      else if \<not> HasPrefix (r_Upstream r) ''https://'' \<and> \<not> HasPrefix (r_Upstream r) ''http://''
           then Some (UpstreamScheme (r_Name r) (r_Upstream r))
      else None)"

fun validate_routes ::
  "(string \<Rightarrow> string) \<Rightarrow> (string \<Rightarrow> string \<Rightarrow> bool) \<Rightarrow> duration \<Rightarrow> nat \<Rightarrow> string list \<Rightarrow> string list \<Rightarrow> Route list
   \<Rightarrow> config_error + Route list" where
  "validate_routes uni ufold dflt i seenName seenPrefix [] = Inr []"
| "validate_routes uni ufold dflt i seenName seenPrefix (r # rs) =
     (case route_shape i seenName seenPrefix r of
        Some e \<Rightarrow> Inl e
      | None \<Rightarrow>
          (case validateRouteAuth uni ufold r of
             Inl e \<Rightarrow> Inl (RouteInvalid (r_Name r) e)
           | Inr r1 \<Rightarrow>
               if r_Timeout r1 < 0 then Inl (RouteTimeoutNegative (r_Name r) (r_Timeout r1))
               else (case validate_routes uni ufold dflt (Suc i) (r_Name r # seenName) (r_Prefix r # seenPrefix) rs of
                       Inl e \<Rightarrow> Inl e
                     | Inr rs' \<Rightarrow> Inr ((if r_Timeout r1 = 0 then r1\<lparr>r_Timeout := dflt\<rparr> else r1) # rs'))))"

section \<open>The CONNECT, AES and authentication blocks\<close>

fun check_hosts ::
  "(string \<Rightarrow> string) \<Rightarrow> (string \<Rightarrow> string \<Rightarrow> bool) \<Rightarrow> string \<Rightarrow> string list \<Rightarrow> config_error option" where
  "check_hosts uni ufold listen [] = None"
| "check_hosts uni ufold listen (h # hs) =
     (case SplitHostPort h of
        None \<Rightarrow> Some (AllowedHostShape h)
      | Some (host, port) \<Rightarrow>
          (case connectSelfReference uni ufold host port listen (isLoopbackListen listen) of
             Some why \<Rightarrow> Some (AllowedHostSelf h why)
           | None \<Rightarrow> check_hosts uni ufold listen hs))"

definition validateConnect ::
  "(string \<Rightarrow> string) \<Rightarrow> (string \<Rightarrow> string \<Rightarrow> bool) \<Rightarrow> string \<Rightarrow> ConnectConfig \<Rightarrow> config_error + ConnectConfig" where
  "validateConnect uni ufold listen cc =
     (if \<not> cc_Enabled cc then Inr cc
      else if cc_AllowedHosts cc = [] then Inl AllowedHostsRequired
      else if cc_TokenEnv cc = [] \<and> cc_TokenFile cc = [] \<and> cc_TokenRef cc = [] then Inl ConnectTokenRequired
      else case validateSecretRef (cc_TokenRef cc) of
        Some e \<Rightarrow> Inl (ConnectTokenRef e)
      | None \<Rightarrow>
          (case check_hosts uni ufold listen (cc_AllowedHosts cc) of
             Some e \<Rightarrow> Inl e
           | None \<Rightarrow>
               if cc_MaxConcurrent cc < 0 then Inl (MaxConcurrentNegative (cc_MaxConcurrent cc))
               else if cc_IdleTimeout cc < 0 then Inl (IdleTimeoutNegative (cc_IdleTimeout cc))
               else Inr (cc\<lparr>cc_DialTimeout := (if cc_DialTimeout cc = 0 then 10 * Second else cc_DialTimeout cc),
                      cc_MaxConcurrent := (if cc_MaxConcurrent cc = 0 then DefaultConnectMaxConcurrent else cc_MaxConcurrent cc),
                      cc_IdleTimeout := (if cc_IdleTimeout cc = 0 then DefaultConnectIdleTimeout else cc_IdleTimeout cc)\<rparr>)))"

definition validateAES :: "string \<Rightarrow> AESConfig \<Rightarrow> config_error option" where
  "validateAES listen a =
     (if \<not> aes_Enabled a then None
      else if aes_Listen a = [] then Some AESListenRequired
      else if aes_Listen a = listen then Some (AESListenClash listen)
      else if (tls_CertFile (aes_TLS a) = []) \<noteq> (tls_KeyFile (aes_TLS a) = []) then Some AESTLSPair
      else if \<not> tls_on (aes_TLS a) then Some AESTLSRequired
      else if aes_KeyEnv a = [] \<and> aes_KeyFile a = [] \<and> aes_KeyRef a = [] then Some AESKeyRequired
      else None)"

definition validateGatewayAuth :: "(string \<Rightarrow> string) \<Rightarrow> string \<Rightarrow> GatewayAuthConfig \<Rightarrow> config_error option" where
  "validateGatewayAuth uni listen g =
     (case validateSecretRef (ga_TokenRef g) of
        Some e \<Rightarrow> Some (GatewayTokenRef e)
      | None \<Rightarrow>
          if hasToken g \<and> ga_AllowUnauthenticated g then Some TokenAndUnauthenticated
          else if hasToken g then None
          else if ga_ExemptLoopback g = Some False then Some ExemptWithoutToken
          else if \<not> ga_AllowUnauthenticated g \<and> \<not> isLoopbackListen listen
               then Some (OpenNonLoopback listen (loopbackListenHint uni listen))
          else None)"

definition Validate :: "(string \<Rightarrow> string) \<Rightarrow> (string \<Rightarrow> string \<Rightarrow> bool) \<Rightarrow> Config \<Rightarrow> config_error + Config" where
  "Validate uni ufold c =
     (if c_Listen c = [] then Inl ListenRequired
      else if c_Timeout c < 0 then Inl (TimeoutNegative (c_Timeout c))
      else let dflt = (if c_Timeout c = 0 then DefaultTimeout else c_Timeout c)
           in case validate_routes uni ufold dflt 0 [] [] (c_Routes c) of
                Inl e \<Rightarrow> Inl e
              | Inr rs \<Rightarrow>
                  if (tls_CertFile (c_TLS c) = []) \<noteq> (tls_KeyFile (c_TLS c) = []) then Inl TLSPair
                  else case validateConnect uni ufold (c_Listen c) (c_Connect c) of
                    Inl e \<Rightarrow> Inl e
                  | Inr cc \<Rightarrow>
                      (case first_error [validateAES (c_Listen c) (c_AES c),
                                         validateGatewayAuth uni (c_Listen c) (c_GatewayAuth c)] of
                         Some e \<Rightarrow> Inl e
                       | None \<Rightarrow> Inr (c\<lparr>c_Timeout := dflt, c_Routes := rs, c_Connect := cc\<rparr>)))"

section \<open>The AES key\<close>

datatype aes_key_error = AESKeyNoSource | AESKeyUnresolved secret_failure | AESKeyBadHex | AESKeyShape nat

definition parseAESKey :: "string \<Rightarrow> aes_key_error + string" where
  "parseAESKey material =
     (let s = TrimSpace material
      in if length s = 64 then (case hex_decode s of None \<Rightarrow> Inl AESKeyBadHex | Some b \<Rightarrow> Inr b)
         else if length s = 32 then Inr s
         else case b64_decode s of
                None \<Rightarrow> Inl (AESKeyShape (length s))
              | Some b \<Rightarrow> if length b = 32 then Inr b else Inl (AESKeyShape (length s)))"

definition ResolveAESKey :: "secret_world \<Rightarrow> AESConfig \<Rightarrow> aes_key_error + string" where
  "ResolveAESKey w a =
     (let refs = secretRefs (aes_KeyRef a) (aes_KeyEnv a) (aes_KeyFile a)
      in if refs = [] then Inl AESKeyNoSource
         else case fst (resolveFirst Resolver_Resolve refs (NewDefaultSecretProvider w)) of
                Inl e \<Rightarrow> Inl (AESKeyUnresolved e)
              | Inr material \<Rightarrow> parseAESKey material)"


section \<open>What the checks establish\<close>

lemma first_error_None: "first_error cs = None \<longleftrightarrow> (\<forall>c \<in> set cs. c = None)"
  by (induction cs rule: first_error.induct) auto

definition budget_ok :: "Budget \<Rightarrow> bool" where
  "budget_ok b \<longleftrightarrow> 0 < b_SoftRatio b \<and> b_SoftRatio b \<le> 1 \<and> 0 \<le> b_Window b
     \<and> (0 < b_Tokens b \<or> 0 < b_Requests b \<longrightarrow> 0 < b_Window b) \<and> (0 < b_Tokens b \<longrightarrow> 0 < b_EstimateTokens b)"

lemma DefaultSoftRatio_range: "0 < DefaultSoftRatio" "DefaultSoftRatio \<le> 1"
proof -
  have "f64_round (1 / 2) = 1 / 2" "f64_round 1 = 1" by code_simp+
  moreover have "f64_round (1 / 2) \<le> f64_round (8 / 10)" "f64_round (8 / 10) \<le> f64_round 1"
    by (intro f64_round_mono; simp)+
  ultimately show "0 < DefaultSoftRatio" "DefaultSoftRatio \<le> 1" by (simp_all add: DefaultSoftRatio_def)
qed

lemma validateBudget_ok: "validateBudget b = Inr b' \<Longrightarrow> budget_ok b'"
  using DefaultSoftRatio_range by (auto simp: validateBudget_def budget_ok_def split: if_splits)

lemma validateBudget_idem: "validateBudget b = Inr b' \<Longrightarrow> validateBudget b' = Inr b'"
  using DefaultSoftRatio_range by (auto simp: validateBudget_def split: if_splits)

definition rotation_ok :: "Route \<Rightarrow> RotationConfig \<Rightarrow> bool" where
  "rotation_ok r rot \<longleftrightarrow> hasPluralKeys r \<and> (\<exists>p. NewPolicy (rc_Policy rot) = Inr p) \<and> rc_Policy rot \<noteq> []
     \<and> budget_ok (rc_Budget rot) \<and> 0 < rc_MaxRetryAfter rot
     \<and> \<not> (r_Auth r = AuthHeaderInject \<and> rc_Policy rot = PolicyLeastTokens)"

text \<open>A rotation block changes nothing of the route but itself.\<close>

lemma validateRotation_cases:
  assumes "validateRotation r = Inr r1"
  obtains (none) "r_Rotation r = None" "r1 = r"
  | (some) rot where "r1 = r\<lparr>r_Rotation := Some rot\<rparr>" "rotation_ok r rot" "r_Auth r \<noteq> AuthPassthrough"
      "validateBudget (rc_Budget rot) = Inr (rc_Budget rot)"
proof (cases "r_Rotation r")
  case None
  moreover from this have "r1 = r" using assms by (simp add: validateRotation_def)
  ultimately show thesis by (rule none)
next
  case (Some rot)
  define pol where "pol = (if rc_Policy rot = [] then PolicyRoundRobin else rc_Policy rot)"
  from Some assms obtain p b where p: "NewPolicy (rc_Policy rot) = Inr p" and b: "validateBudget (rc_Budget rot) = Inr b"
    and c: "r_Auth r \<noteq> AuthPassthrough" "hasPluralKeys r" "\<not> (r_Auth r = AuthHeaderInject \<and> pol = PolicyLeastTokens)"
      "0 \<le> rc_MaxRetryAfter rot"
    and r1: "r1 = r\<lparr>r_Rotation := Some (rot\<lparr>rc_Policy := pol, rc_Budget := b,
        rc_MaxRetryAfter := (if rc_MaxRetryAfter rot = 0 then DefaultMaxRetryAfter else rc_MaxRetryAfter rot)\<rparr>)\<rparr>"
    unfolding validateRotation_def pol_def by (auto simp: Let_def split: if_splits sum.splits)
  have "\<exists>p. NewPolicy pol = Inr p" using p by (cases "rc_Policy rot = []") (simp_all add: pol_def NewPolicy_def)
  moreover have "pol \<noteq> []" by (simp add: pol_def PolicyRoundRobin_def)
  ultimately show thesis
    using r1 c validateBudget_ok [OF b] validateBudget_idem [OF b]
    by (intro some [OF r1]) (auto simp: rotation_ok_def DefaultMaxRetryAfter_def)
qed

lemma validateRotation_idem:
  assumes "validateRotation r = Inr r1"
  shows "validateRotation r1 = Inr r1"
  using assms
proof (cases rule: validateRotation_cases)
  case (some rot)
  moreover have "hasPluralKeys (r\<lparr>r_Rotation := Some rot\<rparr>) = hasPluralKeys r" by (simp add: hasPluralKeys_def)
  ultimately show ?thesis by (auto simp: validateRotation_def rotation_ok_def split: sum.splits)
qed (simp add: validateRotation_def)

definition route_ok :: "Route \<Rightarrow> bool" where
  "route_ok r \<longleftrightarrow> r_Name r \<noteq> [] \<and> HasPrefix (r_Prefix r) ''/'' \<and> HasSuffix (r_Prefix r) ''/'' \<and> 0 < r_Timeout r
     \<and> r_Auth r \<in> {AuthInject, AuthHeaderInject, AuthPassthrough}
     \<and> (r_Auth r \<noteq> AuthPassthrough \<longrightarrow> hasSingularKeys r \<noteq> hasPluralKeys r)
     \<and> (r_Auth r = AuthPassthrough \<longrightarrow> \<not> hasSingularKeys r \<and> \<not> hasPluralKeys r \<and> r_Rotation r = None)
     \<and> (hasPluralKeys r \<longrightarrow> 0 < declaredKeyCount r)
     \<and> (\<forall>rot. r_Rotation r = Some rot \<longrightarrow> rotation_ok r rot)"

lemma auth_modes_distinct [simp]:
  "AuthInject \<noteq> AuthPassthrough" "AuthHeaderInject \<noteq> AuthPassthrough" "AuthInject \<noteq> AuthHeaderInject"
  "AuthPassthrough \<noteq> AuthInject" "AuthPassthrough \<noteq> AuthHeaderInject" "AuthHeaderInject \<noteq> AuthInject"
  by (simp_all add: AuthInject_def AuthHeaderInject_def AuthPassthrough_def)

text \<open>The checks read nothing that the defaults change.\<close>

lemma route_checks_cong:
  "validateKeySources (r\<lparr>r_Rotation := x, r_Timeout := t\<rparr>) = validateKeySources r"
  "validateAuthMode uni ufold (r\<lparr>r_Rotation := x, r_Timeout := t\<rparr>) = validateAuthMode uni ufold r"
  "hasPluralKeys (r\<lparr>r_Rotation := x, r_Timeout := t\<rparr>) = hasPluralKeys r"
  "hasSingularKeys (r\<lparr>r_Rotation := x, r_Timeout := t\<rparr>) = hasSingularKeys r"
  "declaredKeyCount (r\<lparr>r_Rotation := x, r_Timeout := t\<rparr>) = declaredKeyCount r"
  by (simp_all add: validateKeySources_def validateAuthMode_def validateKeyHeader_def hasPluralKeys_def
      hasSingularKeys_def declaredKeyCount_def)

lemma validateKeySources_ok:
  assumes "validateKeySources r = None"
  shows "\<not> (hasSingularKeys r \<and> hasPluralKeys r)" "hasPluralKeys r \<Longrightarrow> 0 < declaredKeyCount r"
proof -
  show s: "\<not> (hasSingularKeys r \<and> hasPluralKeys r)" using assms by (auto simp: validateKeySources_def)
  then have "check_list ''key_envs'' False (r_KeyEnvs r) = None" "check_list ''key_files'' True (r_KeyFiles r) = None"
    "check_list ''key_refs'' False (r_KeyRefs r) = None"
    using assms by (auto simp: validateKeySources_def first_error_None)
  then show "hasPluralKeys r \<Longrightarrow> 0 < declaredKeyCount r"
    by (auto simp: hasPluralKeys_def declaredKeyCount_def check_list_def slice_def split: option.splits if_splits)
qed

lemma validateAuthMode_ok:
  assumes "validateAuthMode uni ufold r = None"
  shows "r_Auth r \<in> {AuthInject, AuthHeaderInject, AuthPassthrough}"
    "r_Auth r \<noteq> AuthPassthrough \<Longrightarrow> hasSingularKeys r \<or> hasPluralKeys r"
    "r_Auth r = AuthPassthrough \<Longrightarrow> \<not> hasSingularKeys r \<and> \<not> hasPluralKeys r"
  using assms by (auto simp: validateAuthMode_def split: if_splits)

lemma validated_route:
  assumes shape: "route_shape i sn sp r = None" and auth: "validateRouteAuth uni ufold r = Inr r1"
    and t: "0 \<le> r_Timeout r1" "0 < dflt"
  defines "r2 \<equiv> (if r_Timeout r1 = 0 then r1\<lparr>r_Timeout := dflt\<rparr> else r1)"
  shows "route_ok r2" "r_Name r2 = r_Name r" "r_Prefix r2 = r_Prefix r" "r_Timeout r2 \<noteq> 0"
    "route_shape i sn sp r2 = None" "validateRouteAuth uni ufold r2 = Inr r2"
proof -
  have ks: "validateKeySources r = None" and am: "validateAuthMode uni ufold r = None"
    and rot: "validateRotation r = Inr r1"
    using auth by (auto simp: validateRouteAuth_def first_error_None split: option.splits)
  obtain x t' where r2: "r2 = r\<lparr>r_Rotation := x, r_Timeout := t'\<rparr>" and t': "0 < t'"
    and x: "x = None \<and> r_Rotation r = None \<or> (\<exists>c. x = Some c \<and> rotation_ok r c \<and> r_Auth r \<noteq> AuthPassthrough)"
    using rot
  proof (cases rule: validateRotation_cases)
    case none
    then have "r2 = r\<lparr>r_Rotation := None, r_Timeout := r_Timeout r2\<rparr>" "0 < r_Timeout r2"
      using t by (cases r, auto simp: r2_def)+
    then show thesis using none(1) by (intro that) auto
  next
    case (some c)
    then have "r2 = r\<lparr>r_Rotation := Some c, r_Timeout := r_Timeout r2\<rparr>" "0 < r_Timeout r2"
      using t by (cases r, auto simp: r2_def)+
    then show thesis using some(2,3) by (intro that) auto
  qed
  show n: "r_Name r2 = r_Name r" "r_Prefix r2 = r_Prefix r" "r_Timeout r2 \<noteq> 0" using r2 t' by simp_all
  have "route_shape i sn sp r2 = route_shape i sn sp r" by (simp add: r2 route_shape_def)
  with shape show "route_shape i sn sp r2 = None" by simp
  have "validateRotation r2 = Inr r2"
  proof -
    have "validateRotation r1 = Inr r1" using rot by (rule validateRotation_idem)
    moreover have "validateRotation (r1\<lparr>r_Timeout := dflt\<rparr>) = map_sum id (\<lambda>q. q\<lparr>r_Timeout := dflt\<rparr>) (validateRotation r1)"
      by (auto simp: validateRotation_def hasPluralKeys_def Let_def split: option.splits sum.splits)
    ultimately show ?thesis by (simp add: r2_def)
  qed
  then show "validateRouteAuth uni ufold r2 = Inr r2"
    using ks am by (simp add: validateRouteAuth_def first_error_None r2 route_checks_cong)
  show "route_ok r2"
    using shape x t' validateKeySources_ok [OF ks] validateAuthMode_ok [OF am]
    by (auto simp: route_ok_def r2 route_checks_cong route_shape_def rotation_ok_def split: if_splits)
qed

lemma validate_routes_step:
  assumes "validate_routes uni ufold dflt i sn sp (r # rs) = Inr out"
  obtains r1 rs' where "route_shape i sn sp r = None" "validateRouteAuth uni ufold r = Inr r1" "0 \<le> r_Timeout r1"
    "validate_routes uni ufold dflt (Suc i) (r_Name r # sn) (r_Prefix r # sp) rs = Inr rs'"
    "out = (if r_Timeout r1 = 0 then r1\<lparr>r_Timeout := dflt\<rparr> else r1) # rs'"
  using assms by (auto split: option.splits sum.splits if_splits)

lemma validate_routes_ok:
  assumes "validate_routes uni ufold dflt i sn sp rs = Inr out" "0 < dflt"
  shows "(\<forall>r \<in> set out. route_ok r) \<and> map r_Name out = map r_Name rs \<and> map r_Prefix out = map r_Prefix rs
    \<and> distinct (map r_Name rs) \<and> distinct (map r_Prefix rs)
    \<and> set (map r_Name rs) \<inter> set sn = {} \<and> set (map r_Prefix rs) \<inter> set sp = {}
    \<and> validate_routes uni ufold dflt i sn sp out = Inr out"
  using assms(1)
proof (induction rs arbitrary: i sn sp out)
  case (Cons r rs)
  from Cons.prems show ?case
  proof (cases rule: validate_routes_step)
    case (1 r1 rs')
    note v = validated_route [OF 1(1,2,3) assms(2)]
    from 1(1) have "r_Name r \<notin> set sn" "r_Prefix r \<notin> set sp" by (auto simp: route_shape_def split: if_splits)
    moreover have "validate_routes uni ufold dflt i sn sp out = Inr out"
      unfolding 1(5) using v Cons.IH [OF 1(4)] by (simp del: if_split_asm) (use v(4) v(1) in \<open>auto simp: route_ok_def\<close>)
    ultimately show ?thesis using v Cons.IH [OF 1(4)] 1(5) by auto
  qed
qed simp

definition connect_ok :: "(string \<Rightarrow> string) \<Rightarrow> (string \<Rightarrow> string \<Rightarrow> bool) \<Rightarrow> string \<Rightarrow> ConnectConfig \<Rightarrow> bool" where
  "connect_ok uni ufold listen cc \<longleftrightarrow> (cc_Enabled cc \<longrightarrow>
     cc_AllowedHosts cc \<noteq> [] \<and> 0 < cc_MaxConcurrent cc \<and> 0 < cc_IdleTimeout cc
     \<and> (\<forall>h \<in> set (cc_AllowedHosts cc). \<exists>host port. SplitHostPort h = Some (host, port)
          \<and> connectSelfReference uni ufold host port listen (isLoopbackListen listen) = None))"

lemma check_hosts_None:
  "check_hosts uni ufold listen hs = None \<Longrightarrow> h \<in> set hs \<Longrightarrow> \<exists>host port. SplitHostPort h = Some (host, port)
     \<and> connectSelfReference uni ufold host port listen (isLoopbackListen listen) = None"
  by (induction uni ufold listen hs rule: check_hosts.induct) (auto split: option.splits prod.splits)

lemma connect_defaults_positive:
  "0 < DefaultConnectMaxConcurrent" "0 < DefaultConnectIdleTimeout"
  by (simp_all add: DefaultConnectMaxConcurrent_def DefaultConnectIdleTimeout_def)

lemma validateConnect_cases:
  assumes "validateConnect uni ufold listen cc = Inr cc'"
  obtains (off) "\<not> cc_Enabled cc" "cc' = cc"
  | (on) "cc_Enabled cc" "cc_AllowedHosts cc \<noteq> []"
      "\<not> (cc_TokenEnv cc = [] \<and> cc_TokenFile cc = [] \<and> cc_TokenRef cc = [])" "validateSecretRef (cc_TokenRef cc) = None"
      "check_hosts uni ufold listen (cc_AllowedHosts cc) = None" "0 \<le> cc_MaxConcurrent cc" "0 \<le> cc_IdleTimeout cc"
      "cc' = cc\<lparr>cc_DialTimeout := (if cc_DialTimeout cc = 0 then 10 * Second else cc_DialTimeout cc),
                cc_MaxConcurrent := (if cc_MaxConcurrent cc = 0 then DefaultConnectMaxConcurrent else cc_MaxConcurrent cc),
                cc_IdleTimeout := (if cc_IdleTimeout cc = 0 then DefaultConnectIdleTimeout else cc_IdleTimeout cc)\<rparr>"
proof (cases "cc_Enabled cc")
  case False
  with assms have "cc' = cc" by (simp add: validateConnect_def)
  with False show thesis by (rule off)
next
  case True
  note v = assms [unfolded validateConnect_def]
  from v True have h: "cc_AllowedHosts cc \<noteq> []" by (cases "cc_AllowedHosts cc = []") simp_all
  from v True h have t: "\<not> (cc_TokenEnv cc = [] \<and> cc_TokenFile cc = [] \<and> cc_TokenRef cc = [])"
    by (cases "cc_TokenEnv cc = [] \<and> cc_TokenFile cc = [] \<and> cc_TokenRef cc = []") simp_all
  note v1 = v [unfolded if_not_P [OF h] if_not_P [OF t]]
  from v1 have r: "validateSecretRef (cc_TokenRef cc) = None"
    by (cases "validateSecretRef (cc_TokenRef cc)") (simp_all add: True)
  from v1 r have k: "check_hosts uni ufold listen (cc_AllowedHosts cc) = None"
    by (cases "check_hosts uni ufold listen (cc_AllowedHosts cc)") (simp_all add: True)
  from v1 r k have n: "0 \<le> cc_MaxConcurrent cc" "0 \<le> cc_IdleTimeout cc"
    by (simp_all add: True split: if_split_asm)
  show thesis
    by (rule on [OF True h t r k n]) (use v1 r k n True in simp)
qed

lemma validateConnect_ok:
  assumes "validateConnect uni ufold listen cc = Inr cc'"
  shows "connect_ok uni ufold listen cc' \<and> validateConnect uni ufold listen cc' = Inr cc'"
  using assms
proof (cases rule: validateConnect_cases)
  case off
  then show ?thesis by (simp add: connect_ok_def validateConnect_def)
next
  case on
  have hosts: "cc_AllowedHosts cc' = cc_AllowedHosts cc" "cc_TokenEnv cc' = cc_TokenEnv cc" "cc_Enabled cc' = cc_Enabled cc"
    "cc_TokenFile cc' = cc_TokenFile cc" "cc_TokenRef cc' = cc_TokenRef cc" by (simp_all add: on(8))
  have pos: "0 < cc_MaxConcurrent cc'" "0 < cc_IdleTimeout cc'" "cc_DialTimeout cc' \<noteq> 0"
    using on(6,7) connect_defaults_positive by (simp_all add: on(8))
  have "validateConnect uni ufold listen cc' = Inr cc'"
    using on(1-5) pos by (simp add: validateConnect_def hosts)
  moreover have "connect_ok uni ufold listen cc'"
    using on(1,2) pos check_hosts_None [OF on(5)] by (simp add: connect_ok_def hosts)
  ultimately show ?thesis by simp
qed

definition gateway_auth_ok :: "string \<Rightarrow> GatewayAuthConfig \<Rightarrow> bool" where
  "gateway_auth_ok listen g \<longleftrightarrow>
     (case GatewayAuth_Mode g of
        ProxyAuthLoopbackOnly \<Rightarrow> isLoopbackListen listen
      | ProxyAuthOpen \<Rightarrow> ga_AllowUnauthenticated g
      | _ \<Rightarrow> \<not> ga_AllowUnauthenticated g)"

lemma validateGatewayAuth_ok: "validateGatewayAuth uni listen g = None \<Longrightarrow> gateway_auth_ok listen g"
  by (auto simp: validateGatewayAuth_def gateway_auth_ok_def GatewayAuth_Mode_def split: option.splits if_splits)

lemma Validate_parts:
  assumes "Validate uni ufold c = Inr c'"
  obtains dflt rs cc where "c_Listen c \<noteq> []" "0 < dflt" "c_Timeout c = 0 \<and> dflt = DefaultTimeout \<or> dflt = c_Timeout c"
    "validate_routes uni ufold dflt 0 [] [] (c_Routes c) = Inr rs"
    "(tls_CertFile (c_TLS c) = []) = (tls_KeyFile (c_TLS c) = [])"
    "validateConnect uni ufold (c_Listen c) (c_Connect c) = Inr cc" "validateAES (c_Listen c) (c_AES c) = None"
    "validateGatewayAuth uni (c_Listen c) (c_GatewayAuth c) = None"
    "c' = c\<lparr>c_Timeout := dflt, c_Routes := rs, c_Connect := cc\<rparr>"
proof -
  define dflt where "dflt = (if c_Timeout c = 0 then DefaultTimeout else c_Timeout c)"
  have c: "c_Listen c \<noteq> []" "\<not> c_Timeout c < 0" using assms by (auto simp: Validate_def split: if_splits)
  then have d: "0 < dflt" "c_Timeout c = 0 \<and> dflt = DefaultTimeout \<or> dflt = c_Timeout c"
    by (auto simp: dflt_def DefaultTimeout_def)
  have v: "Validate uni ufold c = (case validate_routes uni ufold dflt 0 [] [] (c_Routes c) of
                Inl e \<Rightarrow> Inl e
              | Inr rs \<Rightarrow>
                  if (tls_CertFile (c_TLS c) = []) \<noteq> (tls_KeyFile (c_TLS c) = []) then Inl TLSPair
                  else case validateConnect uni ufold (c_Listen c) (c_Connect c) of
                    Inl e \<Rightarrow> Inl e
                  | Inr cc \<Rightarrow>
                      (case first_error [validateAES (c_Listen c) (c_AES c),
                                         validateGatewayAuth uni (c_Listen c) (c_GatewayAuth c)] of
                         Some e \<Rightarrow> Inl e
                       | None \<Rightarrow> Inr (c\<lparr>c_Timeout := dflt, c_Routes := rs, c_Connect := cc\<rparr>)))"
    unfolding Validate_def Let_def dflt_def using c by (simp only: if_False if_True)
  obtain rs cc where "validate_routes uni ufold dflt 0 [] [] (c_Routes c) = Inr rs"
    "(tls_CertFile (c_TLS c) = []) = (tls_KeyFile (c_TLS c) = [])"
    "validateConnect uni ufold (c_Listen c) (c_Connect c) = Inr cc" "validateAES (c_Listen c) (c_AES c) = None"
    "validateGatewayAuth uni (c_Listen c) (c_GatewayAuth c) = None"
    "c' = c\<lparr>c_Timeout := dflt, c_Routes := rs, c_Connect := cc\<rparr>"
    using assms unfolding v by (auto simp: first_error_None simp del: first_error.simps split: sum.splits if_splits option.splits)
  with c d show thesis using that by blast
qed

section \<open>Properties\<close>


text \<open>Validation is stable: a configuration it returns is accepted again and unchanged, so the
  defaults it fills in are values it would itself accept and reloading a normalised
  configuration alters nothing.\<close>

theorem validate_idempotent:
  assumes "Validate uni ufold c = Inr c'"
  shows "Validate uni ufold c' = Inr c'"
  using assms
proof (cases rule: Validate_parts)
  case (1 dflt rs cc)
  then show ?thesis
    using validate_routes_ok [OF 1(4,2)] validateConnect_ok [OF 1(6)]
    by (simp add: Validate_def first_error_None)
qed

definition example_gateway :: Config where
  "example_gateway = \<lparr>c_Listen = ''127.0.0.1:14443'', c_Timeout = 0, c_AuditLog = [],
     c_Routes = [example_pool_route\<lparr>r_Rotation := Some \<lparr>rc_Policy = [],
        rc_Budget = \<lparr>b_Window = Minute, b_Tokens = 0, b_Requests = 5, b_SoftRatio = 0, b_EstimateTokens = 0\<rparr>,
        rc_MaxRetryAfter = 0\<rparr>\<rparr>],
     c_Connect = \<lparr>cc_Enabled = True, cc_AllowedHosts = [''api.anthropic.com:443''], cc_TokenEnv = ''T'', cc_TokenFile = [],
        cc_TokenRef = [], cc_DialTimeout = 0, cc_MaxConcurrent = 0, cc_IdleTimeout = 0\<rparr>,
     c_GatewayAuth = \<lparr>ga_TokenEnv = [], ga_TokenFile = [], ga_TokenRef = [], ga_ExemptLoopback = None,
        ga_AllowUnauthenticated = False\<rparr>,
     c_TLS = \<lparr>tls_CertFile = [], tls_KeyFile = []\<rparr>,
     c_AES = \<lparr>aes_Enabled = False, aes_Listen = [], aes_KeyEnv = [], aes_KeyFile = [], aes_KeyRef = [],
        aes_TLS = \<lparr>tls_CertFile = [], tls_KeyFile = []\<rparr>\<rparr>, c_TrustForwardedForAudit = False\<rparr>"

lemma example_gateway_valid: "isl (Validate id (\<lambda>_ _. False) example_gateway) = False"
  by code_simp


theorem validate_idempotent_witness:
  "\<exists>c'. Validate id (\<lambda>_ _. False) example_gateway = Inr c' \<and> Validate id (\<lambda>_ _. False) c' = Inr c'"
proof -
  obtain c' where c: "Validate id (\<lambda>_ _. False) example_gateway = Inr c'"
    using example_gateway_valid by (cases "Validate id (\<lambda>_ _. False) example_gateway") auto
  from validate_idempotent [OF c] c show ?thesis by blast
qed
end
