(* ===== verification/Gateway_Auth.thy ===== *)
theory Gateway_Auth
  imports Channel_Config
begin

text \<open>
  Credentials on the reverse-proxy leg of the gateway: who may use it
  (\<open>internal/channel/proxy_auth.go\<close>), which key a route applies
  (\<open>internal/channel/auth.go\<close>) and what of a caller's request reaches the upstream
  (\<open>internal/channel/forward.go\<close>).  An \<open>http.Header\<close> is the list of its entries; a pooled
  authenticator carries its rotation store, so the operations that change the store
  return the authenticator.  The outcome of \<open>http.Client.Do\<close> is a parameter where the
  handler needs it; whether \<open>http.NewRequestWithContext\<close> accepts method and target is
  the parameter \<open>new_request\<close>.
\<close>

section \<open>Headers\<close>

type_synonym Header = "(string \<times> string list) list"

fun canonical_bytes :: "bool \<Rightarrow> string \<Rightarrow> string" where
  "canonical_bytes upper [] = []"
| "canonical_bytes upper (c # s) =
     (let n = of_char c :: int
      in (if upper \<and> 97 \<le> n \<and> n \<le> 122 then char_of (n - 32)
          else if \<not> upper \<and> 65 \<le> n \<and> n \<le> 90 then char_of (n + 32) else c)
         # canonical_bytes (c = CHR ''-'') s)"

text \<open>\<open>http.CanonicalHeaderKey\<close>: a name with a byte outside the token alphabet is left alone.\<close>

definition CanonicalHeaderKey :: "string \<Rightarrow> string" where
  "CanonicalHeaderKey s = (if list_all header_char s then canonical_bytes True s else s)"

definition header_values :: "Header \<Rightarrow> string \<Rightarrow> string list" where
  "header_values h k = (case map_of h k of None \<Rightarrow> [] | Some vs \<Rightarrow> vs)"

definition Header_Get :: "Header \<Rightarrow> string \<Rightarrow> string" where
  "Header_Get h k = (case header_values h (CanonicalHeaderKey k) of [] \<Rightarrow> [] | v # _ \<Rightarrow> v)"

definition header_put :: "Header \<Rightarrow> string \<Rightarrow> string list \<Rightarrow> Header" where
  "header_put h k vs = (k, vs) # filter (\<lambda>(k', _). k' \<noteq> k) h"

definition Header_Set :: "Header \<Rightarrow> string \<Rightarrow> string \<Rightarrow> Header" where
  "Header_Set h k v = header_put h (CanonicalHeaderKey k) [v]"

definition Header_Add :: "Header \<Rightarrow> string \<Rightarrow> string \<Rightarrow> Header" where
  "Header_Add h k v =
     (let ck = CanonicalHeaderKey k in header_put h ck (header_values h ck @ [v]))"

definition Header_Del :: "Header \<Rightarrow> string \<Rightarrow> Header" where
  "Header_Del h k = filter (\<lambda>(k', _). k' \<noteq> CanonicalHeaderKey k) h"

record Request =
  rq_Method :: string
  rq_Path :: string
  rq_RawQuery :: string
  rq_Host :: string
  rq_URLHost :: string
  rq_RemoteAddr :: string
  rq_LocalAddr :: "net_addr option"
  rq_Header :: Header
  rq_ContentLength :: int

section \<open>Caller authentication\<close>

definition GatewayTokenHeader :: string where "GatewayTokenHeader = ''X-HLXN-Token''"

datatype proxyAuthRefusal = proxyAuthOK | refusalTokenRequired | refusalTokenInvalid

definition isLoopbackPeer :: "string \<Rightarrow> bool" where
  "isLoopbackPeer remoteAddr =
     (let host = (case SplitHostPort remoteAddr of Some (h, _) \<Rightarrow> h | None \<Rightarrow> remoteAddr);
          host1 = TrimSuffix (TrimPrefix host ''['') '']'';
          host2 = (case index_byte (CHR ''%'') host1 of Some i \<Rightarrow> take i host1 | None \<Rightarrow> host1)
      in case ParseIP host2 of None \<Rightarrow> False | Some ip \<Rightarrow> IsLoopback ip)"

definition auditClientAddr :: "bool \<Rightarrow> Request \<Rightarrow> string" where
  "auditClientAddr trustForwardedForAudit r =
     (if \<not> trustForwardedForAudit \<or> \<not> isLoopbackPeer (rq_RemoteAddr r) then rq_RemoteAddr r
      else let xff = Header_Get (rq_Header r) ''X-Forwarded-For''
           in if xff = [] then rq_RemoteAddr r
              else let first = TrimSpace (takeWhile (\<lambda>c. c \<noteq> CHR '','') xff)
                   in if first = [] \<or> ParseIP first = None then rq_RemoteAddr r else first)"

text \<open>\<open>subtle.ConstantTimeCompare\<close> is equality of the byte strings.\<close>

definition authorizeProxy :: "ProxyAuthMode \<Rightarrow> string \<Rightarrow> Request \<Rightarrow> proxyAuthRefusal" where
  "authorizeProxy mode proxyToken r =
     (if mode = ProxyAuthOpen \<or> mode = ProxyAuthLoopbackOnly then proxyAuthOK
      else let presented = TrimSpace (Header_Get (rq_Header r) GatewayTokenHeader)
           in if presented = []
              then (if mode = ProxyAuthTokenLoopbackExempt \<and> isLoopbackPeer (rq_RemoteAddr r)
                    then proxyAuthOK else refusalTokenRequired)
              else if proxyToken = [] then refusalTokenInvalid
              else if presented \<noteq> proxyToken then refusalTokenInvalid
              else proxyAuthOK)"

section \<open>Authenticators\<close>

record leasedInjector =
  li_key :: string
  li_header :: string
  li_prefix :: string
  li_mode :: AuthMode

record rotatingInjector =
  ri_keys :: "string list"
  ri_store :: "Store option"
  ri_route :: string
  ri_mode :: AuthMode
  ri_header :: string
  ri_prefix :: string

datatype Authenticator =
    BearerInjector string
  | Passthrough
  | Leased leasedInjector
  | Rotating rotatingInjector

datatype auth_error = CredentialEmpty | LeaseRequired string

definition leased_Apply :: "(string \<Rightarrow> string \<Rightarrow> bool) \<Rightarrow> leasedInjector \<Rightarrow> Header \<Rightarrow> auth_error + Header" where
  "leased_Apply ufold l h =
     (if li_key l = [] then Inl CredentialEmpty
      else let name = (if li_header l = [] then ''Authorization'' else li_header l);
               h1 = (if \<not> EqualFold ufold name ''Authorization'' then Header_Del h ''Authorization'' else h)
           in Inr (Header_Set h1 name (li_prefix l @ li_key l)))"

fun Apply :: "(string \<Rightarrow> string \<Rightarrow> bool) \<Rightarrow> Authenticator \<Rightarrow> Header \<Rightarrow> auth_error + Header" where
  "Apply ufold (BearerInjector key) h =
     (if key = [] then Inl CredentialEmpty else Inr (Header_Set h ''Authorization'' (''Bearer '' @ key)))"
| "Apply ufold Passthrough h = Inr h"
| "Apply ufold (Leased l) h = leased_Apply ufold l h"
| "Apply ufold (Rotating r) h = Inl (LeaseRequired (ri_route r))"

fun auth_Mode :: "Authenticator \<Rightarrow> AuthMode" where
  "auth_Mode (BearerInjector _) = AuthInject"
| "auth_Mode Passthrough = AuthPassthrough"
| "auth_Mode (Leased l) = (if li_mode l = [] then AuthInject else li_mode l)"
| "auth_Mode (Rotating r) = ri_mode r"

text \<open>\<open>leaseFor\<close>: the authenticator bound to the leased key with its lease, or the refusal.
  \<open>now\<close> is the store's clock; the failure settlement of an index without a key reads it again.\<close>

definition leaseFor ::
  "time \<Rightarrow> rotatingInjector \<Rightarrow> ((Authenticator \<times> KeyLease) option \<times> admissionRefusal) \<times> rotatingInjector" where
  "leaseFor now r =
     (case ri_store r of
        None \<Rightarrow> ((None, refusalDrained), r)
      | Some st \<Rightarrow>
          (case acquire now (ri_route r) st of
             ((Some lease, _), st') \<Rightarrow>
               (let i = kl_index lease
                in if i < 0 \<or> int (length (ri_keys r)) \<le> i
                   then ((None, refusalDrained),
                         r\<lparr>ri_store := Some (snd (fst (Settle now
                             \<lparr>us_Outcome = OutcomeFailed, us_Tokens = 0, us_Estimated = False\<rparr> lease st')))\<rparr>)
                   else ((Some (Leased \<lparr>li_key = ri_keys r ! nat i, li_header = ri_header r,
                                        li_prefix = ri_prefix r, li_mode = ri_mode r\<rparr>, lease), refusalNone),
                         r\<lparr>ri_store := Some st'\<rparr>))
           | ((None, refusal), st') \<Rightarrow> ((None, refusal), r\<lparr>ri_store := Some st'\<rparr>)))"

definition retryAfter :: "time \<Rightarrow> rotatingInjector \<Rightarrow> duration \<times> rotatingInjector" where
  "retryAfter now r =
     (case ri_store r of
        None \<Rightarrow> (MinRetryAfter, r)
      | Some st \<Rightarrow>
          (case RetryAfter now (ri_route r) st of
             ((d, ok), st') \<Rightarrow> (if ok then d else MinRetryAfter, r\<lparr>ri_store := Some st'\<rparr>)))"

definition injector_retire ::
  "time \<Rightarrow> int \<Rightarrow> RetireReason \<Rightarrow> rotatingInjector \<Rightarrow> rotatingInjector \<times> retire_event list" where
  "injector_retire now idx reason r =
     (case ri_store r of
        None \<Rightarrow> (r, [])
      | Some st \<Rightarrow>
          (case retireForWindow now (ri_route r) idx reason st of
             (st', ev) \<Rightarrow> (r\<lparr>ri_store := Some st'\<rparr>, ev)))"

definition injector_retireUntil ::
  "time \<Rightarrow> int \<Rightarrow> time \<Rightarrow> RetireReason \<Rightarrow> rotatingInjector \<Rightarrow> rotatingInjector \<times> retire_event list" where
  "injector_retireUntil now idx until reason r =
     (case ri_store r of
        None \<Rightarrow> (r, [])
      | Some st \<Rightarrow>
          (case RetireWithReason now (ri_route r) idx until reason st of
             (st', ev) \<Rightarrow> (r\<lparr>ri_store := Some st'\<rparr>, ev)))"

record KeyInventory =
  ki_Mode :: AuthMode
  ki_Pooled :: bool
  ki_Keys :: int
  ki_Available :: int
  ki_Degraded :: bool

definition inventory :: "time \<Rightarrow> rotatingInjector \<Rightarrow> KeyInventory \<times> rotatingInjector" where
  "inventory now r =
     (let (avail, r') =
        (case ri_store r of
           None \<Rightarrow> (0, r)
         | Some st \<Rightarrow>
             (case Snapshot now (ri_route r) st of
                (sts, st') \<Rightarrow> (int (length (filter ks_Selectable sts)), r\<lparr>ri_store := Some st'\<rparr>)))
      in (\<lparr>ki_Mode = ri_mode r, ki_Pooled = True, ki_Keys = int (length (ri_keys r)),
           ki_Available = avail, ki_Degraded = (avail = 0)\<rparr>, r'))"

datatype construct_error =
    PoolFailed pool_error
  | CredentialFailed string secret_failure
  | CredentialBlank string
  | UnsupportedAuth string AuthMode
  | PooledNeedsServer string

definition newAuthenticatorFor ::
  "(string \<Rightarrow> 's \<Rightarrow> secret_result \<times> 's) \<Rightarrow> Route \<Rightarrow> Store option \<Rightarrow> 's
   \<Rightarrow> (construct_error + Authenticator) \<times> 's" where
  "newAuthenticatorFor sp r st s =
     (if r_Auth r = AuthInject \<or> r_Auth r = AuthHeaderInject
      then let header = (if r_Auth r = AuthHeaderInject then r_KeyHeader r else ''Authorization'');
               prefix = (if r_Auth r = AuthHeaderInject then r_KeyPrefix r else ''Bearer '')
           in if hasPluralKeys r
              then (case resolveKeyPool sp r s of
                      (Inl e, s') \<Rightarrow> (Inl (PoolFailed e), s')
                    | (Inr keys, s') \<Rightarrow>
                        (Inr (Rotating \<lparr>ri_keys = keys, ri_store = st, ri_route = r_Name r, ri_mode = r_Auth r,
                                ri_header = header, ri_prefix = prefix\<rparr>), s'))
              else (case resolveFirst sp (secretRefs (r_KeyRef r) (r_KeyEnv r) (r_KeyFile r)) s of
                      (Inl e, s') \<Rightarrow> (Inl (CredentialFailed (r_Name r) e), s')
                    | (Inr key, s') \<Rightarrow>
                        if TrimSpace key = [] then (Inl (CredentialBlank (r_Name r)), s')
                        else if r_Auth r = AuthInject then (Inr (BearerInjector key), s')
                        else (Inr (Leased \<lparr>li_key = key, li_header = header, li_prefix = prefix,
                                           li_mode = AuthHeaderInject\<rparr>), s'))
      else if r_Auth r = AuthPassthrough then (Inr Passthrough, s)
      else (Inl (UnsupportedAuth (r_Name r) (r_Auth r)), s))"

definition NewAuthenticator :: "secret_world \<Rightarrow> Route \<Rightarrow> construct_error + Authenticator" where
  "NewAuthenticator w r =
     (if hasPluralKeys r then Inl (PooledNeedsServer (r_Name r))
      else fst (newAuthenticatorFor Resolver_Resolve r None (NewDefaultSecretProvider w)))"

section \<open>Forwarding\<close>

record boundRoute =
  br_Route :: Route
  br_Auth :: Authenticator

definition callerCredentialHeaders :: "string list" where
  "callerCredentialHeaders =
     [''Authorization'', ''Proxy-Authorization'', ''X-Api-Key'', ''Api-Key'', ''X-Goog-Api-Key'', ''Cookie'',
      ''OpenAI-Organization'', ''OpenAI-Project'']"

definition modesSupplyingTheirOwnCredential :: "AuthMode \<Rightarrow> bool" where
  "modesSupplyingTheirOwnCredential m \<longleftrightarrow> m = AuthPassthrough"

definition isCallerCredential :: "(string \<Rightarrow> string \<Rightarrow> bool) \<Rightarrow> string \<Rightarrow> string \<Rightarrow> bool" where
  "isCallerCredential ufold name routeKeyHeader \<longleftrightarrow>
     list_ex (EqualFold ufold name) callerCredentialHeaders
     \<or> (TrimSpace routeKeyHeader \<noteq> [] \<and> EqualFold ufold name (TrimSpace routeKeyHeader))"

definition TrimRight :: "string \<Rightarrow> char \<Rightarrow> string" where
  "TrimRight s c = rev (dropWhile (\<lambda>d. d = c) (rev s))"

definition upstream_path :: "string \<Rightarrow> string \<Rightarrow> string" where
  "upstream_path path prefix =
     (let p = TrimPrefix path (TrimSuffix prefix ''/'')
      in if HasPrefix p ''/'' then p else ''/'' @ p)"

definition upstream_target :: "Route \<Rightarrow> Request \<Rightarrow> string" where
  "upstream_target r req =
     TrimRight (r_Upstream r) (CHR ''/'') @ upstream_path (rq_Path req) (r_Prefix r)
       @ (if rq_RawQuery req \<noteq> [] then ''?'' @ rq_RawQuery req else [])"

definition copy_headers ::
  "(string \<Rightarrow> string) \<Rightarrow> (string \<Rightarrow> string \<Rightarrow> bool) \<Rightarrow> bool \<Rightarrow> string \<Rightarrow> Header \<Rightarrow> Header" where
  "copy_headers uni ufold stripCaller keyHeader h =
     fold (\<lambda>(k, vs) out.
        if ToLower uni k \<in> set hopByHop then out
        else if stripCaller \<and> isCallerCredential ufold k keyHeader then out
        else fold (\<lambda>v out. Header_Add out k v) vs out) h []"

record Outbound =
  ob_Method :: string
  ob_Target :: string
  ob_Header :: Header
  ob_ContentLength :: int

datatype forward_error = BuildFailed | ApplyFailed auth_error

text \<open>\<open>Forward\<close> up to the call of the HTTP client: the request that leaves the gateway.\<close>

definition Forward ::
  "(string \<Rightarrow> string) \<Rightarrow> (string \<Rightarrow> string \<Rightarrow> bool) \<Rightarrow> (string \<Rightarrow> string \<Rightarrow> bool) \<Rightarrow> Request \<Rightarrow> boundRoute
   \<Rightarrow> forward_error + Outbound" where
  "Forward uni ufold new_request req rt =
     (let target = upstream_target (br_Route rt) req
      in if \<not> new_request (rq_Method req) target then Inl BuildFailed
         else let strip = (\<not> modesSupplyingTheirOwnCredential (auth_Mode (br_Auth rt)));
                  h1 = copy_headers uni ufold strip (r_KeyHeader (br_Route rt)) (rq_Header req);
                  h2 = Header_Set h1 ''User-Agent'' ''helixchannel-gateway/1''
              in case Apply ufold (br_Auth rt) h2 of
                   Inl e \<Rightarrow> Inl (ApplyFailed e)
                 | Inr h3 \<Rightarrow> Inr \<lparr>ob_Method = rq_Method req, ob_Target = target, ob_Header = h3,
                                 ob_ContentLength = rq_ContentLength req\<rparr>)"

record Response =
  rp_StatusCode :: int
  rp_Header :: Header
  rp_Chunks :: "string list"
  rp_RequestHost :: "string option"

definition redirectNotFollowed :: "Response \<Rightarrow> bool" where
  "redirectNotFollowed resp \<longleftrightarrow>
     \<not> (rp_StatusCode resp < 300 \<or> 399 < rp_StatusCode resp) \<and> Header_Get (rp_Header resp) ''Location'' \<noteq> []"

definition contactedHost :: "Response \<Rightarrow> string" where
  "contactedHost resp = (case rp_RequestHost resp of None \<Rightarrow> [] | Some h \<Rightarrow> h)"


section \<open>Header laws\<close>

lemma map_of_filter_key: "map_of (filter (\<lambda>(k', _). k' \<noteq> k) h) k' = (if k' = k then None else map_of h k')"
  by (induction h) auto

lemma header_values_put [simp]:
  "header_values (header_put h k vs) k' = (if k' = k then vs else header_values h k')"
  by (simp add: header_values_def header_put_def map_of_filter_key)

lemma header_values_Nil [simp]: "header_values [] k = []"
  by (simp add: header_values_def)

lemma header_values_Set [simp]:
  "header_values (Header_Set h k v) k' = (if k' = CanonicalHeaderKey k then [v] else header_values h k')"
  by (simp add: Header_Set_def)

lemma header_values_Del [simp]:
  "header_values (Header_Del h k) k' = (if k' = CanonicalHeaderKey k then [] else header_values h k')"
  by (simp add: Header_Del_def header_values_def map_of_filter_key)

lemma header_values_Add [simp]:
  "header_values (Header_Add h k v) k'
     = (if k' = CanonicalHeaderKey k then header_values h k' @ [v] else header_values h k')"
  by (simp add: Header_Add_def Let_def)

lemma Header_Get_values: "header_values h (CanonicalHeaderKey k) = [v] \<Longrightarrow> Header_Get h k = v"
  by (simp add: Header_Get_def)

lemma header_values_add_all:
  "header_values (fold (\<lambda>v out. Header_Add out k v) vs h) k'
     = (if k' = CanonicalHeaderKey k then header_values h k' @ vs else header_values h k')"
  by (induction vs arbitrary: h) simp_all

definition canonical_header :: "Header \<Rightarrow> bool" where
  "canonical_header h \<longleftrightarrow> distinct (map fst h) \<and> (\<forall>k \<in> set (map fst h). CanonicalHeaderKey k = k)"

definition dropped :: "(string \<Rightarrow> string) \<Rightarrow> (string \<Rightarrow> string \<Rightarrow> bool) \<Rightarrow> bool \<Rightarrow> string \<Rightarrow> string \<Rightarrow> bool" where
  "dropped uni ufold strip keyHeader k \<longleftrightarrow>
     ToLower uni k \<in> set hopByHop \<or> strip \<and> isCallerCredential ufold k keyHeader"

lemma header_values_absent: "k \<notin> set (map fst h) \<Longrightarrow> header_values h k = []"
  unfolding header_values_def by (metis map_of_eq_None_iff option.simps(4) set_map)

lemma copy_headers_fold:
  assumes "canonical_header h"
  shows "header_values (fold (\<lambda>(k, vs) out.
        if ToLower uni k \<in> set hopByHop then out
        else if strip \<and> isCallerCredential ufold k kh then out
        else fold (\<lambda>v out. Header_Add out k v) vs out) h out) k
     = header_values out k @ (if dropped uni ufold strip kh k then [] else header_values h k)"
  using assms
proof (induction h arbitrary: out)
  case (Cons e h)
  obtain k0 vs where e: "e = (k0, vs)" by (cases e)
  from Cons.prems e have ch: "canonical_header h" "CanonicalHeaderKey k0 = k0" "k0 \<notin> set (map fst h)"
    by (auto simp: canonical_header_def)
  have hv: "header_values (e # h) k = (if k = k0 then vs else header_values h k)"
    by (auto simp: e header_values_def)
  have absent: "header_values h k0 = []" by (rule header_values_absent [OF ch(3)])
  show ?case
    using absent by (cases "dropped uni ufold strip kh k0")
      (auto simp: e Cons.IH [OF ch(1)] hv [unfolded e] header_values_add_all ch(2) dropped_def)
qed simp

lemma header_values_copy:
  "canonical_header h \<Longrightarrow>
     header_values (copy_headers uni ufold strip kh h) k
       = (if dropped uni ufold strip kh k then [] else header_values h k)"
  unfolding copy_headers_def by (subst copy_headers_fold) simp_all

section \<open>Applying a credential\<close>

text \<open>The header an authenticator writes and its value.\<close>

fun credential :: "Authenticator \<Rightarrow> (string \<times> string) option" where
  "credential (BearerInjector key) = Some (''Authorization'', ''Bearer '' @ key)"
| "credential (Leased l) =
     Some (if li_header l = [] then ''Authorization'' else li_header l, li_prefix l @ li_key l)"
| "credential _ = None"

lemma Apply_values:
  assumes "Apply ufold auth h = Inr h'" "credential auth = Some (name, cred)"
  shows "header_values h' k = (if k = CanonicalHeaderKey name then [cred]
     else if k = CanonicalHeaderKey ''Authorization'' \<and> header_values h' k = [] then [] else header_values h k)"
  using assms by (cases auth) (auto simp: leased_Apply_def Let_def split: if_splits)

lemma canonical_Authorization: "CanonicalHeaderKey ''Authorization'' = ''Authorization''"
  by code_simp

lemma canonical_User_Agent: "CanonicalHeaderKey ''User-Agent'' = ''User-Agent''"
  by code_simp

lemma Authorization_is_credential: "isCallerCredential ufold ''Authorization'' kh"
proof -
  have "is_ascii ''Authorization''" by code_simp
  then show ?thesis by (simp add: isCallerCredential_def callerCredentialHeaders_def)
qed

lemma header_values_User_Agent:
  "header_values (Header_Set h ''User-Agent'' v) k = (if k = ''User-Agent'' then [v] else header_values h k)"
  by (simp add: canonical_User_Agent)

lemma upstream_path_slash: "HasPrefix (upstream_path path prefix) ''/''"
  by (simp add: upstream_path_def Let_def HasPrefix_def)

text \<open>The path a matched request is sent to: what follows the route prefix.\<close>

lemma upstream_path_matched:
  assumes "prefix = ''/'' @ p @ ''/'' \<or> prefix = ''/''"
  shows "upstream_path (prefix @ rest) prefix = ''/'' @ rest"
proof -
  from assms obtain q where q: "prefix = q @ ''/''" by (metis append.assoc append_Nil)
  then have "TrimSuffix prefix ''/'' = q" by (auto simp: TrimSuffix_def HasSuffix_iff)
  then show ?thesis by (simp add: upstream_path_def q TrimPrefix_def HasPrefix_def)
qed

text \<open>A constructed authenticator is in passthrough mode exactly when it holds no credential.\<close>

lemma newAuthenticatorFor_mode:
  assumes "newAuthenticatorFor sp r st s = (Inr auth, s')"
  shows "auth_Mode auth = r_Auth r \<and> (auth_Mode auth = AuthPassthrough \<longleftrightarrow> auth = Passthrough)"
  using assms
  by (auto simp: newAuthenticatorFor_def Let_def AuthInject_def AuthHeaderInject_def AuthPassthrough_def
      split: if_splits prod.splits sum.splits)

section \<open>Properties\<close>


definition example_request :: Request where
  "example_request = \<lparr>rq_Method = ''POST'', rq_Path = ''/mm/v1/models'', rq_RawQuery = [], rq_Host = ''gw'', rq_URLHost = [],
     rq_RemoteAddr = ''10.0.0.7:5000'', rq_LocalAddr = None,
     rq_Header = [(''X-Api-Key'', [''stolen'']), (''Accept'', [''*/*'']), (''Authorization'', [''Bearer placeholder''])],
     rq_ContentLength = 2\<rparr>"

definition example_bound :: boundRoute where
  "example_bound = \<lparr>br_Route = example_pool_route, br_Auth = Leased \<lparr>li_key = ''k1'', li_header = ''Authorization'',
     li_prefix = ''Bearer '', li_mode = AuthInject\<rparr>\<rparr>"

lemma example_forward:
  "\<exists>out. Forward id (\<lambda>_ _. False) (\<lambda>_ _. True) example_request example_bound = Inr out"
  by (simp add: Forward_def Let_def example_bound_def leased_Apply_def)

lemma example_request_canonical: "canonical_header (rq_Header example_request)"
  unfolding canonical_header_def by code_simp


end
