(* ===== verification/Vendor_Usage.thy ===== *)
theory Vendor_Usage
  imports Rotation_Store Go_Net
begin

text \<open>
  What the gateway reads off a response while relaying it: the rolling tail and the token
  usage in it (\<open>internal/channel/usage.go\<close>) and the vendor error code with its cooldown
  (\<open>internal/channel/vendor_error.go\<close>).  A position in a byte slice is the suffix that
  starts there.  The clock readings are arguments.
\<close>

section \<open>Byte searches\<close>

text \<open>\<open>bytes.LastIndex\<close>.\<close>

definition LastIndex :: "string \<Rightarrow> string \<Rightarrow> nat option" where
  "LastIndex s sub = map_option (\<lambda>i. length s - length sub - i) (str_index (rev s) (rev sub))"

text \<open>\<open>strconv.ParseInt(s, 10, 64)\<close>, and \<open>strconv.Atoi\<close> on a 64-bit platform.\<close>

definition ParseInt :: "string \<Rightarrow> int option" where
  "ParseInt s =
     (case s of
        [] \<Rightarrow> None
      | c # t \<Rightarrow>
          (let neg = (c = CHR ''-''); u = (if neg \<or> c = CHR ''+'' then t else s)
           in case ParseUint u 10 of
                None \<Rightarrow> None
              | Some n \<Rightarrow> if neg then (if 9223372036854775808 < n then None else Some (- n))
                          else if max_int64 < n then None else Some n))"

lemma LastIndex_SomeD:
  assumes "LastIndex s sub = Some i"
  shows "i + length sub \<le> length s" "HasPrefix (drop i s) sub"
proof -
  obtain j where j: "str_index (rev s) (rev sub) = Some j" and i: "i = length s - length sub - j"
    using assms by (auto simp: LastIndex_def)
  from str_index_SomeD [OF j] obtain r where r: "drop j (rev s) = rev sub @ r" "j \<le> length s"
    by (auto simp: HasPrefix_iff)
  have l: "length s = j + (length sub + length r)"
    using arg_cong [OF r(1), of length] r(2) by simp
  have "rev s = take j (rev s) @ rev sub @ r" by (metis append_take_drop_id r(1))
  then have s: "s = rev r @ sub @ rev (take j (rev s))"
    by (metis rev_append rev_rev_ident append.assoc)
  have "i = length (rev r)" using l i by simp
  then have "drop i s = sub @ rev (take j (rev s))" by (subst s) simp
  then show "HasPrefix (drop i s) sub" by simp
  show "i + length sub \<le> length s" using l i by simp
qed

section \<open>Token usage\<close>

definition UsageTailBytes :: nat where "UsageTailBytes = 8192"

definition usageMarker :: string where "usageMarker = ''\"total_tokens\"''"

record tailExtractor =
  te_tail :: string

definition NewUsageExtractor :: tailExtractor where
  "NewUsageExtractor = \<lparr>te_tail = []\<rparr>"

definition Observe :: "string \<Rightarrow> tailExtractor \<Rightarrow> tailExtractor" where
  "Observe b e =
     (if b = [] then e
      else let tail = te_tail e @ b
           in if UsageTailBytes < length tail
              then e\<lparr>te_tail := drop (length tail - UsageTailBytes) tail\<rparr>
              else e\<lparr>te_tail := tail\<rparr>)"

definition is_json_space :: "char \<Rightarrow> bool" where
  "is_json_space c \<longleftrightarrow> c = CHR '' '' \<or> c = CHR 0x09 \<or> c = CHR 0x0A \<or> c = CHR 0x0D"

definition skipSpace :: "string \<Rightarrow> string" where
  "skipSpace b = dropWhile is_json_space b"

definition endsJSONValue :: "char \<Rightarrow> bool" where
  "endsJSONValue c \<longleftrightarrow> c = CHR '','' \<or> c = CHR ''}'' \<or> c = CHR '']'' \<or> is_json_space c"

definition parseUsageValue :: "string \<Rightarrow> int option" where
  "parseUsageValue b =
     (case skipSpace b of
        [] \<Rightarrow> None
      | c # b1 \<Rightarrow>
          if c \<noteq> CHR '':'' then None
          else let b2 = skipSpace b1; ds = takeWhile is_digit b2
               in case dropWhile is_digit b2 of
                    [] \<Rightarrow> None
                  | t # _ \<Rightarrow> if ds = [] \<or> \<not> endsJSONValue t then None else ParseInt ds)"

function usage_scan :: "string \<Rightarrow> UsageSample" where
  "usage_scan rest =
     (case LastIndex rest usageMarker of
        None \<Rightarrow> \<lparr>us_Outcome = OutcomeCompleted, us_Tokens = TokensUnknown, us_Estimated = True\<rparr>
      | Some pos \<Rightarrow>
          (case parseUsageValue (drop (pos + length usageMarker) rest) of
             Some n \<Rightarrow> \<lparr>us_Outcome = OutcomeCompleted, us_Tokens = n, us_Estimated = False\<rparr>
           | None \<Rightarrow> usage_scan (take pos rest)))"
  by auto
termination
proof (relation "measure length")
  fix rest pos
  assume "LastIndex rest usageMarker = Some pos"
  from LastIndex_SomeD(1) [OF this] show "(take pos rest, rest) \<in> measure length"
    by (simp add: usageMarker_def)
qed simp

declare usage_scan.simps [simp del]

definition Result :: "tailExtractor \<Rightarrow> UsageSample" where
  "Result e = usage_scan (te_tail e)"

section \<open>Vendor errors\<close>

datatype VendorClass =
    VendorNone | VendorTransient | VendorRateLimited | VendorQuotaWindow | VendorBalance
  | VendorRequest | VendorAuth

definition VendorRateCooldown :: duration where "VendorRateCooldown = 30 * Second"
definition VendorBalanceCooldown :: duration where "VendorBalanceCooldown = 15 * Minute"
definition VendorQuotaFallbackWindow :: duration where "VendorQuotaFallbackWindow = 5 * Hour"

record VendorSignal =
  vs_Code :: int
  vs_Class :: VendorClass
  vs_ResetAt :: time

definition Retires :: "VendorSignal \<Rightarrow> bool" where
  "Retires v \<longleftrightarrow> vs_Class v \<in> {VendorRateLimited, VendorQuotaWindow, VendorBalance}"

definition signal_Reason :: "VendorSignal \<Rightarrow> RetireReason" where
  "signal_Reason v =
     (case vs_Class v of
        VendorRateLimited \<Rightarrow> ReasonRateLimit
      | VendorBalance \<Rightarrow> ReasonBalance
      | VendorQuotaWindow \<Rightarrow> ReasonQuota
      | _ \<Rightarrow> ReasonError)"

definition classifyVendorCode :: "int \<Rightarrow> VendorClass" where
  "classifyVendorCode code =
     (if code = 0 then VendorNone
      else if code \<in> {1002, 1041, 2045} then VendorRateLimited
      else if code = 2056 then VendorQuotaWindow
      else if code = 1008 then VendorBalance
      else if code \<in> {1004, 2049} then VendorAuth
      else if code \<in> {1039, 2013, 1026, 1027, 1042} then VendorRequest
      else if code \<in> {1000, 1001, 1024, 1033} then VendorTransient
      else VendorNone)"

definition baseRespMarker :: string where "baseRespMarker = ''\"base_resp\"''"
definition statusCodeField :: string where "statusCodeField = ''\"status_code\"''"

definition parseIntAfter :: "string \<Rightarrow> int option" where
  "parseIntAfter b =
     (let b1 = dropWhile (\<lambda>c. c = CHR '':'' \<or> is_json_space c \<or> c = CHR 0x22) b;
          sign = (case b1 of [] \<Rightarrow> [] | c # _ \<Rightarrow> if c = CHR ''-'' then [c] else []);
          lit = sign @ takeWhile is_digit (drop (length sign) b1)
      in if lit = [] then None else ParseInt lit)"

definition resetMarkers :: "string list" where
  "resetMarkers =
     [''\"reset_at\"'', ''\"reset_time\"'', ''\"reset\"'', ''\"next_reset_time\"'', ''\"recovery_time\"'']"

fun reset_scan :: "time \<Rightarrow> string \<Rightarrow> string list \<Rightarrow> time" where
  "reset_scan now b [] = zero_time"
| "reset_scan now b (m # ms) =
     (case str_index b m of
        None \<Rightarrow> reset_scan now b ms
      | Some pos \<Rightarrow>
          (case parseIntAfter (drop (pos + length m) b) of
             None \<Rightarrow> reset_scan now b ms
           | Some n \<Rightarrow>
               if n \<le> 0 then reset_scan now b ms
               else let t = (if 100000000000 < n then n * Millisecond else n * Second)
                    in if now < t then t else reset_scan now b ms))"

definition parseResetAt :: "time \<Rightarrow> string \<Rightarrow> time" where
  "parseResetAt now b = reset_scan now b resetMarkers"

text \<open>The signal and whether it is one; \<open>now\<close> is the wall clock \<open>parseResetAt\<close> reads.\<close>

definition zero_signal :: VendorSignal where
  "zero_signal = \<lparr>vs_Code = 0, vs_Class = VendorNone, vs_ResetAt = zero_time\<rparr>"

definition parseVendorSignal :: "time \<Rightarrow> string \<Rightarrow> VendorSignal \<times> bool" where
  "parseVendorSignal now tail =
     (if tail = [] then (zero_signal, False)
      else let search0 = (case LastIndex tail baseRespMarker of None \<Rightarrow> tail | Some pos \<Rightarrow> drop pos tail);
               found = (case str_index search0 statusCodeField of
                          Some pos \<Rightarrow> Some (pos, search0)
                        | None \<Rightarrow> (case LastIndex tail statusCodeField of
                                    Some pos \<Rightarrow> Some (pos, tail)
                                  | None \<Rightarrow> None))
           in case found of
                None \<Rightarrow> (zero_signal, False)
              | Some (pos, search) \<Rightarrow>
                  (case parseIntAfter (drop (pos + length statusCodeField) search) of
                     None \<Rightarrow> (zero_signal, False)
                   | Some code \<Rightarrow>
                       (let class = classifyVendorCode code
                        in if class = VendorNone then (zero_signal\<lparr>vs_Code := code\<rparr>, False)
                           else (\<lparr>vs_Code = code, vs_Class = class, vs_ResetAt = parseResetAt now search\<rparr>, True))))"

definition extractor_VendorSignal :: "time \<Rightarrow> tailExtractor \<Rightarrow> VendorSignal \<times> bool" where
  "extractor_VendorSignal now e = parseVendorSignal now (te_tail e)"

definition vendorRetireUntil :: "VendorSignal \<Rightarrow> time \<Rightarrow> time \<Rightarrow> time" where
  "vendorRetireUntil v now windowEnd =
     (case vs_Class v of
        VendorRateLimited \<Rightarrow> now + VendorRateCooldown
      | VendorBalance \<Rightarrow> now + VendorBalanceCooldown
      | VendorQuotaWindow \<Rightarrow>
          if vs_ResetAt v \<noteq> zero_time \<and> now < vs_ResetAt v then vs_ResetAt v
          else if now < windowEnd then windowEnd
          else now + VendorQuotaFallbackWindow
      | _ \<Rightarrow> zero_time)"

section \<open>The tail is the end of the body\<close>

definition last_bytes :: "nat \<Rightarrow> string \<Rightarrow> string" where
  "last_bytes n s = drop (length s - n) s"

lemma last_bytes_append: "last_bytes n (last_bytes n s @ t) = last_bytes n (s @ t)"
  unfolding last_bytes_def by (cases "n \<le> length s") (auto simp: add.commute)

lemma Observe_tail: "te_tail e = last_bytes UsageTailBytes s \<Longrightarrow> te_tail (Observe b e) = last_bytes UsageTailBytes (s @ b)"
  using last_bytes_append [of UsageTailBytes s b]
  by (auto simp: Observe_def Let_def last_bytes_def)

lemma fold_Observe_tail:
  "te_tail e = last_bytes UsageTailBytes s \<Longrightarrow>
     te_tail (fold Observe chunks e) = last_bytes UsageTailBytes (s @ concat chunks)"
proof (induction chunks arbitrary: s e)
  case (Cons b chunks)
  from Cons.IH [OF Observe_tail [OF Cons.prems]] show ?case by simp
qed simp

lemma observed_tail: "te_tail (fold Observe chunks NewUsageExtractor) = last_bytes UsageTailBytes (concat chunks)"
  using fold_Observe_tail [of NewUsageExtractor "[]"] by (simp add: NewUsageExtractor_def last_bytes_def)

lemma last_bytes_suffix: "length t \<le> n \<Longrightarrow> \<exists>p. last_bytes n (s @ t) = p @ t"
  unfolding last_bytes_def by simp

section \<open>Reading a reported total\<close>

lemma str_index_first: "HasPrefix (drop j s) sub \<Longrightarrow> j \<le> length s \<Longrightarrow> \<exists>i \<le> j. str_index s sub = Some i"
proof (induction s arbitrary: j)
  case (Cons c s)
  show ?case
  proof (cases j)
    case (Suc k)
    then obtain i where "i \<le> k" "str_index s sub = Some i" using Cons.IH [of k] Cons.prems by auto
    then show ?thesis using Suc by auto
  qed (use Cons.prems in simp)
qed (auto simp: HasPrefix_iff)

lemma LastIndex_ge: "\<exists>i. LastIndex (a @ sub @ b) sub = Some i \<and> length a \<le> i"
proof -
  obtain j where "j \<le> length b" "str_index (rev (a @ sub @ b)) (rev sub) = Some j"
    using str_index_first [of "length b" "rev (a @ sub @ b)" "rev sub"] by auto
  then show ?thesis by (auto simp: LastIndex_def)
qed

text \<open>The last occurrence is found when the text after it holds no further one; the quotes
  around the field name keep two occurrences from overlapping.\<close>

lemma LastIndex_usage:
  assumes "\<not> str_contains r usageMarker"
  shows "LastIndex (p @ usageMarker @ CHR '':'' # r) usageMarker = Some (length p)"
proof -
  let ?s = "p @ usageMarker @ CHR '':'' # r"
  obtain i where i: "LastIndex ?s usageMarker = Some i" "length p \<le> i"
    using LastIndex_ge by blast
  have "drop i ?s = drop (i - length p) (usageMarker @ CHR '':'' # r)" using i(2) by simp
  moreover have "HasPrefix (drop i ?s) usageMarker" by (rule LastIndex_SomeD(2) [OF i(1)])
  moreover have no: "\<not> HasPrefix (drop k (usageMarker @ CHR '':'' # r)) usageMarker" if "0 < k" for k
  proof (cases "k \<le> length usageMarker")
    case True
    then have "k \<in> {1, 2, 3, 4, 5, 6, 7, 8, 9, 10, 11, 12, 13, 14}"
      using that by (simp add: usageMarker_def) presburger
    then show ?thesis by (elim insertE) (simp_all add: usageMarker_def HasPrefix_def)
  next
    case False
    then obtain m where m: "k = length usageMarker + Suc m" by (metis less_iff_Suc_add not_le add_Suc_right)
    have "drop k (usageMarker @ CHR '':'' # r) = drop m r" by (simp add: m)
    then show ?thesis using assms unfolding HasPrefix_iff str_contains_iff by (metis append_take_drop_id)
  qed
  ultimately have "i - length p = 0" by (metis neq0_conv)
  with i show ?thesis by simp
qed

lemma is_digit_digits: "c \<in> set (digits 10 n) \<Longrightarrow> is_digit c"
proof (induction "10::nat" n rule: digits.induct)
  case (1 n)
  have d: "is_digit (digit_char d)" if "d < 10" for d
  proof -
    from that have "d \<in> {0, 1, 2, 3, 4, 5, 6, 7, 8, 9}" by auto
    then show ?thesis by (elim insertE) (simp_all add: digit_char_def is_digit_def)
  qed
  show ?case
    using 1 d [of n] d [of "n mod 10"] by (cases "n < 10") (auto simp: digits.simps [of 10 n])
qed

lemma takeWhile_digits:
  assumes "\<not> is_digit t"
  shows "takeWhile is_digit (digits 10 n @ t # r) = digits 10 n"
    and "dropWhile is_digit (digits 10 n @ t # r) = t # r"
  using assms is_digit_digits by (simp_all add: takeWhile_append2 dropWhile_append2)

lemma digits_head_digit: "\<exists>c cs. digits 10 n = c # cs \<and> is_digit c"
  using is_digit_digits [of _ n] digits_nonempty [of 10 n] by (cases "digits 10 n") auto

lemma ParseInt_digits:
  assumes "int n \<le> max_int64"
  shows "ParseInt (digits 10 n) = Some (int n)"
proof -
  obtain c cs where c: "digits 10 n = c # cs" "is_digit c" using digits_head_digit by blast
  then have "c \<noteq> CHR ''-''" "c \<noteq> CHR ''+''" by (auto simp: is_digit_def)
  moreover have "parse_uint_loop 10 0 (c # cs) = Some (int n)"
    using parse_digits [of 10 n] assms c by simp
  ultimately show ?thesis using assms c by (simp add: ParseInt_def ParseUint_def)
qed

lemma parseUsageValue_digits:
  assumes "endsJSONValue t" "int n \<le> max_int64"
  shows "parseUsageValue (CHR '':'' # digits 10 n @ t # r) = Some (int n)"
proof -
  obtain c cs where c: "digits 10 n = c # cs" "is_digit c" using digits_head_digit by blast
  have "\<not> is_digit t" using assms(1) by (auto simp: endsJSONValue_def is_json_space_def is_digit_def)
  note w = takeWhile_digits [OF this, of n r]
  have "skipSpace (CHR '':'' # digits 10 n @ t # r) = CHR '':'' # digits 10 n @ t # r"
    by (simp add: skipSpace_def is_json_space_def)
  moreover have "skipSpace (digits 10 n @ t # r) = digits 10 n @ t # r"
    using c by (auto simp: skipSpace_def is_json_space_def is_digit_def)
  ultimately show ?thesis
    using assms w by (simp add: parseUsageValue_def ParseInt_digits)
qed

section \<open>Properties\<close>


text \<open>A vendor code parks a key for what the code means.  A signal that retires gives a
  deadline strictly after now, at most the longer of five hours, the window end and the
  reset time the vendor named; a reset time named for a spent plan is used as it stands;
  and a code about the request, the credential or a passing fault gives no deadline, so
  retiring with it changes nothing.\<close>

theorem vendor_retirement_deadline:
  assumes "zero_time \<le> now"
  shows "(Retires v \<longleftrightarrow> now < vendorRetireUntil v now windowEnd)
    \<and> vendorRetireUntil v now windowEnd \<le> max (now + VendorQuotaFallbackWindow) (max windowEnd (vs_ResetAt v))
    \<and> (vs_Class v = VendorQuotaWindow \<and> now < vs_ResetAt v \<longrightarrow> vendorRetireUntil v now windowEnd = vs_ResetAt v)
    \<and> (\<not> Retires v \<longrightarrow> retireLocked k now (vendorRetireUntil v now windowEnd) reason = (k, []))"
  using assms
  by (cases "vs_Class v")
    (auto simp: Retires_def vendorRetireUntil_def VendorRateCooldown_def VendorBalanceCooldown_def
       VendorQuotaFallbackWindow_def retireLocked_def)


theorem vendor_retirement_deadline_witness:
  "vendorRetireUntil \<lparr>vs_Code = 2056, vs_Class = VendorQuotaWindow, vs_ResetAt = 7000\<rparr> 5 0 = 7000"
  using vendor_retirement_deadline [of 5 "\<lparr>vs_Code = 2056, vs_Class = VendorQuotaWindow, vs_ResetAt = 7000\<rparr>" 0]
  by (simp add: zero_time_def)

end
