(* ===== verification/Gateway.thy ===== *)
theory Gateway
  imports Gateway_Auth Vendor_Usage
begin

text \<open>
  The reverse-proxy leg of the gateway, \<open>internal/channel/server.go\<close>: construction from a
  validated configuration, longest-prefix routing, the handler with its key lease, the
  settlement of the lease, the refusal answers and the health report.  The handler is
  split where it waits for the upstream: \<open>proxy_admit\<close> runs up to the forward,
  \<open>proxy_finish\<close> from its outcome on, and other requests may run in between.  Clock
  readings, the HTTP client (\<open>client_do\<close>) and the client connection (\<open>write\<close>) are
  arguments; audit lines, metrics and retirements are returned as \<open>effects\<close>.
\<close>

section \<open>Data\<close>

record AuditEvent =
  ae_Event :: string
  ae_RequestID :: string
  ae_Route :: string
  ae_AuthMode :: string
  ae_Method :: string
  ae_Path :: string
  ae_Upstream :: string
  ae_UpstreamHost :: string
  ae_Target :: string
  ae_Status :: int
  ae_LatencyMS :: int
  ae_BytesOut :: int
  ae_ClientAddr :: string
  ae_Caller :: string
  ae_Error :: string
  ae_KeyIndex :: "int option"
  ae_Tokens :: int
  ae_TokensEstimated :: bool

definition zero_event :: AuditEvent where
  "zero_event = \<lparr>ae_Event = [], ae_RequestID = [], ae_Route = [], ae_AuthMode = [], ae_Method = [], ae_Path = [],
     ae_Upstream = [], ae_UpstreamHost = [], ae_Target = [], ae_Status = 0, ae_LatencyMS = 0, ae_BytesOut = 0,
     ae_ClientAddr = [], ae_Caller = [], ae_Error = [], ae_KeyIndex = None, ae_Tokens = 0, ae_TokensEstimated = False\<rparr>"

datatype metric = ForwardFailedTotal string string | AdmissionRefusedTotal string string

record effects =
  fx_audit :: "AuditEvent list"
  fx_metrics :: "metric list"
  fx_retired :: "retire_event list"

definition no_effects :: effects where
  "no_effects = \<lparr>fx_audit = [], fx_metrics = [], fx_retired = []\<rparr>"

text \<open>\<open>sv_tunnels\<close> is the capacity of the tunnel semaphore and the slots taken; \<^const>\<open>None\<close> is the
  nil channel.\<close>

record Server =
  sv_cfg :: Config
  sv_routes :: "boundRoute list"
  sv_connToken :: string
  sv_allowed :: "string list"
  sv_scope :: listenScope
  sv_proxyAuth :: ProxyAuthMode
  sv_proxyToken :: string
  sv_trustForwardedForAudit :: bool
  sv_connectLinger :: duration
  sv_tunnels :: "(int \<times> int) option"

section \<open>Construction\<close>

definition defaultConnectHalfCloseLinger :: duration where "defaultConnectHalfCloseLinger = 30 * Second"

definition connectMaxConcurrent :: "Config \<Rightarrow> int" where
  "connectMaxConcurrent cfg =
     (if 0 < cc_MaxConcurrent (c_Connect cfg) then cc_MaxConcurrent (c_Connect cfg) else DefaultConnectMaxConcurrent)"

definition zero_RotationConfig :: RotationConfig where
  "zero_RotationConfig = \<lparr>rc_Policy = [], rc_Budget = zero_Budget, rc_MaxRetryAfter = 0\<rparr>"

definition newRotationStore :: "time \<Rightarrow> Route \<Rightarrow> nat \<Rightarrow> Store" where
  "newRotationStore start r keys =
     (let rot = (case r_Rotation r of None \<Rightarrow> zero_RotationConfig | Some c \<Rightarrow> c);
          policy = (case NewPolicy (rc_Policy rot) of Inl _ \<Rightarrow> roundRobinPolicy 0 | Inr p \<Rightarrow> p)
      in NewStore start [r_Name r \<mapsto> int keys]
           [WithPolicy (Some policy), WithBudget (rc_Budget rot), WithMaxRetryAfter (rc_MaxRetryAfter rot)])"

datatype server_error =
    RouteFailed construct_error
  | ConnectFailed secret_failure
  | ConnectBlank
  | GatewayAuthFailed secret_failure
  | GatewayAuthBlank
  | SameSecret

fun bind_routes ::
  "(string \<Rightarrow> 's \<Rightarrow> secret_result \<times> 's) \<Rightarrow> time \<Rightarrow> Route list \<Rightarrow> 's
   \<Rightarrow> (server_error + boundRoute list) \<times> 's" where
  "bind_routes sp start [] s = (Inr [], s)"
| "bind_routes sp start (r # rs) s =
     (let st = (if hasPluralKeys r then Some (newRotationStore start r (declaredKeyCount r)) else None)
      in case newAuthenticatorFor sp r st s of
           (Inl e, s1) \<Rightarrow> (Inl (RouteFailed e), s1)
         | (Inr auth, s1) \<Rightarrow>
             (case bind_routes sp start rs s1 of
                (Inl e, s2) \<Rightarrow> (Inl e, s2)
              | (Inr brs, s2) \<Rightarrow> (Inr (\<lparr>br_Route = r, br_Auth = auth\<rparr> # brs), s2)))"

text \<open>The CONNECT token, empty when the leg is off.\<close>

definition connect_token ::
  "(string \<Rightarrow> 's \<Rightarrow> secret_result \<times> 's) \<Rightarrow> Config \<Rightarrow> 's \<Rightarrow> (server_error + string) \<times> 's" where
  "connect_token sp cfg s =
     (if \<not> cc_Enabled (c_Connect cfg) then (Inr [], s)
      else let cc = c_Connect cfg
           in case resolveFirst sp (secretRefs (cc_TokenRef cc) (cc_TokenEnv cc) (cc_TokenFile cc)) s of
                (Inl e, s') \<Rightarrow> (Inl (ConnectFailed e), s')
              | (Inr tok, s') \<Rightarrow> if TrimSpace tok = [] then (Inl ConnectBlank, s') else (Inr (TrimSpace tok), s'))"

definition gateway_token ::
  "(string \<Rightarrow> 's \<Rightarrow> secret_result \<times> 's) \<Rightarrow> Config \<Rightarrow> string \<Rightarrow> 's \<Rightarrow> (server_error + string) \<times> 's" where
  "gateway_token sp cfg connToken s =
     (if \<not> hasToken (c_GatewayAuth cfg) then (Inr [], s)
      else let g = c_GatewayAuth cfg
           in case resolveFirst sp (secretRefs (ga_TokenRef g) (ga_TokenEnv g) (ga_TokenFile g)) s of
                (Inl e, s') \<Rightarrow> (Inl (GatewayAuthFailed e), s')
              | (Inr tok, s') \<Rightarrow>
                  if TrimSpace tok = [] then (Inl GatewayAuthBlank, s')
                  else if connToken \<noteq> [] \<and> TrimSpace tok = connToken then (Inl SameSecret, s')
                  else (Inr (TrimSpace tok), s'))"

text \<open>\<open>sort_routes\<close> is \<open>sort.Slice\<close> with the comparison of prefix lengths, whose order of equal
  lengths is unspecified.\<close>

definition NewServer ::
  "(string \<Rightarrow> 's \<Rightarrow> secret_result \<times> 's) \<Rightarrow> (string \<Rightarrow> string) \<Rightarrow> (boundRoute list \<Rightarrow> boundRoute list)
   \<Rightarrow> time \<Rightarrow> duration \<Rightarrow> Config \<Rightarrow> 's \<Rightarrow> (server_error + Server) \<times> 's" where
  "NewServer sp uni sort_routes start connectLinger cfg s =
     (case bind_routes sp start (EnabledRoutes cfg) s of
        (Inl e, s1) \<Rightarrow> (Inl e, s1)
      | (Inr brs, s1) \<Rightarrow>
          (case connect_token sp cfg s1 of
             (Inl e, s2) \<Rightarrow> (Inl e, s2)
           | (Inr connToken, s2) \<Rightarrow>
               (case gateway_token sp cfg connToken s2 of
                  (Inl e, s3) \<Rightarrow> (Inl e, s3)
                | (Inr proxyToken, s3) \<Rightarrow>
                    (Inr \<lparr>sv_cfg = cfg, sv_routes = sort_routes brs, sv_connToken = connToken,
                       sv_allowed = (if cc_Enabled (c_Connect cfg)
                                     then map (ToLower uni) (cc_AllowedHosts (c_Connect cfg)) else []),
                       sv_scope = scopeUnknown, sv_proxyAuth = GatewayAuth_Mode (c_GatewayAuth cfg),
                       sv_proxyToken = proxyToken, sv_trustForwardedForAudit = c_TrustForwardedForAudit cfg,
                       sv_connectLinger = (if connectLinger \<le> 0 then defaultConnectHalfCloseLinger else connectLinger),
                       sv_tunnels = (if cc_Enabled (c_Connect cfg)
                                     then Some (connectMaxConcurrent cfg, 0) else None)\<rparr>, s3))))"

definition RouteNames :: "Server \<Rightarrow> string list" where
  "RouteNames s = map (\<lambda>rt. r_Name (br_Route rt)) (sv_routes s)"

fun match_route :: "string \<Rightarrow> boundRoute list \<Rightarrow> nat option" where
  "match_route path [] = None"
| "match_route path (rt # rts) =
     (if HasPrefix path (r_Prefix (br_Route rt)) then Some 0 else map_option Suc (match_route path rts))"

definition set_auth :: "nat \<Rightarrow> Authenticator \<Rightarrow> Server \<Rightarrow> Server" where
  "set_auth i a s = s\<lparr>sv_routes := (sv_routes s)[i := (sv_routes s ! i)\<lparr>br_Auth := a\<rparr>]\<rparr>"

section \<open>Charging and refusing\<close>

definition chargeableSample :: "int \<Rightarrow> UsageSample \<Rightarrow> UsageSample" where
  "chargeableSample status sample =
     (if 500 \<le> status then \<lparr>us_Outcome = OutcomeFailed, us_Tokens = 0, us_Estimated = False\<rparr>
      else if 300 \<le> status \<and> us_Tokens sample = TokensUnknown
           then \<lparr>us_Outcome = OutcomeCompleted, us_Tokens = 0, us_Estimated = False\<rparr>
      else sample)"

definition chargedTokensFor :: "Route \<Rightarrow> UsageSample \<Rightarrow> int" where
  "chargedTokensFor r sample =
     (if us_Outcome sample = OutcomeFailed then 0
      else if us_Tokens sample \<noteq> TokensUnknown then us_Tokens sample
      else case r_Rotation r of None \<Rightarrow> 0 | Some rot \<Rightarrow> b_EstimateTokens (rc_Budget rot))"

definition isQuotaStatus :: "int \<Rightarrow> bool" where
  "isQuotaStatus status \<longleftrightarrow> status = 429 \<or> status = 402"

definition refusalAnswerFor ::
  "time \<Rightarrow> admissionRefusal \<Rightarrow> rotatingInjector \<Rightarrow> (string \<times> duration) \<times> rotatingInjector" where
  "refusalAnswerFor now refusal ri =
     (if refusal = refusalAdmission then ((''admission_limited'', MinRetryAfter), ri)
      else case retryAfter now ri of (wait, ri') \<Rightarrow> ((''keys_exhausted'', wait), ri'))"

definition retry_seconds :: "duration \<Rightarrow> int" where
  "retry_seconds wait =
     (let secs = go_quot wait Second + (if go_rem wait Second \<noteq> 0 then 1 else 0)
      in if secs < 1 then 1 else secs)"

record go_error =
  ge_deadline :: bool
  ge_canceled :: bool
  ge_text :: string

definition errorClass :: "go_error \<Rightarrow> string" where
  "errorClass err =
     (if ge_deadline err then ''timeout''
      else if ge_canceled err then ''canceled''
      else if str_contains (ge_text err) ''connection refused'' then ''refused''
      else if str_contains (ge_text err) ''no such host'' then ''dns''
      else if str_contains (ge_text err) ''certificate'' then ''tls''
      else ''upstream_error'')"

section \<open>Relaying\<close>

text \<open>The copy loop: each chunk read is observed, then written to the client; \<open>write\<close> gives the
  bytes written and whether the write succeeded, by chunk number.\<close>

fun copy_chunks ::
  "(nat \<Rightarrow> string \<Rightarrow> int \<times> bool) \<Rightarrow> nat \<Rightarrow> string list \<Rightarrow> tailExtractor option \<Rightarrow> int \<Rightarrow> int \<times> tailExtractor option" where
  "copy_chunks write n [] ue sent = (sent, ue)"
| "copy_chunks write n (b # bs) ue sent =
     (if b = [] then copy_chunks write (Suc n) bs ue sent
      else let ue' = map_option (Observe b) ue; (written, ok) = write n b
           in if ok then copy_chunks write (Suc n) bs ue' (sent + written) else (sent + written, ue'))"

definition copyResponseObserving ::
  "(string \<Rightarrow> string) \<Rightarrow> (nat \<Rightarrow> string \<Rightarrow> int \<times> bool) \<Rightarrow> Response \<Rightarrow> tailExtractor option
   \<Rightarrow> (Header \<times> int) \<times> int \<times> tailExtractor option" where
  "copyResponseObserving uni write resp ue =
     ((copy_headers uni (\<lambda>_ _. False) False [] (rp_Header resp), rp_StatusCode resp),
      copy_chunks write 0 (rp_Chunks resp) ue 0)"

section \<open>The handler\<close>

datatype gateway_response =
    TokenRefused proxyAuthRefusal
  | NotFound "string list"
  | Unavailable string string int
  | UpstreamUnavailable
  | Relayed int Header int

text \<open>Request identity and elapsed time, as the audit line shows them.\<close>

record req_meta =
  rm_id :: string
  rm_latency :: int

datatype proxy_stage =
    Answered gateway_response
  | Dispatched nat boundRoute "KeyLease option" Request

definition proxy_event :: "Server \<Rightarrow> boundRoute \<Rightarrow> Request \<Rightarrow> req_meta \<Rightarrow> int \<Rightarrow> AuditEvent" where
  "proxy_event sv rt r m status = zero_event\<lparr>ae_Event := ''proxy_request'', ae_RequestID := rm_id m,
     ae_Route := r_Name (br_Route rt), ae_AuthMode := auth_Mode (br_Auth rt), ae_Method := rq_Method r,
     ae_Path := rq_Path r, ae_Upstream := r_Upstream (br_Route rt), ae_Status := status,
     ae_LatencyMS := rm_latency m, ae_ClientAddr := auditClientAddr (sv_trustForwardedForAudit sv) r\<rparr>"

definition refusal_text :: "proxyAuthRefusal \<Rightarrow> string" where
  "refusal_text refusal =
     (case refusal of
        proxyAuthOK \<Rightarrow> [] | refusalTokenRequired \<Rightarrow> ''gateway_token_required''
      | refusalTokenInvalid \<Rightarrow> ''gateway_token_invalid'')"

definition denyUnauthenticated :: "Server \<Rightarrow> Request \<Rightarrow> req_meta \<Rightarrow> proxyAuthRefusal \<Rightarrow> gateway_response \<times> effects" where
  "denyUnauthenticated sv r m refusal =
     (TokenRefused refusal,
      no_effects\<lparr>fx_audit := [zero_event\<lparr>ae_Event := ''proxy_denied'', ae_RequestID := rm_id m, ae_Method := rq_Method r,
        ae_Path := rq_Path r, ae_Status := 401, ae_LatencyMS := rm_latency m,
        ae_ClientAddr := auditClientAddr (sv_trustForwardedForAudit sv) r, ae_Error := refusal_text refusal\<rparr>]\<rparr>)"

definition denyUnavailable ::
  "time \<Rightarrow> nat \<Rightarrow> Request \<Rightarrow> req_meta \<Rightarrow> admissionRefusal \<Rightarrow> rotatingInjector \<Rightarrow> Server
   \<Rightarrow> (gateway_response \<times> effects) \<times> Server" where
  "denyUnavailable now i r m refusal ri sv =
     (case refusalAnswerFor now refusal ri of
        ((code, wait), ri') \<Rightarrow>
          (let rt = sv_routes sv ! i; name = r_Name (br_Route rt)
           in ((Unavailable name code (retry_seconds wait),
                no_effects\<lparr>fx_metrics := [AdmissionRefusedTotal name code],
                           fx_audit := [(proxy_event sv rt r m 503)\<lparr>ae_Error := code\<rparr>]\<rparr>),
               set_auth i (Rotating ri') sv)))"

definition proxy_admit ::
  "time \<Rightarrow> time \<Rightarrow> req_meta \<Rightarrow> Request \<Rightarrow> Server \<Rightarrow> (proxy_stage \<times> effects) \<times> Server" where
  "proxy_admit now now' m r sv =
     (let refusal = authorizeProxy (sv_proxyAuth sv) (sv_proxyToken sv) r
      in if refusal \<noteq> proxyAuthOK
         then (case denyUnauthenticated sv r m refusal of (a, fx) \<Rightarrow> ((Answered a, fx), sv))
         else let r1 = r\<lparr>rq_Header := Header_Del (rq_Header r) GatewayTokenHeader\<rparr>
              in case match_route (rq_Path r1) (sv_routes sv) of
                   None \<Rightarrow> ((Answered (NotFound (RouteNames sv)), no_effects), sv)
                 | Some i \<Rightarrow>
                     (let rt = sv_routes sv ! i
                      in case br_Auth rt of
                           Rotating ri \<Rightarrow>
                             (case leaseFor now ri of
                                ((Some (auth, lease), _), ri') \<Rightarrow>
                                  ((Dispatched i (rt\<lparr>br_Auth := auth\<rparr>) (Some lease) r1, no_effects),
                                   set_auth i (Rotating ri') sv)
                              | ((None, refusal), ri') \<Rightarrow>
                                  (case denyUnavailable now' i r1 m refusal ri' (set_auth i (Rotating ri') sv) of
                                     ((a, fx), sv') \<Rightarrow> ((Answered a, fx), sv')))
                         | _ \<Rightarrow> ((Dispatched i rt None r1, no_effects), sv)))"

text \<open>The clock readings of a settlement: of \<open>parseResetAt\<close>, of \<open>vendorRetireUntil\<close>, and the
  store's at the retirement and at the settlement.\<close>

record settle_clock =
  sc_reset :: time
  sc_wall :: time
  sc_retire :: time
  sc_settle :: time

definition lease_Settle ::
  "time \<Rightarrow> UsageSample \<Rightarrow> KeyLease \<Rightarrow> rotatingInjector \<Rightarrow> (KeyLease \<times> rotatingInjector) \<times> retire_event list" where
  "lease_Settle now sample lease ri =
     (case ri_store ri of
        None \<Rightarrow> ((lease, ri), [])
      | Some st \<Rightarrow>
          (case Settle now sample lease st of
             ((lease', st'), ev) \<Rightarrow> ((lease', ri\<lparr>ri_store := Some st'\<rparr>), ev)))"

definition vendor_retire ::
  "settle_clock \<Rightarrow> int \<Rightarrow> tailExtractor \<Rightarrow> int \<Rightarrow> rotatingInjector \<Rightarrow> rotatingInjector \<times> retire_event list" where
  "vendor_retire c status usage idx ri =
     (case extractor_VendorSignal (sc_reset c) usage of
        (sig, found) \<Rightarrow>
          if found
          then (if Retires sig
                then injector_retireUntil (sc_retire c) idx (vendorRetireUntil sig (sc_wall c) zero_time) (signal_Reason sig) ri
                else (ri, []))
          else if isQuotaStatus status then injector_retire (sc_retire c) idx ReasonQuota ri
          else (ri, []))"

definition settleLease ::
  "settle_clock \<Rightarrow> Route \<Rightarrow> int \<Rightarrow> tailExtractor \<Rightarrow> KeyLease \<Rightarrow> rotatingInjector \<Rightarrow> AuditEvent
   \<Rightarrow> (KeyLease \<times> rotatingInjector) \<times> AuditEvent \<times> retire_event list" where
  "settleLease c route status usage lease ri event =
     (let sample = chargeableSample status (Result usage);
          (ri1, ev1) = vendor_retire c status usage (kl_index lease) ri;
          ((lease', ri2), ev2) = lease_Settle (sc_settle c) sample lease ri1
      in ((lease', ri2),
          event\<lparr>ae_KeyIndex := Some (kl_index lease), ae_Tokens := chargedTokensFor route sample,
                ae_TokensEstimated := us_Estimated sample\<rparr>, ev1 @ ev2))"

definition failed_sample :: UsageSample where
  "failed_sample = \<lparr>us_Outcome = OutcomeFailed, us_Tokens = 0, us_Estimated = False\<rparr>"

text \<open>The rest of the handler from the outcome of the forward: the answer, the settled lease and
  the effects.  The deferred failure settlement runs last.\<close>

definition proxy_finish ::
  "(string \<Rightarrow> string) \<Rightarrow> (nat \<Rightarrow> string \<Rightarrow> int \<times> bool) \<Rightarrow> settle_clock \<Rightarrow> req_meta \<Rightarrow> go_error + Response
   \<Rightarrow> nat \<Rightarrow> KeyLease option \<Rightarrow> Request \<Rightarrow> Server \<Rightarrow> (gateway_response \<times> KeyLease option \<times> effects) \<times> Server" where
  "proxy_finish uni write c m outcome i lease r sv =
     (let rt = sv_routes sv ! i
      in case outcome of
           Inl err \<Rightarrow>
             (let class = errorClass err;
                  event = (proxy_event sv rt r m 502)\<lparr>ae_Error := class, ae_KeyIndex := map_option kl_index lease\<rparr>;
                  fx = no_effects\<lparr>fx_metrics := [ForwardFailedTotal (r_Name (br_Route rt)) class], fx_audit := [event]\<rparr>
              in case (lease, br_Auth rt) of
                   (Some l, Rotating ri) \<Rightarrow>
                     (case lease_Settle (sc_settle c) failed_sample l ri of
                        ((l', ri'), ev) \<Rightarrow>
                          ((UpstreamUnavailable, Some l', fx\<lparr>fx_retired := ev\<rparr>), set_auth i (Rotating ri') sv))
                 | _ \<Rightarrow> ((UpstreamUnavailable, lease, fx), sv))
         | Inr resp \<Rightarrow>
             (case copyResponseObserving uni write resp (map_option (\<lambda>_. NewUsageExtractor) lease) of
                ((hdr, status), n, usage) \<Rightarrow>
                  (let event = (proxy_event sv rt r m status)\<lparr>ae_UpstreamHost := contactedHost resp, ae_BytesOut := n,
                         ae_Error := (if redirectNotFollowed resp then ''redirect_not_followed'' else [])\<rparr>
                   in case (lease, usage, br_Auth rt) of
                        (Some l, Some u, Rotating ri) \<Rightarrow>
                          (case settleLease c (br_Route rt) status u l ri event of
                             ((l', ri'), event', ev) \<Rightarrow>
                               (case lease_Settle (sc_settle c) failed_sample l' ri' of
                                  ((l'', ri''), ev') \<Rightarrow>
                                    ((Relayed status hdr n, Some l'',
                                      no_effects\<lparr>fx_audit := [event'], fx_retired := ev @ ev'\<rparr>),
                                     set_auth i (Rotating ri'') sv)))
                      | _ \<Rightarrow> ((Relayed status hdr n, lease, no_effects\<lparr>fx_audit := [event]\<rparr>), sv))))"

text \<open>The whole handler when nothing else runs during the upstream call; \<open>client_do\<close> is the HTTP client
  and \<open>err\<close> the error value of a request that could not be built.\<close>

definition handleProxy where
  "handleProxy uni ufold new_request client_do err write now now' c m r sv =
     (case proxy_admit now now' m r sv of
        ((Answered a, fx), sv') \<Rightarrow> ((a, fx), sv')
      | ((Dispatched i rt lease r1, _), sv') \<Rightarrow>
          (let outcome = (case Forward uni ufold new_request r1 rt of Inl e \<Rightarrow> Inl (err e) | Inr out \<Rightarrow> client_do out)
           in case proxy_finish uni write c m outcome i lease r1 sv' of
                ((a, _, fx), sv'') \<Rightarrow> ((a, fx), sv'')))"

section \<open>Health\<close>

fun route_inventory :: "time \<Rightarrow> Authenticator \<Rightarrow> KeyInventory \<times> Authenticator" where
  "route_inventory now (Rotating ri) = (case inventory now ri of (ki, ri') \<Rightarrow> (ki, Rotating ri'))"
| "route_inventory now auth =
     (if auth_Mode auth = AuthPassthrough
      then (\<lparr>ki_Mode = auth_Mode auth, ki_Pooled = False, ki_Keys = 0, ki_Available = 0, ki_Degraded = False\<rparr>, auth)
      else (\<lparr>ki_Mode = auth_Mode auth, ki_Pooled = False, ki_Keys = 1, ki_Available = 1, ki_Degraded = False\<rparr>, auth))"

definition Server_KeyInventory :: "time \<Rightarrow> Server \<Rightarrow> (string \<times> KeyInventory) list \<times> Server" where
  "Server_KeyInventory now sv =
     (map (\<lambda>rt. (r_Name (br_Route rt), fst (route_inventory now (br_Auth rt)))) (sv_routes sv),
      sv\<lparr>sv_routes := map (\<lambda>rt. rt\<lparr>br_Auth := snd (route_inventory now (br_Auth rt))\<rparr>) (sv_routes sv)\<rparr>)"

record health_body =
  hb_proxy_auth :: ProxyAuthMode
  hb_inventory :: "(string list \<times> (string \<times> KeyInventory) list \<times> bool) option"

definition handleHealth :: "time \<Rightarrow> Request \<Rightarrow> Server \<Rightarrow> health_body \<times> Server" where
  "handleHealth now r sv =
     (if authorizeProxy (sv_proxyAuth sv) (sv_proxyToken sv) r = proxyAuthOK
      then (case Server_KeyInventory now sv of
              (keys, sv') \<Rightarrow>
                (\<lparr>hb_proxy_auth = sv_proxyAuth sv,
                  hb_inventory = Some (RouteNames sv, keys, cc_Enabled (c_Connect (sv_cfg sv)))\<rparr>, sv'))
      else (\<lparr>hb_proxy_auth = sv_proxyAuth sv, hb_inventory = None\<rparr>, sv))"

end
