(* ===== verification/Gateway_Leases.thy ===== *)
theory Gateway_Leases
  imports Gateway
begin

text \<open>
  Lease accounting of the gateway under concurrency.  First what each operation of a pooled
  injector does to its store's books, then the handlers in flight as a step relation over
  the server and its dispatched requests, and its invariant: on every key, the slots
  the store counts as taken are the leases of the handlers still running.
\<close>

section \<open>What an injector's operations keep\<close>

text \<open>The store of an injector only knows its own route, and its books agree with the leases \<open>ls\<close>
  handed out.\<close>

definition injector_ok :: "KeyLease list \<Rightarrow> rotatingInjector \<Rightarrow> bool" where
  "injector_ok ls ri \<longleftrightarrow> (\<forall>st. ri_store ri = Some st \<longrightarrow>
     dom (st_routes st) \<subseteq> {ri_route ri} \<and> all_keys (accounts (st_budget st) ls) st)"

definition same_injector :: "rotatingInjector \<Rightarrow> rotatingInjector \<Rightarrow> bool" where
  "same_injector ri ri' \<longleftrightarrow> ri_route ri' = ri_route ri \<and> (ri_store ri' = None) = (ri_store ri = None)"

lemma same_injector_refl [simp]: "same_injector ri ri"
  by (simp add: same_injector_def)

lemma same_injector_trans: "same_injector a b \<Longrightarrow> same_injector b c \<Longrightarrow> same_injector a c"
  by (simp add: same_injector_def)

lemma on_key_dom [simp]: "dom (st_routes (fst (on_key now route idx f s))) = dom (st_routes s)"
  by (auto simp: on_key_def Let_def split: option.splits prod.splits if_splits)

lemma method_doms:
  "dom (st_routes (fst (RecordSample now route idx smp s))) = dom (st_routes s)"
  "dom (st_routes (fst (RetireWithReason now route idx until reason s))) = dom (st_routes s)"
  "dom (st_routes (fst (retireForWindow now route idx reason s))) = dom (st_routes s)"
  by (simp_all add: RecordSample_def RetireWithReason_def retireForWindow_def)

lemma acquire_dom: "acquire now route s = ((lo, refusal), s') \<Longrightarrow> dom (st_routes s') = dom (st_routes s)"
  by (elim acquire_cases reserve_cases) auto

lemma Settle_dom: "Settle now smp l s = ((l', s'), ev) \<Longrightarrow> dom (st_routes s') = dom (st_routes s)"
  by (drule Settle_store, erule disjE) (simp_all only: method_doms)

lemma Settle_lease:
  "Settle now smp l s = ((l', s'), ev) \<Longrightarrow> kl_done l' \<and> kl_route l' = kl_route l \<and> kl_index l' = kl_index l"
  by (auto simp: Settle_def split: if_splits prod.splits)

lemma acquire_lease:
  "acquire now route s = ((Some l, refusal), s') \<Longrightarrow> \<not> kl_done l \<and> kl_route l = route \<and> refusal = refusalNone"
  by (auto simp: acquire_def split: prod.splits if_splits)

lemma advanced_dom:
  "s' = s \<or> (\<exists>rs. st_routes s route = Some rs \<and> s' = set_route route (advanceLocked s now rs) s)
     \<Longrightarrow> dom (st_routes s') = dom (st_routes s)"
  by (auto split: if_splits)

lemma accounts_cong:
  assumes "all_keys (accounts b ls) st" "\<And>r i. r \<in> dom (st_routes st) \<Longrightarrow> open_leases ls' r i = open_leases ls r i"
  shows "all_keys (accounts b ls') st"
  using assms by (auto simp: all_keys_def accounts_def dom_def)

lemma injector_ok_cong:
  "injector_ok ls ri \<Longrightarrow> (\<And>i. open_leases ls' (ri_route ri) i = open_leases ls (ri_route ri) i) \<Longrightarrow> injector_ok ls' ri"
  unfolding injector_ok_def by (metis accounts_cong singletonD subsetD)

lemma open_leases_done_snoc: "kl_done l \<Longrightarrow> open_leases (ls @ [l]) r i = open_leases ls r i"
  by (simp add: open_leases_snoc)

lemma retryAfter_ok:
  assumes "injector_ok ls ri" "retryAfter now ri = (d, ri')"
  shows "injector_ok ls ri' \<and> same_injector ri ri'"
proof (cases "ri_store ri")
  case None
  then show ?thesis using assms by (simp add: retryAfter_def)
next
  case (Some st)
  obtain w ok st' where r: "RetryAfter now (ri_route ri) st = ((w, ok), st')"
    by (metis prod.collapse)
  note a = RetryAfter_store [OF r]
  have "ri' = ri\<lparr>ri_store := Some st'\<rparr>" using assms(2) Some r by (simp add: retryAfter_def)
  then show ?thesis
    using assms(1) Some advance_accounts [OF _ a] advanced_dom [OF a]
    by (simp add: injector_ok_def same_injector_def)
qed

lemma inventory_ok:
  assumes "injector_ok ls ri" "inventory now ri = (inv', ri')"
  shows "injector_ok ls ri' \<and> same_injector ri ri'"
proof (cases "ri_store ri")
  case None
  then show ?thesis using assms by (simp add: inventory_def)
next
  case (Some st)
  obtain ks st' where r: "Snapshot now (ri_route ri) st = (ks, st')" by fastforce
  note a = Snapshot_store [OF r]
  have "ri' = ri\<lparr>ri_store := Some st'\<rparr>" using assms(2) Some r by (simp add: inventory_def)
  then show ?thesis
    using assms(1) Some advance_accounts [OF _ a] advanced_dom [OF a]
    by (simp add: injector_ok_def same_injector_def)
qed

lemma lease_Settle_ok:
  assumes "injector_ok ls ri" "j < length ls" "lease_Settle now smp (ls ! j) ri = ((l', ri'), ev)"
  shows "injector_ok (ls[j := l']) ri' \<and> same_injector ri ri' \<and> kl_route l' = kl_route (ls ! j)
    \<and> kl_index l' = kl_index (ls ! j) \<and> (ri_store ri \<noteq> None \<longrightarrow> kl_done l')"
proof (cases "ri_store ri")
  case None
  then have "l' = ls ! j" "ri' = ri" using assms(3) by (simp_all add: lease_Settle_def)
  then show ?thesis using None assms(1) by simp
next
  case (Some st)
  obtain l2 st' ev' where r: "Settle now smp (ls ! j) st = ((l2, st'), ev')"
    by (metis prod.collapse)
  have e: "l' = l2" "ri' = ri\<lparr>ri_store := Some st'\<rparr>" using assms(3) Some r by (simp_all add: lease_Settle_def)
  show ?thesis
    using assms(1) Some settle_accounts [OF _ assms(2) r] Settle_budget [OF r] Settle_dom [OF r] Settle_lease [OF r]
    by (simp add: e injector_ok_def same_injector_def)
qed

lemma vendor_retire_ok:
  assumes "injector_ok ls ri" "vendor_retire c status u idx ri = (ri', ev)"
  shows "injector_ok ls ri' \<and> same_injector ri ri'"
proof (cases "ri_store ri")
  case None
  then show ?thesis using assms
    by (auto simp: vendor_retire_def injector_retireUntil_def injector_retire_def split: prod.splits if_splits)
next
  case (Some st)
  have keep: "injector_ok ls (ri\<lparr>ri_store := Some st'\<rparr>) \<and> same_injector ri (ri\<lparr>ri_store := Some st'\<rparr>)"
    if "all_keys (accounts (st_budget st') ls) st'" "dom (st_routes st') = dom (st_routes st)" for st'
    using that assms(1) Some by (simp add: injector_ok_def same_injector_def)
  have ok: "all_keys (accounts (st_budget st) ls) st" using assms(1) Some by (simp add: injector_ok_def)
  have rU: "injector_ok ls (fst (injector_retireUntil now idx until reason ri))
      \<and> same_injector ri (fst (injector_retireUntil now idx until reason ri))" for now until reason
  proof -
    obtain st' ev where r: "RetireWithReason now (ri_route ri) idx until reason st = (st', ev)" by fastforce
    have "dom (st_routes st') = dom (st_routes st)" using method_doms(2) r by (metis fst_conv)
    with keep [OF retire_accounts [OF ok r]] show ?thesis by (simp add: injector_retireUntil_def Some r)
  qed
  have rW: "injector_ok ls (fst (injector_retire now idx reason ri))
      \<and> same_injector ri (fst (injector_retire now idx reason ri))" for now reason
  proof -
    obtain st' ev where r: "retireForWindow now (ri_route ri) idx reason st = (st', ev)" by fastforce
    have "dom (st_routes st') = dom (st_routes st)" using method_doms(3) r by (metis fst_conv)
    with keep [OF window_accounts [OF ok r]] show ?thesis by (simp add: injector_retire_def Some r)
  qed
  have "ri' = fst (vendor_retire c status u idx ri)" using assms(2) by simp
  then show ?thesis
    using rU rW assms(1) by (auto simp: vendor_retire_def split: prod.splits)
qed

lemma settleLease_ok:
  assumes "injector_ok ls ri" "j < length ls" "settleLease c route status u (ls ! j) ri ev = ((l', ri'), ev', evs)"
  shows "injector_ok (ls[j := l']) ri' \<and> same_injector ri ri' \<and> kl_route l' = kl_route (ls ! j)
    \<and> kl_index l' = kl_index (ls ! j) \<and> (ri_store ri \<noteq> None \<longrightarrow> kl_done l')"
proof -
  obtain ri1 e1 where v: "vendor_retire c status u (kl_index (ls ! j)) ri = (ri1, e1)" by fastforce
  obtain l2 ri2 e2 where s: "lease_Settle (sc_settle c) (chargeableSample status (Result u)) (ls ! j) ri1 = ((l2, ri2), e2)"
    by (metis prod.collapse)
  have e: "l' = l2" "ri' = ri2" using assms(3) v s by (simp_all add: settleLease_def Let_def)
  note o1 = vendor_retire_ok [OF assms(1) v]
  show ?thesis
    using o1 lease_Settle_ok [OF conjunct1 [OF o1] assms(2) s] same_injector_trans
    by (auto simp: e same_injector_def)
qed

lemma leaseFor_ok:
  assumes "injector_ok ls ri" "leaseFor now ri = ((res, refusal), ri')"
  shows "injector_ok (ls @ (case res of None \<Rightarrow> [] | Some (a, l) \<Rightarrow> [l])) ri' \<and> same_injector ri ri'
    \<and> (\<forall>a l. res = Some (a, l) \<longrightarrow> kl_route l = ri_route ri \<and> \<not> kl_done l \<and> ri_store ri \<noteq> None)"
proof (cases "ri_store ri")
  case None
  then show ?thesis using assms by (auto simp: leaseFor_def)
next
  case (Some st)
  obtain lo rf st' where a: "acquire now (ri_route ri) st = ((lo, rf), st')" by (metis prod.collapse)
  have ok: "all_keys (accounts (st_budget st) ls) st" "dom (st_routes st) \<subseteq> {ri_route ri}"
    using assms(1) Some by (simp_all add: injector_ok_def)
  note acc = acquire_accounts [OF ok(1) a] and d = acquire_dom [OF a]
  show ?thesis
  proof (cases lo)
    case None
    then have "injector_ok ls (ri\<lparr>ri_store := Some st'\<rparr>)" using acc d ok by (simp add: injector_ok_def)
    moreover have "res = None" "ri' = ri\<lparr>ri_store := Some st'\<rparr>"
      using assms(2) Some a None by (simp_all add: leaseFor_def)
    ultimately show ?thesis using Some by (simp add: same_injector_def)
  next
    case (Some l)
    note al = acquire_lease [OF a [unfolded Some]]
    have k1: "injector_ok (ls @ [l]) (ri\<lparr>ri_store := Some st'\<rparr>)"
      using acc d ok Some by (simp add: injector_ok_def)
    show ?thesis
    proof (cases "kl_index l < 0 \<or> int (length (ri_keys ri)) \<le> kl_index l")
      case True
      obtain l2 st2 ev where s: "Settle now failed_sample l st' = ((l2, st2), ev)" by (metis prod.collapse)
      have s': "lease_Settle now failed_sample ((ls @ [l]) ! length ls) (ri\<lparr>ri_store := Some st'\<rparr>)
          = ((l2, ri\<lparr>ri_store := Some st2\<rparr>), ev)"
        using s by (simp add: lease_Settle_def)
      have e: "res = None" "ri' = ri\<lparr>ri_store := Some st2\<rparr>"
        using assms(2) \<open>ri_store ri = Some st\<close> a Some True s
        by (auto simp: leaseFor_def Let_def failed_sample_def)
      have "injector_ok (ls @ [l2]) (ri\<lparr>ri_store := Some st2\<rparr>)" "kl_done l2"
        using lease_Settle_ok [OF k1 _ s'] Settle_lease [OF s] by simp_all
      then show ?thesis
        using e \<open>ri_store ri = Some st\<close>
        by (auto simp: same_injector_def open_leases_done_snoc intro: injector_ok_cong)
    next
      case False
      then have "res = Some (Leased \<lparr>li_key = ri_keys ri ! nat (kl_index l), li_header = ri_header ri,
                  li_prefix = ri_prefix ri, li_mode = ri_mode ri\<rparr>, l)" "ri' = ri\<lparr>ri_store := Some st'\<rparr>"
        using assms(2) \<open>ri_store ri = Some st\<close> a Some by (auto simp: leaseFor_def Let_def)
      then show ?thesis using k1 al \<open>ri_store ri = Some st\<close> by (auto simp: same_injector_def)
    qed
  qed
qed

section \<open>Requests in flight\<close>

text \<open>A request the gateway has dispatched: its route, its lease and whether its handler is still
  running.  Handlers start, finish and interleave with health reports in any order.\<close>

record flight =
  fl_route :: nat
  fl_lease :: "KeyLease option"
  fl_open :: bool

inductive gp_step :: "Server \<Rightarrow> flight list \<Rightarrow> Server \<Rightarrow> flight list \<Rightarrow> bool" where
  gp_dispatch: "proxy_admit now now' m r sv = ((Dispatched i rt lease r1, fx), sv') \<Longrightarrow>
     gp_step sv fs sv' (fs @ [\<lparr>fl_route = i, fl_lease = lease, fl_open = True\<rparr>])"
| gp_answer: "proxy_admit now now' m r sv = ((Answered a, fx), sv') \<Longrightarrow> gp_step sv fs sv' fs"
| gp_finish: "j < length fs \<Longrightarrow> fl_open (fs ! j) \<Longrightarrow>
     proxy_finish uni write c m outcome (fl_route (fs ! j)) (fl_lease (fs ! j)) r sv = ((a, lease', fx), sv') \<Longrightarrow>
     gp_step sv fs sv' (fs[j := (fs ! j)\<lparr>fl_lease := lease', fl_open := False\<rparr>])"
| gp_health: "handleHealth now r sv = (body, sv') \<Longrightarrow> gp_step sv fs sv' fs"

inductive gp_reach :: "Server \<Rightarrow> Server \<Rightarrow> flight list \<Rightarrow> bool" for sv0 where
  gp_init: "gp_reach sv0 sv0 []"
| gp_next: "gp_reach sv0 sv fs \<Longrightarrow> gp_step sv fs sv' fs' \<Longrightarrow> gp_reach sv0 sv' fs'"

text \<open>The lease of each flight; a flight without one counts as settled.\<close>

definition flight_lease :: "flight \<Rightarrow> KeyLease" where
  "flight_lease f = (case fl_lease f of None \<Rightarrow> \<lparr>kl_route = [], kl_index = -1, kl_done = True\<rparr> | Some l \<Rightarrow> l)"

definition leases_of :: "flight list \<Rightarrow> KeyLease list" where
  "leases_of fs = map flight_lease fs"

definition injector_at :: "Server \<Rightarrow> nat \<Rightarrow> rotatingInjector \<Rightarrow> bool" where
  "injector_at sv i ri \<longleftrightarrow> i < length (sv_routes sv) \<and> br_Auth (sv_routes sv ! i) = Rotating ri"

definition flight_ok :: "Server \<Rightarrow> flight \<Rightarrow> bool" where
  "flight_ok sv f \<longleftrightarrow> (\<forall>l. fl_lease f = Some l \<longrightarrow>
     (if fl_open f then \<not> kl_done l \<and> (\<exists>ri. injector_at sv (fl_route f) ri \<and> ri_store ri \<noteq> None \<and> kl_route l = ri_route ri)
      else kl_done l))"

definition gp_inv :: "Server \<Rightarrow> flight list \<Rightarrow> bool" where
  "gp_inv sv fs \<longleftrightarrow> distinct (RouteNames sv)
     \<and> (\<forall>i ri. injector_at sv i ri \<longrightarrow> ri_route ri = RouteNames sv ! i \<and> injector_ok (leases_of fs) ri)
     \<and> (\<forall>f \<in> set fs. flight_ok sv f)"

lemma RouteNames_set_auth [simp]: "RouteNames (set_auth i a sv) = RouteNames sv"
proof (cases "i < length (sv_routes sv)")
  case True
  then have "map (\<lambda>rt. r_Name (br_Route rt)) (sv_routes sv) ! i = r_Name (br_Route (sv_routes sv ! i))" by simp
  then show ?thesis by (simp add: set_auth_def RouteNames_def map_update) (metis list_update_id)
qed (simp add: set_auth_def RouteNames_def list_update_beyond)

lemma set_auth_simps [simp]:
  "sv_proxyAuth (set_auth i a sv) = sv_proxyAuth sv"
  "sv_proxyToken (set_auth i a sv) = sv_proxyToken sv" "sv_cfg (set_auth i a sv) = sv_cfg sv"
  "length (sv_routes (set_auth i a sv)) = length (sv_routes sv)"
  by (simp_all add: set_auth_def)

lemma injector_at_set_auth:
  "injector_at (set_auth i (Rotating ri') sv) n ri \<longleftrightarrow>
     (if n = i then i < length (sv_routes sv) \<and> ri = ri' else injector_at sv n ri)"
  by (auto simp: injector_at_def set_auth_def nth_list_update)

lemma flight_ok_mono:
  assumes "flight_ok sv f"
    and "\<And>ri. injector_at sv (fl_route f) ri \<Longrightarrow> ri_store ri \<noteq> None \<Longrightarrow>
      \<exists>ri'. injector_at sv' (fl_route f) ri' \<and> same_injector ri ri'"
  shows "flight_ok sv' f"
  unfolding flight_ok_def
proof (intro allI impI)
  fix l
  assume l: "fl_lease f = Some l"
  show "if fl_open f then \<not> kl_done l \<and> (\<exists>ri. injector_at sv' (fl_route f) ri \<and> ri_store ri \<noteq> None \<and> kl_route l = ri_route ri)
      else kl_done l"
  proof (cases "fl_open f")
    case True
    with assms(1) l obtain ri where ri: "\<not> kl_done l" "injector_at sv (fl_route f) ri" "ri_store ri \<noteq> None" "kl_route l = ri_route ri"
      unfolding flight_ok_def by auto
    from assms(2) [OF ri(2,3)] obtain ri' where "injector_at sv' (fl_route f) ri'" "same_injector ri ri'" by blast
    then show ?thesis using True ri unfolding same_injector_def by auto
  next
    case False
    with assms(1) l show ?thesis by (simp add: flight_ok_def)
  qed
qed

lemma flight_ok_set_auth:
  assumes "injector_at sv i ri" "same_injector ri ri'" "flight_ok sv f"
  shows "flight_ok (set_auth i (Rotating ri') sv) f"
proof (rule flight_ok_mono [OF assms(3)])
  fix r2
  assume r2: "injector_at sv (fl_route f) r2"
  show "\<exists>r3. injector_at (set_auth i (Rotating ri') sv) (fl_route f) r3 \<and> same_injector r2 r3"
  proof (cases "fl_route f = i")
    case True
    with r2 assms(1) have "r2 = ri" "i < length (sv_routes sv)" by (simp_all add: injector_at_def)
    with True assms(2) show ?thesis by (auto simp: injector_at_set_auth)
  next
    case False
    with r2 show ?thesis by (auto simp: injector_at_set_auth)
  qed
qed

text \<open>One injector is replaced and the leases change only on its route.\<close>

lemma gp_inv_update:
  assumes inv: "gp_inv sv fs" and i: "injector_at sv i ri" and same: "same_injector ri ri'"
    and ok: "injector_ok (leases_of fs') ri'"
    and frame: "\<And>n k. n \<noteq> ri_route ri \<Longrightarrow> open_leases (leases_of fs') n k = open_leases (leases_of fs) n k"
    and fl: "\<forall>f \<in> set fs'. flight_ok sv f"
  shows "gp_inv (set_auth i (Rotating ri') sv) fs'"
proof -
  have d: "distinct (RouteNames sv)" and ri: "ri_route ri = RouteNames sv ! i" and il: "i < length (RouteNames sv)"
    using inv i by (auto simp: gp_inv_def injector_at_def RouteNames_def)
  have "ri_route r2 = RouteNames sv ! n \<and> injector_ok (leases_of fs') r2"
    if "injector_at (set_auth i (Rotating ri') sv) n r2" for n r2
  proof (cases "n = i")
    case True
    then show ?thesis using that same ok ri by (simp add: injector_at_set_auth same_injector_def)
  next
    case False
    then have n: "injector_at sv n r2" using that by (simp add: injector_at_set_auth)
    then have "n < length (RouteNames sv)" by (simp add: injector_at_def RouteNames_def)
    then have "RouteNames sv ! n \<noteq> RouteNames sv ! i" using d il False by (simp add: nth_eq_iff_index_eq)
    moreover have r2: "ri_route r2 = RouteNames sv ! n" "injector_ok (leases_of fs) r2"
      using inv n by (auto simp: gp_inv_def)
    ultimately show ?thesis using frame [of "ri_route r2"] ri by (auto intro: injector_ok_cong)
  qed
  moreover have "flight_ok (set_auth i (Rotating ri') sv) f" if "flight_ok sv f" for f
    by (rule flight_ok_set_auth [OF i same that])
  ultimately show ?thesis using d fl by (simp add: gp_inv_def)
qed

lemma flight_lease_Some [simp]: "flight_lease \<lparr>fl_route = i, fl_lease = Some l, fl_open = b\<rparr> = l"
  by (simp add: flight_lease_def)

lemma flight_lease_None [simp]: "kl_done (flight_lease \<lparr>fl_route = i, fl_lease = None, fl_open = b\<rparr>)"
  by (simp add: flight_lease_def)

lemma match_route_less: "match_route path rts = Some i \<Longrightarrow> i < length rts \<and> HasPrefix path (r_Prefix (br_Route (rts ! i)))"
  by (induction rts arbitrary: i) (auto split: if_splits)

text \<open>The three ways the admitting half changes the server.\<close>

lemma proxy_admit_cases:
  assumes "proxy_admit now now' m r sv = ((stage, fx), sv')"
  obtains (unchanged) "sv' = sv" "\<And>i rt lease r1. stage = Dispatched i rt lease r1 \<Longrightarrow> lease = None"
  | (leased) i ri a l rf ri' rt r1 where "injector_at sv i ri" "leaseFor now ri = ((Some (a, l), rf), ri')"
      "stage = Dispatched i rt (Some l) r1" "sv' = set_auth i (Rotating ri') sv"
  | (refused) i ri rf ri1 w ri' ans where "injector_at sv i ri" "leaseFor now ri = ((None, rf), ri1)"
      "ri' = ri1 \<or> retryAfter now' ri1 = (w, ri')" "stage = Answered ans"
      "sv' = set_auth i (Rotating ri') (set_auth i (Rotating ri1) sv)"
proof -
  define refusal where "refusal = authorizeProxy (sv_proxyAuth sv) (sv_proxyToken sv) r"
  define r1 where "r1 = r\<lparr>rq_Header := Header_Del (rq_Header r) GatewayTokenHeader\<rparr>"
  note e = assms [unfolded proxy_admit_def Let_def, folded refusal_def r1_def]
  show thesis
  proof (cases "refusal = proxyAuthOK")
    case False
    with e have "sv' = sv" "stage \<noteq> Dispatched i rt lease r1'" for i rt lease r1'
      by (auto split: prod.splits)
    then show thesis by (intro unchanged) auto
  next
    case ok: True
    show thesis
    proof (cases "match_route (rq_Path r1) (sv_routes sv)")
      case None
      with ok e have "sv' = sv" "stage \<noteq> Dispatched i rt lease r1'" for i rt lease r1' by auto
      then show thesis by (intro unchanged) auto
    next
      case (Some i)
      note il = conjunct1 [OF match_route_less [OF Some]]
      show thesis
      proof (cases "\<exists>ri. br_Auth (sv_routes sv ! i) = Rotating ri")
        case False
        with ok Some e have "sv' = sv" "\<And>j rt lease r1'. stage = Dispatched j rt lease r1' \<Longrightarrow> lease = None"
          by (auto split: Authenticator.splits)
        then show thesis by (intro unchanged) auto
      next
        case True
        then obtain ri where ri: "br_Auth (sv_routes sv ! i) = Rotating ri" by blast
        then have at: "injector_at sv i ri" using il by (simp add: injector_at_def)
        obtain res rf ri1 where lf: "leaseFor now ri = ((res, rf), ri1)" by (metis prod.collapse)
        show thesis
        proof (cases res)
          case (Some p)
          obtain a l where p: "p = (a, l)" by (cases p)
          have "stage = Dispatched i ((sv_routes sv ! i)\<lparr>br_Auth := a\<rparr>) (Some l) r1" "sv' = set_auth i (Rotating ri1) sv"
            using e ok \<open>match_route _ _ = Some i\<close> ri lf \<open>res = Some p\<close> p by simp_all
          with lf [unfolded \<open>res = Some p\<close> p] show thesis by (rule leased [OF at])
        next
          case None
          obtain code wait ri2 where ra: "refusalAnswerFor now' rf ri1 = ((code, wait), ri2)" by (metis prod.collapse)
          then have "ri2 = ri1 \<or> retryAfter now' ri1 = (wait, ri2)"
            by (auto simp: refusalAnswerFor_def split: if_splits prod.splits)
          moreover have "\<exists>ans. stage = Answered ans" "sv' = set_auth i (Rotating ri2) (set_auth i (Rotating ri1) sv)"
            using e ok Some ri lf None ra by (auto simp: denyUnavailable_def Let_def)
          ultimately show thesis using refused [OF at lf [unfolded None]] by blast
        qed
      qed
    qed
  qed
qed

lemma gp_inv_admit:
  assumes inv: "gp_inv sv fs" and adm: "proxy_admit now now' m r sv = ((stage, fx), sv')"
  shows "case stage of Answered a \<Rightarrow> gp_inv sv' fs
    | Dispatched i rt lease r1 \<Rightarrow> gp_inv sv' (fs @ [\<lparr>fl_route = i, fl_lease = lease, fl_open = True\<rparr>])"
  using adm
proof (cases rule: proxy_admit_cases)
  case unchanged
  have "gp_inv sv (fs @ [\<lparr>fl_route = i, fl_lease = None, fl_open = True\<rparr>])" for i
  proof -
    have same: "open_leases (leases_of (fs @ [\<lparr>fl_route = i, fl_lease = None, fl_open = True\<rparr>])) n k
        = open_leases (leases_of fs) n k" for n k
      by (simp add: leases_of_def open_leases_done_snoc)
    have "injector_ok (leases_of (fs @ [\<lparr>fl_route = i, fl_lease = None, fl_open = True\<rparr>])) ri"
      if ok: "injector_ok (leases_of fs) ri" for ri by (rule injector_ok_cong [OF ok]) (rule same)
    then show ?thesis using inv by (auto simp: gp_inv_def flight_ok_def)
  qed
  with inv unchanged show ?thesis by (cases stage) auto
next
  case (leased i ri a l rf ri' rt r1)
  have ok: "injector_ok (leases_of fs) ri" "\<forall>f \<in> set fs. flight_ok sv f"
    using inv leased(1) by (auto simp: gp_inv_def)
  note lf = leaseFor_ok [OF ok(1) leased(2)]
  let ?f = "\<lparr>fl_route = i, fl_lease = Some l, fl_open = True\<rparr>"
  have ls: "leases_of (fs @ [?f]) = leases_of fs @ [l]" by (simp add: leases_of_def)
  have "gp_inv (set_auth i (Rotating ri') sv) (fs @ [?f])"
  proof (rule gp_inv_update [OF inv leased(1)])
    show "same_injector ri ri'" "injector_ok (leases_of (fs @ [?f])) ri'" using lf ls by simp_all
    show "open_leases (leases_of (fs @ [?f])) n k = open_leases (leases_of fs) n k" if "n \<noteq> ri_route ri" for n k
      using that lf unfolding ls by (simp add: open_leases_snoc)
    have "flight_ok sv ?f" using lf leased(1) by (auto simp: flight_ok_def)
    then show "\<forall>f \<in> set (fs @ [?f]). flight_ok sv f" using ok(2) by simp
  qed
  with leased show ?thesis by simp
next
  case (refused i ri rf ri1 w ri' ans)
  have ok: "injector_ok (leases_of fs) ri" "\<forall>f \<in> set fs. flight_ok sv f"
    using inv refused(1) by (auto simp: gp_inv_def)
  note lf = leaseFor_ok [OF ok(1) refused(2)]
  have i1: "gp_inv (set_auth i (Rotating ri1) sv) fs"
    by (rule gp_inv_update [OF inv refused(1)]) (use lf ok(2) in simp_all)
  have at1: "injector_at (set_auth i (Rotating ri1) sv) i ri1"
    using refused(1) by (simp add: injector_at_set_auth) (simp add: injector_at_def)
  have "injector_ok (leases_of fs) ri' \<and> same_injector ri1 ri'"
    using refused(3) lf retryAfter_ok [of "leases_of fs" ri1 now' w ri'] by auto
  then have "gp_inv (set_auth i (Rotating ri') (set_auth i (Rotating ri1) sv)) fs"
    using i1 by (intro gp_inv_update [OF i1 at1]) (auto simp: gp_inv_def)
  with refused show ?thesis by simp
qed

lemma gp_inv_settled:
  assumes inv: "gp_inv sv fs" and j: "j < length fs" and f: "fl_lease (fs ! j) = Some l"
    and i: "injector_at sv (fl_route (fs ! j)) ri"
    and ok: "injector_ok ((leases_of fs)[j := l']) ri'" and same: "same_injector ri ri'"
    and l: "kl_route l' = kl_route l" "kl_index l' = kl_index l" "kl_done l'" and r: "kl_route l = ri_route ri"
  shows "gp_inv (set_auth (fl_route (fs ! j)) (Rotating ri') sv) (fs[j := (fs ! j)\<lparr>fl_lease := Some l', fl_open := False\<rparr>])"
proof -
  let ?f = "(fs ! j)\<lparr>fl_lease := Some l', fl_open := False\<rparr>"
  have ls: "leases_of (fs[j := ?f]) = (leases_of fs)[j := l']"
    by (simp add: leases_of_def map_update flight_lease_def)
  have old: "leases_of fs ! j = l" "j < length (leases_of fs)"
    using j f by (simp_all add: leases_of_def flight_lease_def)
  show ?thesis
  proof (rule gp_inv_update [OF inv i same])
    show "injector_ok (leases_of (fs[j := ?f])) ri'" using ok ls by simp
    show "open_leases (leases_of (fs[j := ?f])) n k = open_leases (leases_of fs) n k" if "n \<noteq> ri_route ri" for n k
      using that l r by (simp add: ls open_leases_update [OF old(2)] old(1)) (simp add: open_leases_def)
    have "flight_ok sv ?f" using l by (simp add: flight_ok_def)
    then show "\<forall>f \<in> set (fs[j := ?f]). flight_ok sv f"
      using inv set_update_subset_insert [of fs j ?f] by (auto simp: gp_inv_def)
  qed
qed

lemma copy_chunks_None: "snd (copy_chunks write n bs None t) = None"
  by (induction bs arbitrary: n t) (auto split: prod.splits)

lemma copy_chunks_Some: "\<exists>u'. snd (copy_chunks write n bs (Some u) t) = Some u'"
  by (induction bs arbitrary: n u t) (auto simp: Let_def split: prod.splits)

text \<open>What the finishing half does to a leased request: exactly one settlement.\<close>

lemma proxy_finish_leased:
  assumes fin: "proxy_finish uni write c m outcome i (Some l) r sv = ((a, lease', fx), sv')"
    and at: "injector_at sv i ri" and st: "ri_store ri \<noteq> None"
    and ok: "injector_ok ls ri" and j: "j < length ls" "ls ! j = l"
  obtains l' ri' where "lease' = Some l'" "sv' = set_auth i (Rotating ri') sv" "injector_ok (ls[j := l']) ri'"
    "same_injector ri ri'" "kl_route l' = kl_route l" "kl_index l' = kl_index l" "kl_done l'"
proof (cases outcome)
  case (Inl err)
  obtain l' ri' ev where s: "lease_Settle (sc_settle c) failed_sample l ri = ((l', ri'), ev)" by (metis prod.collapse)
  have "lease' = Some l'" "sv' = set_auth i (Rotating ri') sv"
    using fin at s Inl by (simp_all add: proxy_finish_def Let_def injector_at_def)
  then show thesis
    using lease_Settle_ok [OF ok j(1) s [folded j(2)]] st j(2) by (intro that [of l' ri']) simp_all
next
  case (Inr resp)
  obtain hdr status n u where cp: "copyResponseObserving uni write resp (Some NewUsageExtractor) = ((hdr, status), n, Some u)"
    using copy_chunks_Some [of "write" 0 "rp_Chunks resp" NewUsageExtractor 0]
    by (auto simp: copyResponseObserving_def) (metis prod.collapse)
  define event where "event = (proxy_event sv (sv_routes sv ! i) r m status)\<lparr>ae_UpstreamHost := contactedHost resp, ae_BytesOut := n,
                         ae_Error := (if redirectNotFollowed resp then ''redirect_not_followed'' else [])\<rparr>"
  obtain l1 ri1 event' ev where s: "settleLease c (br_Route (sv_routes sv ! i)) status u l ri event = ((l1, ri1), event', ev)"
    by (metis prod.collapse)
  note o1 = settleLease_ok [OF ok j(1) s [folded j(2)]]
  obtain l2 ri2 ev' where s2: "lease_Settle (sc_settle c) failed_sample l1 ri1 = ((l2, ri2), ev')" by (metis prod.collapse)
  have s2': "lease_Settle (sc_settle c) failed_sample ((ls[j := l1]) ! j) ri1 = ((l2, ri2), ev')" using s2 j by simp
  have o2: "injector_ok ((ls[j := l1])[j := l2]) ri2 \<and> same_injector ri1 ri2 \<and> kl_route l2 = kl_route l1
      \<and> kl_index l2 = kl_index l1 \<and> (ri_store ri1 \<noteq> None \<longrightarrow> kl_done l2)"
    using lease_Settle_ok [OF conjunct1 [OF o1] _ s2'] j by simp
  have "lease' = Some l2" "sv' = set_auth i (Rotating ri2) sv"
    using fin at s s2 Inr cp by (simp_all add: proxy_finish_def Let_def injector_at_def event_def)
  then show thesis
    using o1 o2 st j(2) same_injector_trans [of ri ri1 ri2] by (intro that [of l2 ri2]) (auto simp: same_injector_def)
qed

lemma proxy_finish_unleased:
  "proxy_finish uni write c m outcome i None r sv = ((a, lease', fx), sv') \<Longrightarrow> lease' = None \<and> sv' = sv"
  by (auto simp: proxy_finish_def Let_def split: sum.splits prod.splits)

lemma gp_inv_health:
  assumes inv: "gp_inv sv fs" and h: "handleHealth now r sv = (body, sv')"
  shows "gp_inv sv' fs"
proof (cases "authorizeProxy (sv_proxyAuth sv) (sv_proxyToken sv) r = proxyAuthOK")
  case False
  then show ?thesis using inv h by (simp add: handleHealth_def)
next
  case True
  then have sv': "sv' = snd (Server_KeyInventory now sv)"
    using h by (simp add: handleHealth_def split: prod.splits)
  have names: "RouteNames sv' = RouteNames sv" by (simp add: sv' Server_KeyInventory_def RouteNames_def)
  have len: "length (sv_routes sv') = length (sv_routes sv)" by (simp add: sv' Server_KeyInventory_def)
  have new: "\<exists>ri0. injector_at sv i ri0 \<and> ri = snd (inventory now ri0)" if "injector_at sv' i ri" for i ri
    using that
    by (cases "br_Auth (sv_routes sv ! i)")
      (auto simp: injector_at_def sv' Server_KeyInventory_def split: prod.splits if_splits)
  have old: "injector_at sv' i (snd (inventory now ri))" if "injector_at sv i ri" for i ri
    using that by (auto simp: injector_at_def sv' Server_KeyInventory_def split: prod.splits)
  have keep: "injector_ok ls (snd (inventory now ri)) \<and> same_injector ri (snd (inventory now ri))" if "injector_ok ls ri" for ls ri
    using inventory_ok [OF that prod.collapse [symmetric]] by simp
  have "flight_ok sv' f" if "f \<in> set fs" for f
  proof -
    have "flight_ok sv f" using that inv by (simp add: gp_inv_def)
    then show ?thesis
    proof (rule flight_ok_mono)
      fix ri
      assume ri: "injector_at sv (fl_route f) ri"
      then have "injector_ok (leases_of fs) ri" using inv by (auto simp: gp_inv_def)
      from keep [OF this] old [OF ri] show "\<exists>ri'. injector_at sv' (fl_route f) ri' \<and> same_injector ri ri'" by blast
    qed
  qed
  moreover have "ri_route ri = RouteNames sv' ! i \<and> injector_ok (leases_of fs) ri" if a: "injector_at sv' i ri" for i ri
  proof -
    obtain ri0 where r0: "injector_at sv i ri0" "ri = snd (inventory now ri0)" using new [OF a] by blast
    then have "ri_route ri0 = RouteNames sv ! i" "injector_ok (leases_of fs) ri0" using inv by (auto simp: gp_inv_def)
    then show ?thesis using keep r0(2) by (simp add: names same_injector_def)
  qed
  ultimately show ?thesis using inv by (simp add: gp_inv_def names)
qed

lemma gp_step_inv: "gp_step sv fs sv' fs' \<Longrightarrow> gp_inv sv fs \<Longrightarrow> gp_inv sv' fs'"
proof (induction rule: gp_step.induct)
  case (gp_dispatch now now' m r sv i rt lease r1 fx sv' fs)
  from gp_inv_admit [OF gp_dispatch(2,1)] show ?case by simp
next
  case (gp_answer now now' m r sv a fx sv' fs)
  from gp_inv_admit [OF gp_answer(2,1)] show ?case by simp
next
  case (gp_finish j fs uni wr c m outcome r sv a lease' fx sv')
  have fo: "flight_ok sv (fs ! j)" using gp_finish by (simp add: gp_inv_def)
  show ?case
  proof (cases "fl_lease (fs ! j)")
    case None
    then have e: "lease' = None" "sv' = sv" using proxy_finish_unleased gp_finish(3) by auto
    let ?f = "(fs ! j)\<lparr>fl_lease := None, fl_open := False\<rparr>"
    have "leases_of (fs[j := ?f]) = leases_of fs"
      using gp_finish(1) None by (simp add: leases_of_def map_update flight_lease_def list_update_same_conv)
    moreover have "flight_ok sv ?f" by (simp add: flight_ok_def)
    then have "\<forall>f \<in> set (fs[j := ?f]). flight_ok sv f"
      using gp_finish(4) set_update_subset_insert [of fs j ?f] by (auto simp: gp_inv_def)
    ultimately show ?thesis using gp_finish(4) by (simp add: gp_inv_def e)
  next
    case (Some l)
    obtain ri where ri: "injector_at sv (fl_route (fs ! j)) ri" "ri_store ri \<noteq> None" "kl_route l = ri_route ri"
      using fo Some gp_finish(2) by (auto simp: flight_ok_def)
    have ok: "injector_ok (leases_of fs) ri" using gp_finish(4) ri(1) by (auto simp: gp_inv_def)
    have jl: "j < length (leases_of fs)" "leases_of fs ! j = l"
      using gp_finish(1) Some by (simp_all add: leases_of_def flight_lease_def)
    from gp_finish(3) [unfolded Some] ri(1,2) ok jl show ?thesis
    proof (rule proxy_finish_leased)
      fix l' ri'
      assume "lease' = Some l'" "sv' = set_auth (fl_route (fs ! j)) (Rotating ri') sv"
        "injector_ok ((leases_of fs)[j := l']) ri'" "same_injector ri ri'" "kl_route l' = kl_route l"
        "kl_index l' = kl_index l" "kl_done l'"
      then show ?thesis using gp_inv_settled [OF gp_finish(4,1) Some ri(1)] ri(3) by simp
    qed
  qed
next
  case (gp_health now r sv body sv' fs)
  then show ?case using gp_inv_health by blast
qed

lemma gp_reach_inv: "gp_reach sv0 sv fs \<Longrightarrow> gp_inv sv0 [] \<Longrightarrow> gp_inv sv fs"
  by (induction rule: gp_reach.induct) (auto intro: gp_step_inv)

end
