(* ===== verification/Gateway_Properties.thy ===== *)
theory Gateway_Properties
  imports Gateway_Leases "HOL-Library.Multiset"
begin

text \<open>
  The gateway as a whole, from its validated configuration to the requests it serves: what
  construction establishes, and the properties of admission, routing, settlement and
  audit.
\<close>

section \<open>A constructed server\<close>

lemma newAuthenticatorFor_rotating:
  assumes "newAuthenticatorFor sp r st s = (Inr (Rotating ri), s')"
  shows "ri_route ri = r_Name r \<and> ri_store ri = st \<and> hasPluralKeys r"
  using assms by (auto simp: newAuthenticatorFor_def Let_def split: if_splits prod.splits sum.splits)

lemma bind_routes_ok:
  "bind_routes sp start rs s = (Inr brs, s') \<Longrightarrow> map br_Route brs = rs
     \<and> (\<forall>rt \<in> set brs. (auth_Mode (br_Auth rt) = AuthPassthrough \<longleftrightarrow> br_Auth rt = Passthrough)
       \<and> (\<forall>ri. br_Auth rt = Rotating ri \<longrightarrow> ri_route ri = r_Name (br_Route rt)
           \<and> ri_store ri = Some (newRotationStore start (br_Route rt) (declaredKeyCount (br_Route rt)))))"
proof (induction rs arbitrary: s brs s')
  case (Cons r rs)
  let ?st = "if hasPluralKeys r then Some (newRotationStore start r (declaredKeyCount r)) else None"
  obtain auth s1 where a: "newAuthenticatorFor sp r ?st s = (Inr auth, s1)"
    using Cons.prems by (cases "newAuthenticatorFor sp r ?st s") (auto simp: Let_def split: sum.splits)
  obtain brs1 s2 where b: "bind_routes sp start rs s1 = (Inr brs1, s2)" "brs = \<lparr>br_Route = r, br_Auth = auth\<rparr> # brs1"
    using Cons.prems a by (cases "bind_routes sp start rs s1") (auto simp: Let_def split: sum.splits)
  show ?case
    using Cons.IH [OF b(1)] newAuthenticatorFor_mode [OF a] newAuthenticatorFor_rotating [of sp r ?st s _ s1] a b(2)
    by auto
qed simp

lemma NewServer_parts:
  assumes "NewServer sp uni sort_routes start linger cfg s = (Inr sv, s')"
  obtains brs s1 s2 where "bind_routes sp start (EnabledRoutes cfg) s = (Inr brs, s1)"
    "connect_token sp cfg s1 = (Inr (sv_connToken sv), s2)"
    "gateway_token sp cfg (sv_connToken sv) s2 = (Inr (sv_proxyToken sv), s')"
    "sv_routes sv = sort_routes brs" "sv_proxyAuth sv = GatewayAuth_Mode (c_GatewayAuth cfg)" "sv_cfg sv = cfg"
proof -
  obtain brs s1 where b: "bind_routes sp start (EnabledRoutes cfg) s = (Inr brs, s1)"
    using assms by (cases "bind_routes sp start (EnabledRoutes cfg) s") (auto simp: NewServer_def split: sum.splits)
  obtain ct s2 where c: "connect_token sp cfg s1 = (Inr ct, s2)"
    using assms b by (cases "connect_token sp cfg s1") (auto simp: NewServer_def split: sum.splits)
  obtain pt s3 where g: "gateway_token sp cfg ct s2 = (Inr pt, s3)"
    using assms b c by (cases "gateway_token sp cfg ct s2") (auto simp: NewServer_def split: sum.splits)
  have "sv_connToken sv = ct" "sv_proxyToken sv = pt" "s3 = s'" "sv_routes sv = sort_routes brs"
    "sv_proxyAuth sv = GatewayAuth_Mode (c_GatewayAuth cfg)" "sv_cfg sv = cfg"
    using assms b c g by (auto simp: NewServer_def)
  with b c g show thesis by (intro that [of brs s1 s2]) simp_all
qed

lemma newRotationStore_injector_ok:
  "injector_ok [] (ri\<lparr>ri_route := r_Name r, ri_store := Some (newRotationStore start r n)\<rparr>)"
proof -
  have "gw_inv \<lparr>g_store = newRotationStore start r n, g_leases = []\<rparr>"
    unfolding newRotationStore_def Let_def by (rule NewStore_inv)
  moreover have "dom (st_routes (newRotationStore start r n)) \<subseteq> {r_Name r}"
    by (auto simp: newRotationStore_def NewStore_def Let_def split: if_splits option.splits)
  ultimately show ?thesis by (simp add: injector_ok_def gw_inv_def)
qed

lemma NewServer_inv:
  assumes n: "NewServer sp uni sort_routes start linger cfg s = (Inr sv, s')"
    and perm: "\<And>xs. mset (sort_routes xs) = mset xs" and d: "distinct (map r_Name (c_Routes cfg))"
  shows "gp_inv sv []"
  using n
proof (cases rule: NewServer_parts)
  case (1 brs s1 s2)
  note b = bind_routes_ok [OF 1(1)]
  have m: "mset (sv_routes sv) = mset brs" using 1(4) perm by simp
  have "RouteNames sv = map (r_Name \<circ> br_Route) (sv_routes sv)" by (simp add: RouteNames_def)
  moreover have "mset (map (r_Name \<circ> br_Route) (sv_routes sv)) = mset (map r_Name (EnabledRoutes cfg))"
    using m b by (metis map_map mset_map)
  moreover have "distinct (map r_Name (EnabledRoutes cfg))"
    using d by (simp add: EnabledRoutes_def distinct_map_filter)
  ultimately have "distinct (RouteNames sv)" by (metis mset_eq_imp_distinct_iff)
  moreover have "ri_route ri = RouteNames sv ! i \<and> injector_ok (leases_of []) ri" if "injector_at sv i ri" for i ri
  proof -
    have "sv_routes sv ! i \<in> set brs"
      using that mset_eq_setD [OF m] by (auto simp: injector_at_def)
    with b that have e: "ri_route ri = r_Name (br_Route (sv_routes sv ! i))"
      "ri_store ri = Some (newRotationStore start (br_Route (sv_routes sv ! i)) (declaredKeyCount (br_Route (sv_routes sv ! i))))"
      by (auto simp: injector_at_def)
    have "ri\<lparr>ri_route := ri_route ri, ri_store := ri_store ri\<rparr> = ri" by simp
    then have "injector_ok [] ri" using newRotationStore_injector_ok [where ri = ri] e by metis
    then show ?thesis using that e by (simp add: leases_of_def RouteNames_def injector_at_def)
  qed
  ultimately show ?thesis by (simp add: gp_inv_def)
qed

lemma Validate_routes_distinct:
  assumes "Validate uni ufold c0 = Inr c"
  shows "distinct (map r_Name (c_Routes c)) \<and> distinct (map r_Prefix (c_Routes c)) \<and> gateway_auth_ok (c_Listen c) (c_GatewayAuth c)"
  using assms
proof (cases rule: Validate_parts)
  case (1 dflt rs cc)
  then show ?thesis using validate_routes_ok [OF 1(4,2)] validateGatewayAuth_ok [OF 1(8)] by auto
qed

text \<open>The handlers change nothing of the server but the stores.\<close>

definition same_posture :: "Server \<Rightarrow> Server \<Rightarrow> bool" where
  "same_posture sv sv' \<longleftrightarrow> sv_proxyAuth sv' = sv_proxyAuth sv \<and> sv_proxyToken sv' = sv_proxyToken sv
     \<and> sv_connToken sv' = sv_connToken sv \<and> sv_cfg sv' = sv_cfg sv"

lemma same_posture_set_auth [simp]: "same_posture sv (set_auth i a sv2) \<longleftrightarrow> same_posture sv sv2"
  by (simp add: same_posture_def set_auth_def)

lemma gp_step_posture: "gp_step sv fs sv' fs' \<Longrightarrow> same_posture sv sv'"
proof (induction rule: gp_step.induct)
  case (gp_dispatch now now' m r sv i rt lease r1 fx sv' fs)
  then show ?case by (cases rule: proxy_admit_cases) (auto simp: same_posture_def set_auth_def)
next
  case (gp_answer now now' m r sv a fx sv' fs)
  then show ?case by (cases rule: proxy_admit_cases) (auto simp: same_posture_def set_auth_def)
next
  case (gp_finish j fs uni wr c m outcome r sv a lease' fx sv')
  then show ?case
    by (auto simp: proxy_finish_def Let_def same_posture_def set_auth_def
        split: sum.splits prod.splits option.splits Authenticator.splits)
next
  case (gp_health now r sv body sv' fs)
  then show ?case
    by (auto simp: handleHealth_def Server_KeyInventory_def same_posture_def split: if_splits)
qed

lemma gp_reach_posture: "gp_reach sv0 sv fs \<Longrightarrow> same_posture sv0 sv"
  by (induction rule: gp_reach.induct) (auto simp: same_posture_def dest: gp_step_posture)

lemma proxy_admit_dispatched:
  assumes "proxy_admit now now' m r sv = ((Dispatched i rt lease r1, fx), sv')"
  shows "authorizeProxy (sv_proxyAuth sv) (sv_proxyToken sv) r = proxyAuthOK
    \<and> r1 = r\<lparr>rq_Header := Header_Del (rq_Header r) GatewayTokenHeader\<rparr>
    \<and> match_route (rq_Path r) (sv_routes sv) = Some i \<and> br_Route rt = br_Route (sv_routes sv ! i)"
proof (cases "authorizeProxy (sv_proxyAuth sv) (sv_proxyToken sv) r = proxyAuthOK")
  case False
  then show ?thesis using assms by (simp add: proxy_admit_def Let_def split: prod.splits)
next
  case ok: True
  show ?thesis
  proof (cases "match_route (rq_Path r) (sv_routes sv)")
    case None
    then show ?thesis using assms ok by (simp add: proxy_admit_def Let_def)
  next
    case (Some n)
    then show ?thesis using assms ok
      by (auto simp: proxy_admit_def Let_def split: Authenticator.splits prod.splits option.splits)
  qed
qed

lemma gateway_token_ok:
  "gateway_token sp cfg ct s = (Inr tok, s') \<Longrightarrow>
     if hasToken (c_GatewayAuth cfg) then tok \<noteq> [] \<and> TrimSpace tok = tok \<and> tok \<noteq> ct else tok = []"
  by (auto simp: gateway_token_def Let_def split: if_splits prod.splits sum.splits)

lemma match_route_first:
  assumes "match_route path rts = Some i" "sorted_wrt (\<lambda>a b. length (r_Prefix (br_Route b)) \<le> length (r_Prefix (br_Route a))) rts"
    and "rt \<in> set rts" "HasPrefix path (r_Prefix (br_Route rt))"
  shows "length (r_Prefix (br_Route rt)) \<le> length (r_Prefix (br_Route (rts ! i)))"
  using assms by (induction rts arbitrary: i) (auto split: if_splits)

lemma match_route_None: "match_route path rts = None \<longleftrightarrow> (\<forall>rt \<in> set rts. \<not> HasPrefix path (r_Prefix (br_Route rt)))"
  by (induction rts) auto

lemma open_leases_flights:
  assumes "\<forall>f \<in> set fs. flight_ok sv f"
  shows "open_leases (leases_of fs) r k
      = count_if (\<lambda>f. fl_open f \<and> (case fl_lease f of None \<Rightarrow> False
                        | Some l \<Rightarrow> kl_route l = r \<and> kl_index l = int k)) fs"
  using assms
  by (induction fs)
    (auto simp: leases_of_def open_leases_def flight_lease_def flight_ok_def split: option.splits if_splits)

section \<open>Charges\<close>

lemma parse_uint_loop_nonneg: "0 \<le> n \<Longrightarrow> 0 \<le> b \<Longrightarrow> parse_uint_loop b n s = Some m \<Longrightarrow> 0 \<le> m"
proof (induction s arbitrary: n)
  case (Cons c s)
  obtain d where d: "digit_value c = Some d" "parse_uint_loop b (n * b + d) s = Some m"
    using Cons.prems(3) by (auto split: option.splits if_splits)
  have "0 \<le> d" using d(1) by (auto simp: digit_value_def Let_def split: if_splits)
  then show ?case using Cons.IH [OF _ Cons.prems(2) d(2)] Cons.prems(1,2) by simp
qed simp

lemma ParseInt_digits_nonneg: "ds \<noteq> [] \<Longrightarrow> \<forall>c \<in> set ds. is_digit c \<Longrightarrow> ParseInt ds = Some n \<Longrightarrow> 0 \<le> n"
proof -
  assume a: "ds \<noteq> []" "\<forall>c \<in> set ds. is_digit c" "ParseInt ds = Some n"
  obtain c t where c: "ds = c # t" using a(1) by (cases ds) auto
  then have "c \<noteq> CHR ''-''" "c \<noteq> CHR ''+''" using a(2) by (auto simp: is_digit_def)
  then have "ParseUint ds 10 = Some n"
    using a(3) c by (auto simp: ParseInt_def split: option.splits if_splits)
  then show "0 \<le> n" using parse_uint_loop_nonneg [of 0 10 ds n] by (simp add: ParseUint_def split: if_splits)
qed

lemma parseUsageValue_nonneg: "parseUsageValue b = Some n \<Longrightarrow> 0 \<le> n"
  unfolding parseUsageValue_def Let_def
  by (auto split: list.splits if_splits intro: ParseInt_digits_nonneg dest: set_takeWhileD)

lemma usage_scan_tokens:
  "us_Outcome (usage_scan s) = OutcomeCompleted \<and> (us_Tokens (usage_scan s) = TokensUnknown \<or> 0 \<le> us_Tokens (usage_scan s))"
proof (induction s rule: usage_scan.induct)
  case (1 rest)
  show ?case
  proof (cases "LastIndex rest usageMarker")
    case None
    then show ?thesis by (simp add: usage_scan.simps [of rest])
  next
    case (Some pos)
    then show ?thesis
      using 1 [OF Some] parseUsageValue_nonneg
      by (cases "parseUsageValue (drop (pos + length usageMarker) rest)") (simp_all add: usage_scan.simps [of rest])
  qed
qed

lemma chargeable_normal:
  assumes "us_Outcome smp = OutcomeCompleted" "us_Tokens smp = TokensUnknown \<or> 0 \<le> us_Tokens smp"
  shows "us_Tokens (normalise_sample (chargeableSample status smp)) = us_Tokens (chargeableSample status smp)"
    and "us_Outcome (normalise_sample (chargeableSample status smp)) = us_Outcome (chargeableSample status smp)"
    and "us_Outcome (chargeableSample status smp) = OutcomeFailed \<longleftrightarrow> 500 \<le> status"
  using assms by (auto simp: normalise_sample_def chargeableSample_def TokensUnknown_def)

lemma settleLocked_charge:
  "us_Outcome smp = OutcomeFailed \<Longrightarrow>
     k_tokens (fst (settleLocked b smp k)) = k_tokens k \<and> k_requests (fst (settleLocked b smp k)) = k_requests k"
  "us_Outcome smp = OutcomeCompleted \<Longrightarrow>
     k_tokens (fst (settleLocked b smp k))
       = wrap64 (k_tokens k + (if us_Tokens smp = TokensUnknown then b_EstimateTokens b else us_Tokens smp))
     \<and> k_requests (fst (settleLocked b smp k)) = k_requests k + 1"
  by (simp_all add: settleLocked_def Let_def)

lemma newRotationStore_estimate:
  "b_EstimateTokens (st_budget (newRotationStore start r n))
     = (case r_Rotation r of None \<Rightarrow> 0 | Some rot \<Rightarrow> b_EstimateTokens (rc_Budget rot))"
  by (simp add: newRotationStore_def NewStore_def Let_def zero_RotationConfig_def zero_Budget_def split: option.splits)

lemma vendor_retire_store:
  assumes "ri_store ri = Some st" "vendor_retire c status u idx ri = (ri1, ev)"
  shows "\<exists>st1. ri_store ri1 = Some st1 \<and> st_budget st1 = st_budget st"
  using assms method_budgets
  by (auto simp: vendor_retire_def injector_retireUntil_def injector_retire_def split: prod.splits if_splits) (metis fst_conv)+

section \<open>Properties\<close>

text \<open>C2: Every lease is settled exactly once.  Take a gateway built from a validated
  configuration and let any number of requests be admitted, answered, finished, in any order
  and with any upstream outcomes, interleaved with health reports.  At every moment the
  unsettled slots of each key of each pooled route are exactly the running handlers that
  hold a lease on it, so an idle gateway holds none; and the requests charged in the window
  plus those in flight stay within the key's request cap plus the slots reclaimed from
  handlers that outlived the lease timeout.\<close>

theorem every_lease_settled:
  assumes v: "Validate uni ufold c0 = Inr c"
    and n: "NewServer sp uni sort_routes start linger c s = (Inr sv0, s')"
    and perm: "\<And>xs. mset (sort_routes xs) = mset xs"
    and reach: "gp_reach sv0 sv fs"
    and i: "injector_at sv i ri" "ri_store ri = Some st" "st_routes st (ri_route ri) = Some rs" "k < length (rs_keys rs)"
  shows "outstanding (rs_keys rs ! k)
      = count_if (\<lambda>f. fl_open f \<and> (case fl_lease f of None \<Rightarrow> False
                        | Some l \<Rightarrow> kl_route l = ri_route ri \<and> kl_index l = int k)) fs
    \<and> (0 < b_Window (st_budget st) \<and> 0 < b_Requests (st_budget st) \<longrightarrow>
         k_requests (rs_keys rs ! k) + outstanding (rs_keys rs ! k)
           \<le> b_Requests (st_budget st) + k_reclaimed (rs_keys rs ! k))"
proof -
  have "gp_inv sv0 []"
    by (rule NewServer_inv [OF n perm]) (use Validate_routes_distinct [OF v] in simp)
  then have inv: "gp_inv sv fs" by (rule gp_reach_inv [OF reach])
  then have "accounts (st_budget st) (leases_of fs) (ri_route ri) k (rs_keys rs ! k)"
    using i by (auto simp: gp_inv_def injector_ok_def all_keys_def)
  then have a: "key_inv (st_budget st) (rs_keys rs ! k)"
    "outstanding (rs_keys rs ! k) = open_leases (leases_of fs) (ri_route ri) k" by (simp_all add: accounts_def)
  have "open_leases (leases_of fs) (ri_route ri) k
      = count_if (\<lambda>f. fl_open f \<and> (case fl_lease f of None \<Rightarrow> False
                        | Some l \<Rightarrow> kl_route l = ri_route ri \<and> kl_index l = int k)) fs"
    using inv unfolding gp_inv_def by (intro open_leases_flights [of fs sv]) simp
  with a show ?thesis by (simp add: key_inv_def)
qed

text \<open>C4: A caller reaches an upstream only as the configuration allows.  On a gateway built from a
  validated configuration, at any later time, a request is dispatched only if it presents the
  gateway token, or presents none, comes from a loopback peer and the loopback exemption is on,
  or the configuration accepts unauthenticated callers in writing, or the gateway has no token
  and listens on a loopback literal.  The token is never blank, never equal to the CONNECT token
  and never forwarded.\<close>

theorem dispatch_requires_authority:
  assumes v: "Validate uni ufold c0 = Inr c"
    and n: "NewServer sp uni sort_routes start linger c s = (Inr sv0, s')"
    and reach: "gp_reach sv0 sv fs"
    and adm: "proxy_admit now now' m r sv = ((Dispatched i rt lease r1, fx), sv')"
  shows "(case GatewayAuth_Mode (c_GatewayAuth c) of
        ProxyAuthOpen \<Rightarrow> ga_AllowUnauthenticated (c_GatewayAuth c)
      | ProxyAuthLoopbackOnly \<Rightarrow> isLoopbackListen (c_Listen c)
      | ProxyAuthToken \<Rightarrow> TrimSpace (Header_Get (rq_Header r) GatewayTokenHeader) = sv_proxyToken sv
      | ProxyAuthTokenLoopbackExempt \<Rightarrow>
          TrimSpace (Header_Get (rq_Header r) GatewayTokenHeader) = sv_proxyToken sv
          \<or> TrimSpace (Header_Get (rq_Header r) GatewayTokenHeader) = [] \<and> isLoopbackPeer (rq_RemoteAddr r))
    \<and> (hasToken (c_GatewayAuth c) \<longrightarrow> sv_proxyToken sv \<noteq> [] \<and> sv_proxyToken sv \<noteq> sv_connToken sv)
    \<and> Header_Get (rq_Header r1) GatewayTokenHeader = []"
  using n
proof (cases rule: NewServer_parts)
  case (1 brs s1 s2)
  have p: "sv_proxyAuth sv = GatewayAuth_Mode (c_GatewayAuth c)" "sv_proxyToken sv = sv_proxyToken sv0"
    "sv_connToken sv = sv_connToken sv0"
    using gp_reach_posture [OF reach] 1(5) by (simp_all add: same_posture_def)
  note d = proxy_admit_dispatched [OF adm]
  have tok: "hasToken (c_GatewayAuth c) \<longrightarrow> sv_proxyToken sv \<noteq> [] \<and> sv_proxyToken sv \<noteq> sv_connToken sv"
    using gateway_token_ok [OF 1(3)] p by auto
  have "gateway_auth_ok (c_Listen c) (c_GatewayAuth c)" using Validate_routes_distinct [OF v] by simp
  moreover have "Header_Get (rq_Header r1) GatewayTokenHeader = []"
    using d by (simp add: Header_Get_def)
  moreover have "authorizeProxy (GatewayAuth_Mode (c_GatewayAuth c)) (sv_proxyToken sv) r = proxyAuthOK" using d p by simp
  ultimately show ?thesis
    using tok by (cases "GatewayAuth_Mode (c_GatewayAuth c)")
      (auto simp: gateway_auth_ok_def authorizeProxy_def Let_def split: if_splits)
qed

text \<open>C30: A path is served by the enabled route with the longest matching prefix and by no other,
  whatever order \<open>sort.Slice\<close> gives routes of equal prefix length; it is refused exactly when
  no enabled route matches, so a disabled route is never reached.\<close>

theorem longest_prefix_wins:
  assumes v: "Validate uni ufold c0 = Inr c"
    and n: "NewServer sp uni sort_routes start linger c s = (Inr sv, s')"
    and perm: "\<And>xs. mset (sort_routes xs) = mset xs"
    and sorted: "\<And>xs. sorted_wrt (\<lambda>a b. length (r_Prefix (br_Route b)) \<le> length (r_Prefix (br_Route a))) (sort_routes xs)"
  shows "case match_route path (sv_routes sv) of
      None \<Rightarrow> (\<forall>r \<in> set (EnabledRoutes c). \<not> HasPrefix path (r_Prefix r))
    | Some i \<Rightarrow> (let r = br_Route (sv_routes sv ! i)
        in r \<in> set (EnabledRoutes c) \<and> HasPrefix path (r_Prefix r)
           \<and> (\<forall>r' \<in> set (EnabledRoutes c). HasPrefix path (r_Prefix r') \<and> r' \<noteq> r \<longrightarrow>
                length (r_Prefix r') < length (r_Prefix r)))"
  using n
proof (cases rule: NewServer_parts)
  case (1 brs s1 s2)
  note b = bind_routes_ok [OF 1(1)]
  have m: "set (sv_routes sv) = set brs" using 1(4) perm by (metis mset_eq_setD)
  then have e: "br_Route ` set (sv_routes sv) = set (EnabledRoutes c)" using b by (metis set_map)
  have dp: "distinct (map r_Prefix (EnabledRoutes c))"
    using Validate_routes_distinct [OF v] by (simp add: EnabledRoutes_def distinct_map_filter)
  show ?thesis
  proof (cases "match_route path (sv_routes sv)")
    case None
    then have "\<forall>rt \<in> set (sv_routes sv). \<not> HasPrefix path (r_Prefix (br_Route rt))" by (simp add: match_route_None)
    then show ?thesis using None unfolding e [symmetric] by simp
  next
    case (Some i)
    let ?r = "br_Route (sv_routes sv ! i)"
    have r: "?r \<in> set (EnabledRoutes c)" "HasPrefix path (r_Prefix ?r)"
      using match_route_less [OF Some] e by (auto simp flip: e)
    have "length (r_Prefix r') < length (r_Prefix ?r)"
      if r': "r' \<in> set (EnabledRoutes c)" "HasPrefix path (r_Prefix r')" "r' \<noteq> ?r" for r'
    proof -
      obtain rt where "rt \<in> set (sv_routes sv)" "r' = br_Route rt" using r'(1) e by auto
      then have "length (r_Prefix r') \<le> length (r_Prefix ?r)"
        using match_route_first [OF Some] sorted 1(4) r'(2) by simp
      moreover have "r_Prefix r' \<noteq> r_Prefix ?r"
        using dp r'(1,3) r(1) by (auto simp: distinct_map inj_on_def)
      moreover have "r_Prefix r' = r_Prefix ?r" if "length (r_Prefix r') = length (r_Prefix ?r)"
        using r'(2) r(2) that by (simp add: HasPrefix_def)
      ultimately show ?thesis by linarith
    qed
    with r Some show ?thesis by (simp add: Let_def)
  qed
qed

text \<open>C28: The audit stream reconciles with the store.  When a leased request is settled, the key is
  charged one request and exactly the tokens its audit line carries, read or estimated, on
  every answer below 500; an answer from 500 up is charged nothing and audited as nothing.
  The charge is made on the key's state at the settlement, after the vendor signal has
  been acted on and the window brought up to date.\<close>

theorem audit_reconciles:
  assumes s: "settleLease c route status u l ri ev = ((l', ri'), ev', evs)"
    and l: "\<not> kl_done l" "kl_index l = int k"
    and st: "ri_store ri = Some st"
      "b_EstimateTokens (st_budget st) = (case r_Rotation route of None \<Rightarrow> 0 | Some rot \<Rightarrow> b_EstimateTokens (rc_Budget rot))"
    and st1: "ri_store (fst (vendor_retire c status u (kl_index l) ri)) = Some st1"
      "st_routes st1 (kl_route l) = Some rs1" "k < length (rs_keys rs1)"
  shows "\<exists>st' rs'. ri_store ri' = Some st' \<and> st_routes st' (kl_route l) = Some rs' \<and> kl_done l'
    \<and> ae_KeyIndex ev' = Some (kl_index l)
    \<and> (let before = rs_keys (advanceLocked st1 (sc_settle c) rs1) ! k; after = rs_keys rs' ! k
       in if 500 \<le> status then k_tokens after = k_tokens before \<and> k_requests after = k_requests before \<and> ae_Tokens ev' = 0
          else k_tokens after = wrap64 (k_tokens before + ae_Tokens ev') \<and> k_requests after = k_requests before + 1)"
proof -
  let ?smp = "chargeableSample status (Result u)" and ?rs = "advanceLocked st1 (sc_settle c) rs1"
  obtain ri1 e1 where v: "vendor_retire c status u (kl_index l) ri = (ri1, e1)" by fastforce
  have b: "st_budget st1 = st_budget st" using vendor_retire_store [OF st(1) v] st1(1) v by auto
  obtain l2 st2 e2 where t: "Settle (sc_settle c) ?smp l st1 = ((l2, st2), e2)" by (metis prod.collapse)
  have e: "l' = l2" "ri_store ri' = Some st2" "ae_KeyIndex ev' = Some (kl_index l)" "ae_Tokens ev' = chargedTokensFor route ?smp"
    using s v st1(1) t by (auto simp: settleLease_def Let_def lease_Settle_def)
  have k: "rs_keys ?rs ! k = rs_keys ?rs ! nat (kl_index l)" "k < length (rs_keys ?rs)" using l st1(3) by simp_all
  define k' where "k' = fst (settleLocked (st_budget st1) (normalise_sample ?smp) (rs_keys ?rs ! k))"
  have st2: "st_routes st2 (kl_route l) = Some (?rs\<lparr>rs_keys := (rs_keys ?rs)[k := k']\<rparr>)"
    using t l st1(2,3) by (auto simp: Settle_def RecordSample_def on_key_def Let_def k'_def split: prod.splits)
  note u = usage_scan_tokens [of "te_tail u", folded Result_def]
  note cn = chargeable_normal [OF conjunct1 [OF u] conjunct2 [OF u], of status]
  have "if 500 \<le> status then k_tokens k' = k_tokens (rs_keys ?rs ! k) \<and> k_requests k' = k_requests (rs_keys ?rs ! k) \<and> ae_Tokens ev' = 0
      else k_tokens k' = wrap64 (k_tokens (rs_keys ?rs ! k) + ae_Tokens ev') \<and> k_requests k' = k_requests (rs_keys ?rs ! k) + 1"
  proof (cases "500 \<le> status")
    case True
    then show ?thesis using settleLocked_charge(1) [of "normalise_sample ?smp"] cn
      by (simp add: k'_def e chargedTokensFor_def)
  next
    case False
    then have "us_Outcome ?smp = OutcomeCompleted" using cn by (cases "us_Outcome ?smp") auto
    then show ?thesis
      using False settleLocked_charge(2) [of "normalise_sample ?smp"] cn b st(2)
      by (simp add: k'_def e chargedTokensFor_def)
  qed
  then show ?thesis using e st2 k(2) Settle_lease [OF t] by (auto simp: Let_def)
qed

definition example_config :: Config where
  "example_config = example_gateway\<lparr>c_Connect := (c_Connect example_gateway)\<lparr>cc_Enabled := False\<rparr>\<rparr>"

abbreviation example_sort :: "boundRoute list \<Rightarrow> boundRoute list" where
  "example_sort \<equiv> sort_key (\<lambda>rt. - int (length (r_Prefix (br_Route rt))))"

abbreviation example_new where
  "example_new c \<equiv> NewServer Resolver_Resolve id example_sort 0 0 c (NewDefaultSecretProvider example_world)"

lemma example_sort_laws:
  "mset (example_sort xs) = mset xs"
  "sorted_wrt (\<lambda>a b. length (r_Prefix (br_Route b)) \<le> length (r_Prefix (br_Route a))) (example_sort xs)"
proof -
  show "mset (example_sort xs) = mset xs" by simp
  have "sorted_wrt (\<lambda>x y. x \<le> y) (map (\<lambda>rt. - int (length (r_Prefix (br_Route rt)))) (example_sort xs))"
    by (rule sorted_sort_key)
  then show "sorted_wrt (\<lambda>a b. length (r_Prefix (br_Route b)) \<le> length (r_Prefix (br_Route a))) (example_sort xs)"
    by (simp add: sorted_wrt_map)
qed

lemma example_started: "isl (fst (example_new (projr (Validate id (\<lambda>_ _. False) example_config)))) = False
    \<and> isl (Validate id (\<lambda>_ _. False) example_config) = False"
  by code_simp

definition example_server :: Server where
  "example_server = projr (fst (example_new (projr (Validate id (\<lambda>_ _. False) example_config))))"

definition example_meta :: req_meta where "example_meta = \<lparr>rm_id = ''id'', rm_latency = 0\<rparr>"

definition example_admit :: "(proxy_stage \<times> effects) \<times> Server" where
  "example_admit = proxy_admit 5 5 example_meta example_request example_server"

definition example_lease :: KeyLease where
  "example_lease = \<lparr>kl_route = ''mm'', kl_index = 0, kl_done = False\<rparr>"

lemma example_new_server:
  "\<exists>c s'. Validate id (\<lambda>_ _. False) example_config = Inr c \<and> example_new c = (Inr example_server, s')"
proof -
  obtain c where c: "Validate id (\<lambda>_ _. False) example_config = Inr c"
    using example_started by (cases "Validate id (\<lambda>_ _. False) example_config") auto
  then have "isl (fst (example_new c)) = False" using example_started by simp
  then show ?thesis using c unfolding example_server_def
    by (cases "example_new c"; cases "fst (example_new c)") auto
qed

lemma example_admitted:
  "(case example_admit of
      ((Dispatched i rt lease r1, fx), sv') \<Rightarrow> i = 0 \<and> lease = Some example_lease \<and> length (sv_routes sv') = 1
        \<and> (case br_Auth (sv_routes sv' ! 0) of
             Rotating ri \<Rightarrow> ri_route ri = ''mm'' \<and>
               (case ri_store ri of
                  Some st \<Rightarrow> (case st_routes st ''mm'' of Some rs \<Rightarrow> length (rs_keys rs) = 2 | None \<Rightarrow> False)
                | None \<Rightarrow> False)
           | _ \<Rightarrow> False)
    | _ \<Rightarrow> False)"
  by code_simp

lemma example_admit_parts:
  obtains rt r1 fx sv' ri st rs where
    "proxy_admit 5 5 example_meta example_request example_server = ((Dispatched 0 rt (Some example_lease) r1, fx), sv')"
    "injector_at sv' 0 ri" "ri_route ri = ''mm''" "ri_store ri = Some st" "st_routes st ''mm'' = Some rs" "length (rs_keys rs) = 2"
proof -
  obtain rt r1 fx sv' where a: "example_admit = ((Dispatched 0 rt (Some example_lease) r1, fx), sv')"
      and b: "length (sv_routes sv') = 1" "case br_Auth (sv_routes sv' ! 0) of
             Rotating ri \<Rightarrow> ri_route ri = ''mm'' \<and>
               (case ri_store ri of
                  Some st \<Rightarrow> (case st_routes st ''mm'' of Some rs \<Rightarrow> length (rs_keys rs) = 2 | None \<Rightarrow> False)
                | None \<Rightarrow> False)
           | _ \<Rightarrow> False"
    using example_admitted by (auto split: prod.splits proxy_stage.splits)
  then obtain ri st rs where "injector_at sv' 0 ri" "ri_route ri = ''mm''" "ri_store ri = Some st" "st_routes st ''mm'' = Some rs"
    "length (rs_keys rs) = 2"
    by (auto simp: injector_at_def split: Authenticator.splits option.splits)
  with a [unfolded example_admit_def] show thesis by (rule that)
qed

theorem every_lease_settled_witness:
  "\<exists>sv ri st rs. gp_reach example_server sv [\<lparr>fl_route = 0, fl_lease = Some example_lease, fl_open = True\<rparr>]
     \<and> injector_at sv 0 ri \<and> ri_store ri = Some st \<and> st_routes st ''mm'' = Some rs \<and> outstanding (rs_keys rs ! 0) = 1"
proof -
  obtain c s' where c: "Validate id (\<lambda>_ _. False) example_config = Inr c" "example_new c = (Inr example_server, s')"
    using example_new_server by blast
  obtain rt r1 fx sv' ri st rs where a:
    "proxy_admit 5 5 example_meta example_request example_server = ((Dispatched 0 rt (Some example_lease) r1, fx), sv')"
    "injector_at sv' 0 ri" "ri_route ri = ''mm''" "ri_store ri = Some st" "st_routes st ''mm'' = Some rs" "length (rs_keys rs) = 2"
    by (rule example_admit_parts)
  have r: "gp_reach example_server sv' [\<lparr>fl_route = 0, fl_lease = Some example_lease, fl_open = True\<rparr>]"
    using gp_next [OF gp_init gp_dispatch [OF a(1), of "[]"]] by simp
  have "outstanding (rs_keys rs ! 0) = 1"
    using every_lease_settled [OF c example_sort_laws(1) r a(2,4), of rs 0] a(3,5,6)
    by (simp add: example_lease_def)
  with r a show ?thesis by blast
qed

theorem dispatch_requires_authority_witness:
  "\<exists>rt r1 fx sv'. proxy_admit 5 5 example_meta example_request example_server
       = ((Dispatched 0 rt (Some example_lease) r1, fx), sv') \<and> Header_Get (rq_Header r1) GatewayTokenHeader = []"
proof -
  obtain c s' where c: "Validate id (\<lambda>_ _. False) example_config = Inr c" "example_new c = (Inr example_server, s')"
    using example_new_server by blast
  obtain rt r1 fx sv' ri st rs where a:
    "proxy_admit 5 5 example_meta example_request example_server = ((Dispatched 0 rt (Some example_lease) r1, fx), sv')"
    "injector_at sv' 0 ri" "ri_route ri = ''mm''" "ri_store ri = Some st" "st_routes st ''mm'' = Some rs" "length (rs_keys rs) = 2"
    by (rule example_admit_parts)
  from dispatch_requires_authority [OF c gp_init a(1)] a(1) show ?thesis by blast
qed

theorem longest_prefix_wins_witness:
  "match_route ''/mm/v1'' (sv_routes example_server) = Some 0 \<and> HasPrefix ''/mm/v1'' (r_Prefix (br_Route (sv_routes example_server ! 0)))"
proof -
  obtain c s' where c: "Validate id (\<lambda>_ _. False) example_config = Inr c" "example_new c = (Inr example_server, s')"
    using example_new_server by blast
  have m: "match_route ''/mm/v1'' (sv_routes example_server) = Some 0" by code_simp
  from longest_prefix_wins [OF c example_sort_laws, of "''/mm/v1''"] m show ?thesis by (simp add: Let_def)
qed

definition example_usage :: tailExtractor where
  "example_usage = Observe ''{\"total_tokens\":42}'' NewUsageExtractor"

definition example_clock :: settle_clock where
  "example_clock = \<lparr>sc_reset = 6, sc_wall = 6, sc_retire = 6, sc_settle = 6\<rparr>"

definition example_injector :: rotatingInjector where
  "example_injector = \<lparr>ri_keys = [''k1''],
     ri_store = Some (snd (reserve 5 ''mm'' (newRotationStore 0 example_pool_route 1))),
     ri_route = ''mm'', ri_mode = AuthInject, ri_header = ''Authorization'', ri_prefix = ''Bearer ''\<rparr>"

lemma example_unretired: "vendor_retire example_clock 200 example_usage 0 example_injector = (example_injector, [])"
proof -
  have "snd (extractor_VendorSignal 6 example_usage) = False" by code_simp
  then show ?thesis
    by (cases "extractor_VendorSignal 6 example_usage") (simp add: vendor_retire_def example_clock_def isQuotaStatus_def)
qed

lemma example_leased:
  "(case ri_store example_injector of
      Some st \<Rightarrow> b_EstimateTokens (st_budget st) = 0 \<and> (case st_routes st ''mm'' of Some rs \<Rightarrow> length (rs_keys rs) = 1 | None \<Rightarrow> False)
    | None \<Rightarrow> False)"
  by code_simp

lemma example_settled_tokens:
  "ae_Tokens (fst (snd (settleLease example_clock example_pool_route 200 example_usage example_lease example_injector zero_event))) = 42"
  by code_simp

theorem audit_reconciles_witness:
  "\<exists>l' ri' ev' evs st' rs'. settleLease example_clock example_pool_route 200 example_usage example_lease example_injector zero_event
       = ((l', ri'), ev', evs) \<and> ri_store ri' = Some st' \<and> st_routes st' ''mm'' = Some rs' \<and> kl_done l' \<and> ae_Tokens ev' = 42"
proof -
  obtain l' ri' ev' evs where s: "settleLease example_clock example_pool_route 200 example_usage example_lease example_injector zero_event
      = ((l', ri'), ev', evs)" by (metis prod.collapse)
  then have t: "ae_Tokens ev' = 42" using example_settled_tokens by simp
  obtain st rs where st: "ri_store example_injector = Some st" "b_EstimateTokens (st_budget st) = 0" "st_routes st ''mm'' = Some rs"
    "length (rs_keys rs) = 1" using example_leased by (auto split: option.splits)
  have l: "\<not> kl_done example_lease" "kl_index example_lease = int 0" "kl_route example_lease = ''mm''"
    by (simp_all add: example_lease_def)
  have r: "r_Rotation example_pool_route = None" by (simp add: example_pool_route_def)
  have v: "ri_store (fst (vendor_retire example_clock 200 example_usage (kl_index example_lease) example_injector)) = Some st"
    using example_unretired st(1) l(2) by simp
  from audit_reconciles [OF s l(1,2) st(1) _ v, of rs] st l(3) r obtain st' rs' where
    "ri_store ri' = Some st'" "st_routes st' ''mm'' = Some rs'" "kl_done l'" by auto
  with s t show ?thesis by blast
qed

end
