(* ===== verification/Tunnel.thy ===== *)
theory Tunnel
  imports Gateway
begin

text \<open>
  The CONNECT leg of the gateway, \<open>internal/channel/server.go\<close> and \<open>caller_id.go\<close>: token,
  allowlist, tunnel semaphore, the refusal of a target that turned out to be this
  machine, the two deadlines of an open tunnel and the copy loop, and the check
  of the bound socket before anything is served.  The dial, the hijack of the client
  connection and the reads and writes of the tunnel are arguments.
\<close>

section \<open>Caller label\<close>

definition CallerHeader :: string where "CallerHeader = ''X-HLXN-Caller''"
definition maxCallerLen :: nat where "maxCallerLen = 64"

text \<open>A rune above ASCII is a sequence of bytes above ASCII, so filtering bytes filters runes; an
  ASCII control character is below 0x20 or 0x7F.\<close>

definition caller_char :: "char \<Rightarrow> bool" where
  "caller_char c \<longleftrightarrow> (let n = of_char c :: int in 32 < n \<and> n < 127)"

definition SanitiseCaller :: "string \<Rightarrow> string" where
  "SanitiseCaller s = take maxCallerLen (filter caller_char s)"

section \<open>Tunnel slots\<close>

definition tunnelSem :: "Server \<Rightarrow> int \<times> int" where
  "tunnelSem s = (case sv_tunnels s of None \<Rightarrow> (connectMaxConcurrent (sv_cfg s), 0) | Some c \<Rightarrow> c)"

definition acquireTunnel :: "Server \<Rightarrow> bool \<times> Server" where
  "acquireTunnel s =
     (case tunnelSem s of
        (cap, held) \<Rightarrow>
          if held < cap then (True, s\<lparr>sv_tunnels := Some (cap, held + 1)\<rparr>)
          else (False, s\<lparr>sv_tunnels := Some (cap, held)\<rparr>))"

definition releaseTunnel :: "Server \<Rightarrow> Server" where
  "releaseTunnel s = (case tunnelSem s of (cap, held) \<Rightarrow> s\<lparr>sv_tunnels := Some (cap, held - 1)\<rparr>)"

section \<open>Admission of a tunnel\<close>

definition authorizeConnect :: "string \<Rightarrow> string \<Rightarrow> bool" where
  "authorizeConnect connToken header =
     (if connToken = [] \<or> \<not> HasPrefix header ''Bearer '' then False
      else let got = TrimSpace (TrimPrefix header ''Bearer '')
           in if got = [] then False else got = connToken)"

definition servingScope :: "Server \<Rightarrow> Request \<Rightarrow> listenScope" where
  "servingScope s r =
     (if sv_scope s \<noteq> scopeUnknown then sv_scope s
      else case rq_LocalAddr r of Some a \<Rightarrow> boundListenScope a | None \<Rightarrow> scopeReachable)"

datatype connect_answer =
    ConnectDenied int string
  | ConnectUnavailable int
  | ConnectEstablished
  | ConnectDropped

definition connect_target :: "Request \<Rightarrow> string" where
  "connect_target r = (if rq_Host r = [] then rq_URLHost r else rq_Host r)"

definition connect_event :: "Server \<Rightarrow> Request \<Rightarrow> req_meta \<Rightarrow> AuditEvent" where
  "connect_event s r m = zero_event\<lparr>ae_Event := ''connect_denied'', ae_RequestID := rm_id m, ae_Target := connect_target r,
     ae_LatencyMS := rm_latency m, ae_ClientAddr := auditClientAddr (sv_trustForwardedForAudit s) r\<rparr>"

definition connect_deny :: "Server \<Rightarrow> Request \<Rightarrow> req_meta \<Rightarrow> int \<Rightarrow> string \<Rightarrow> connect_answer \<times> effects" where
  "connect_deny s r m status reason =
     (ConnectDenied status reason,
      no_effects\<lparr>fx_audit := [(connect_event s r m)\<lparr>ae_Status := status, ae_Error := reason,
        ae_Caller := SanitiseCaller (Header_Get (rq_Header r) CallerHeader)\<rparr>]\<rparr>)"

text \<open>The checks before the dial.  \<^const>\<open>None\<close> is the handler going on with a slot.\<close>

definition connect_admit ::
  "(string \<Rightarrow> string) \<Rightarrow> req_meta \<Rightarrow> Request \<Rightarrow> Server \<Rightarrow> (connect_answer \<times> effects) option \<times> Server" where
  "connect_admit uni m r s =
     (if \<not> cc_Enabled (c_Connect (sv_cfg s)) then (Some (connect_deny s r m 405 ''connect_disabled''), s)
      else if \<not> authorizeConnect (sv_connToken s) (Header_Get (rq_Header r) ''Proxy-Authorization'')
           then (Some (connect_deny s r m 407 ''bad_token''), s)
      else if ToLower uni (connect_target r) \<notin> set (sv_allowed s)
           then (Some (connect_deny s r m 403 ''host_not_allowlisted''), s)
      else case acquireTunnel s of
             (True, s') \<Rightarrow> (None, s')
           | (False, s') \<Rightarrow>
               (Some (ConnectUnavailable (retry_seconds MinRetryAfter),
                  no_effects\<lparr>fx_metrics := [AdmissionRefusedTotal ''connect'' ''tunnels_at_capacity''],
                             fx_audit := [(connect_event s r m)\<lparr>ae_Status := 503, ae_Error := ''tunnels_at_capacity''\<rparr>]\<rparr>), s'))"

text \<open>From the dial to the established tunnel: \<open>dialed\<close> is the local and remote address of the
  opened socket; \<open>Hijacked ok\<close> says whether the 200 line could be written.\<close>

datatype hijack = HijackUnsupported | HijackFailed | Hijacked bool

definition refusal_reason :: "dial_refusal \<Rightarrow> string" where
  "refusal_reason d =
     (case d of TargetResolvesToLoopback \<Rightarrow> ''target_resolves_to_loopback''
      | TargetResolvesToGatewayHost \<Rightarrow> ''target_resolves_to_gateway_host'')"

definition connect_open ::
  "req_meta \<Rightarrow> (net_addr \<times> net_addr) option \<Rightarrow> hijack \<Rightarrow> Request \<Rightarrow> Server \<Rightarrow> connect_answer \<times> effects" where
  "connect_open m dialed hj r s =
     (case dialed of
        None \<Rightarrow> connect_deny s r m 502 ''dial_failed''
      | Some (local, remote) \<Rightarrow>
          (case connectDialRefusal (servingScope s r) local remote of
             Some d \<Rightarrow> connect_deny s r m 403 (refusal_reason d)
           | None \<Rightarrow>
               (case hj of
                  HijackUnsupported \<Rightarrow> connect_deny s r m 500 ''hijack_unsupported''
                | HijackFailed \<Rightarrow> connect_deny s r m 500 ''hijack_failed''
                | Hijacked ok \<Rightarrow>
                    if \<not> ok then (ConnectDropped, no_effects)
                    else (ConnectEstablished,
                      no_effects\<lparr>fx_audit := [(connect_event s r m)\<lparr>ae_Event := ''connect_established'', ae_Status := 200,
                        ae_Caller := SanitiseCaller (Header_Get (rq_Header r) CallerHeader)\<rparr>]\<rparr>))))"

definition connect_close :: "req_meta \<Rightarrow> int \<Rightarrow> Request \<Rightarrow> Server \<Rightarrow> effects \<times> Server" where
  "connect_close m bytesUp r s =
     (no_effects\<lparr>fx_audit := [(connect_event s r m)\<lparr>ae_Event := ''connect_closed'', ae_BytesOut := bytesUp\<rparr>]\<rparr>,
      releaseTunnel s)"

section \<open>Deadlines of an open tunnel\<close>

text \<open>\<open>td_clientRead\<close> and \<open>td_upstreamRead\<close> are the read deadlines of the two sockets, \<^const>\<open>None\<close>
  before the first is set; the write deadlines are set by \<open>arm\<close> alone.\<close>

datatype tunnel_end = ClientEnd | UpstreamEnd

record tunnelDeadlines =
  td_idle :: duration
  td_linger :: duration
  td_armed :: bool
  td_lingerAt :: time
  td_clientIdleAt :: time
  td_upstreamIdleAt :: time
  td_clientRead :: "time option"
  td_upstreamRead :: "time option"
  td_clientWrite :: "time option"
  td_upstreamWrite :: "time option"

definition new_deadlines :: "duration \<Rightarrow> duration \<Rightarrow> tunnelDeadlines" where
  "new_deadlines idle linger =
     \<lparr>td_idle = (if idle \<le> 0 then DefaultConnectIdleTimeout else idle),
      td_linger = (if linger \<le> 0 then defaultConnectHalfCloseLinger else linger),
      td_armed = False, td_lingerAt = zero_time, td_clientIdleAt = zero_time, td_upstreamIdleAt = zero_time,
      td_clientRead = None, td_upstreamRead = None, td_clientWrite = None, td_upstreamWrite = None\<rparr>"

definition refreshIdle :: "time \<Rightarrow> tunnel_end \<Rightarrow> tunnelDeadlines \<Rightarrow> tunnelDeadlines" where
  "refreshIdle now src d =
     (let t = now + td_idle d; at' = (if td_armed d \<and> td_lingerAt d < t then td_lingerAt d else t)
      in if src = ClientEnd then d\<lparr>td_clientIdleAt := at', td_clientRead := Some at'\<rparr>
         else d\<lparr>td_upstreamIdleAt := at', td_upstreamRead := Some at'\<rparr>)"

definition tightened :: "time \<Rightarrow> time \<Rightarrow> time" where
  "tightened lingerAt idleAt = (if idleAt \<noteq> zero_time \<and> idleAt < lingerAt then idleAt else lingerAt)"

definition arm :: "time \<Rightarrow> tunnelDeadlines \<Rightarrow> tunnelDeadlines" where
  "arm now d =
     (if td_armed d then d
      else let l = now + td_linger d; c = tightened l (td_clientIdleAt d); u = tightened l (td_upstreamIdleAt d)
           in d\<lparr>td_armed := True, td_lingerAt := l, td_clientRead := Some c, td_clientWrite := Some c,
                td_upstreamRead := Some u, td_upstreamWrite := Some u\<rparr>)"

text \<open>One direction of the tunnel: the reads as they happen, each with its time, the bytes read,
  whether the read failed, and the bytes written with the write's success.\<close>

record tunnel_read =
  tr_at :: time
  tr_n :: int
  tr_failed :: bool
  tr_written :: int
  tr_write_ok :: bool

fun copyTunnelHalf :: "tunnel_end \<Rightarrow> tunnel_read list \<Rightarrow> tunnelDeadlines \<Rightarrow> int \<Rightarrow> int \<times> tunnelDeadlines" where
  "copyTunnelHalf src [] d sent = (sent, d)"
| "copyTunnelHalf src (r # rs) d sent =
     (let d' = refreshIdle (tr_at r) src d;
          sent' = (if 0 < tr_n r then sent + tr_written r else sent)
      in if (0 < tr_n r \<and> \<not> tr_write_ok r) \<or> tr_failed r then (sent', d')
         else copyTunnelHalf src rs d' sent')"

section \<open>The bound socket\<close>

datatype bind_refusal =
    TokenlessReachable string string
  | AllowedHostLocal string self_reference string

fun bind_hosts :: "(string \<Rightarrow> string) \<Rightarrow> (string \<Rightarrow> string \<Rightarrow> bool) \<Rightarrow> string \<Rightarrow> string list \<Rightarrow> bind_refusal option" where
  "bind_hosts uni ufold bound [] = None"
| "bind_hosts uni ufold bound (h # hs) =
     (case SplitHostPort h of
        None \<Rightarrow> bind_hosts uni ufold bound hs
      | Some (host, port) \<Rightarrow>
          (case connectSelfReference uni ufold host port bound False of
             Some why \<Rightarrow> Some (AllowedHostLocal h why bound)
           | None \<Rightarrow> bind_hosts uni ufold bound hs))"

text \<open>\<open>bound\<close> is the printed form of the listener's address.\<close>

definition bindRefusal ::
  "(string \<Rightarrow> string) \<Rightarrow> (string \<Rightarrow> string \<Rightarrow> bool) \<Rightarrow> string \<Rightarrow> listenScope \<Rightarrow> Server \<Rightarrow> bind_refusal option" where
  "bindRefusal uni ufold bound scope s =
     (if scope = scopeLoopbackOnly then None
      else if sv_proxyAuth s = ProxyAuthLoopbackOnly then Some (TokenlessReachable bound (c_Listen (sv_cfg s)))
      else if \<not> cc_Enabled (c_Connect (sv_cfg s)) then None
      else bind_hosts uni ufold bound (cc_AllowedHosts (c_Connect (sv_cfg s))))"

text \<open>\<open>Serve\<close> and \<open>ServeWrapped\<close> up to handing the listener to \<open>net/http\<close>; a refusal closes it.\<close>

definition Serve ::
  "(string \<Rightarrow> string) \<Rightarrow> (string \<Rightarrow> string \<Rightarrow> bool) \<Rightarrow> net_addr \<Rightarrow> string \<Rightarrow> Server \<Rightarrow> bind_refusal option \<times> Server" where
  "Serve uni ufold addr bound s =
     (let scope = boundListenScope addr; s' = s\<lparr>sv_scope := scope\<rparr>
      in (bindRefusal uni ufold bound scope s', s'))"

definition ServeWrapped ::
  "(string \<Rightarrow> string) \<Rightarrow> (string \<Rightarrow> string \<Rightarrow> bool) \<Rightarrow> net_addr \<Rightarrow> string \<Rightarrow> Server \<Rightarrow> bind_refusal option \<times> Server" where
  "ServeWrapped uni ufold addr bound s = (bindRefusal uni ufold bound (boundListenScope addr) s, s)"

section \<open>Dispatch\<close>

datatype leg = ConnectLeg | HealthLeg | ProxyLeg

definition Handler :: "Request \<Rightarrow> leg" where
  "Handler r =
     (if rq_Method r = ''CONNECT'' then ConnectLeg
      else if rq_Path r = ''/healthz'' \<or> rq_Path r = ''/health'' then HealthLeg
      else ProxyLeg)"


section \<open>Tunnels in flight\<close>

datatype tunnel_phase = TDialing | TOpen | TDone

inductive tn_step :: "Server \<Rightarrow> tunnel_phase list \<Rightarrow> Server \<Rightarrow> tunnel_phase list \<Rightarrow> bool" where
  tn_refused: "connect_admit uni m r s = (Some a, s') \<Longrightarrow> tn_step s ts s' ts"
| tn_dial: "connect_admit uni m r s = (None, s') \<Longrightarrow> tn_step s ts s' (ts @ [TDialing])"
| tn_open: "j < length ts \<Longrightarrow> ts ! j = TDialing \<Longrightarrow> connect_open m dialed hj r s = (ConnectEstablished, fx) \<Longrightarrow>
     tn_step s ts s (ts[j := TOpen])"
| tn_fail: "j < length ts \<Longrightarrow> ts ! j = TDialing \<Longrightarrow> connect_open m dialed hj r s = (a, fx) \<Longrightarrow> a \<noteq> ConnectEstablished \<Longrightarrow>
     tn_step s ts (releaseTunnel s) (ts[j := TDone])"
| tn_close: "j < length ts \<Longrightarrow> ts ! j = TOpen \<Longrightarrow> connect_close m n r s = (fx, s') \<Longrightarrow>
     tn_step s ts s' (ts[j := TDone])"

inductive tn_reach :: "Server \<Rightarrow> Server \<Rightarrow> tunnel_phase list \<Rightarrow> bool" for s0 where
  tn_init: "tn_reach s0 s0 []"
| tn_next: "tn_reach s0 s ts \<Longrightarrow> tn_step s ts s' ts' \<Longrightarrow> tn_reach s0 s' ts'"

definition alive :: "tunnel_phase list \<Rightarrow> int" where
  "alive ts = count_if (\<lambda>t. t \<noteq> TDone) ts"

definition tn_inv :: "int \<Rightarrow> Server \<Rightarrow> tunnel_phase list \<Rightarrow> bool" where
  "tn_inv cap s ts \<longleftrightarrow> tunnelSem s = (cap, alive ts) \<and> alive ts \<le> cap"

lemma connect_admit_sem:
  assumes "connect_admit uni m r s = (res, s')" "tunnelSem s = (cap, held)"
  shows "tunnelSem s' = (cap, held + (if res = None then 1 else 0)) \<and> (res = None \<longrightarrow> held < cap)"
  using assms
  by (auto simp: connect_admit_def acquireTunnel_def tunnelSem_def split: if_splits prod.splits bool.splits option.splits)

lemma releaseTunnel_sem: "tunnelSem s = (cap, held) \<Longrightarrow> tunnelSem (releaseTunnel s) = (cap, held - 1)"
  by (simp add: releaseTunnel_def tunnelSem_def)

lemma alive_update:
  "j < length ts \<Longrightarrow> alive (ts[j := t]) = alive ts - (if ts ! j = TDone then 0 else 1) + (if t = TDone then 0 else 1)"
  by (simp add: alive_def count_if_update)

lemma tn_step_inv: "tn_step s ts s' ts' \<Longrightarrow> tn_inv cap s ts \<Longrightarrow> tn_inv cap s' ts'"
proof (induction rule: tn_step.induct)
  case (tn_refused uni m r s a s' ts)
  then show ?case using connect_admit_sem [OF tn_refused(1)] by (auto simp: tn_inv_def)
next
  case (tn_dial uni m r s s' ts)
  then show ?case using connect_admit_sem [OF tn_dial(1)] by (auto simp: tn_inv_def alive_def)
next
  case (tn_open j ts m dialed hj r s fx)
  then show ?case by (simp add: tn_inv_def alive_update)
next
  case (tn_fail j ts m dialed hj r s a fx)
  then show ?case by (simp add: tn_inv_def alive_update releaseTunnel_sem)
next
  case (tn_close j ts m n r s fx s')
  then show ?case by (auto simp: tn_inv_def alive_update connect_close_def releaseTunnel_sem)
qed

lemma tn_reach_inv: "tn_reach s0 s ts \<Longrightarrow> tn_inv cap s0 [] \<Longrightarrow> tn_inv cap s ts"
  by (induction rule: tn_reach.induct) (auto intro: tn_step_inv)

lemma tn_step_posture:
  "tn_step s ts s' ts' \<Longrightarrow> sv_cfg s' = sv_cfg s \<and> sv_allowed s' = sv_allowed s \<and> sv_connToken s' = sv_connToken s \<and> sv_scope s' = sv_scope s"
proof (induction rule: tn_step.induct)
  case (tn_refused uni m r s a s' ts)
  then show ?case by (auto simp: connect_admit_def acquireTunnel_def split: if_splits prod.splits bool.splits)
next
  case (tn_dial uni m r s s' ts)
  then show ?case by (auto simp: connect_admit_def acquireTunnel_def split: if_splits prod.splits bool.splits)
qed (auto simp: connect_close_def releaseTunnel_def split: prod.splits)

lemma tn_reach_posture:
  "tn_reach s0 s ts \<Longrightarrow> sv_cfg s = sv_cfg s0 \<and> sv_allowed s = sv_allowed s0 \<and> sv_connToken s = sv_connToken s0"
  by (induction rule: tn_reach.induct) (auto dest: tn_step_posture)

section \<open>Deadlines over time\<close>

datatype tunnel_op = Refresh tunnel_end | Arm

fun tunnel_op_step :: "time \<times> tunnel_op \<Rightarrow> tunnelDeadlines \<Rightarrow> tunnelDeadlines" where
  "tunnel_op_step (t, Refresh e) d = refreshIdle t e d"
| "tunnel_op_step (t, Arm) d = arm t d"

text \<open>The instant of the first arming, if any.\<close>

fun first_arm :: "(time \<times> tunnel_op) list \<Rightarrow> time option" where
  "first_arm [] = None"
| "first_arm ((t, Arm) # ops) = Some t"
| "first_arm (_ # ops) = first_arm ops"

text \<open>A read deadline and the idle instant remembered for it: none set yet, or both the same.\<close>

definition remembered :: "time option \<Rightarrow> time \<Rightarrow> bool" where
  "remembered read idleAt \<longleftrightarrow> (read = None \<and> idleAt = zero_time) \<or> (read = Some idleAt \<and> 0 < idleAt)"

definition td_inv :: "tunnelDeadlines \<Rightarrow> bool" where
  "td_inv d \<longleftrightarrow> 0 < td_idle d \<and> 0 < td_linger d \<and>
     (if td_armed d then 0 < td_lingerAt d \<and>
        (\<forall>rd \<in> {td_clientRead d, td_upstreamRead d, td_clientWrite d, td_upstreamWrite d}. \<exists>t. rd = Some t \<and> t \<le> td_lingerAt d)
      else remembered (td_clientRead d) (td_clientIdleAt d) \<and> remembered (td_upstreamRead d) (td_upstreamIdleAt d)
           \<and> td_clientWrite d = None \<and> td_upstreamWrite d = None)"

lemma td_inv_new: "td_inv (new_deadlines idle linger)"
  by (simp add: td_inv_def new_deadlines_def remembered_def DefaultConnectIdleTimeout_def defaultConnectHalfCloseLinger_def)

lemma refreshIdle_inv: "td_inv d \<Longrightarrow> 0 \<le> now \<Longrightarrow> td_inv (refreshIdle now e d)"
  by (cases "td_armed d"; cases e) (auto simp: td_inv_def refreshIdle_def Let_def remembered_def)

lemma arm_inv: "td_inv d \<Longrightarrow> 0 \<le> now \<Longrightarrow> td_inv (arm now d)"
  by (cases "td_armed d") (auto simp: td_inv_def arm_def Let_def tightened_def)

lemma tunnel_op_inv: "td_inv d \<Longrightarrow> 0 \<le> fst op \<Longrightarrow> td_inv (tunnel_op_step op d)"
  by (cases op; cases "snd op") (auto simp: refreshIdle_inv arm_inv)

lemma fold_tunnel_inv: "td_inv d \<Longrightarrow> \<forall>op \<in> set ops. 0 \<le> fst op \<Longrightarrow> td_inv (fold tunnel_op_step ops d)"
  by (induction ops arbitrary: d) (auto simp: tunnel_op_inv)

lemma tunnel_op_fields [simp]:
  "td_idle (tunnel_op_step op d) = td_idle d" "td_linger (tunnel_op_step op d) = td_linger d"
  by (cases op; cases "snd op"; auto simp: refreshIdle_def arm_def Let_def)+

lemma armed_stays: "td_armed d \<Longrightarrow> td_armed (tunnel_op_step op d) \<and> td_lingerAt (tunnel_op_step op d) = td_lingerAt d"
  by (cases op; cases "snd op") (auto simp: refreshIdle_def arm_def Let_def)

lemma fold_armed:
  "td_armed d \<Longrightarrow> td_armed (fold tunnel_op_step ops d) \<and> td_lingerAt (fold tunnel_op_step ops d) = td_lingerAt d"
proof (induction ops arbitrary: d)
  case (Cons op ops)
  from armed_stays [OF Cons.prems, of op] Cons.IH [of "tunnel_op_step op d"] show ?case by simp
qed simp

lemma fold_first_arm:
  "\<not> td_armed d \<Longrightarrow> (case first_arm ops of
      None \<Rightarrow> \<not> td_armed (fold tunnel_op_step ops d)
    | Some t \<Rightarrow> td_armed (fold tunnel_op_step ops d) \<and> td_lingerAt (fold tunnel_op_step ops d) = t + td_linger d)"
proof (induction ops arbitrary: d rule: first_arm.induct)
  case (2 t ops)
  have "td_armed (arm t d)" "td_lingerAt (arm t d) = t + td_linger d" using 2 by (simp_all add: arm_def Let_def)
  then show ?case using fold_armed [of "arm t d" ops] by simp
next
  case (3 t e ops)
  have "\<not> td_armed (refreshIdle t e d)" "td_linger (refreshIdle t e d) = td_linger d"
    using 3(2) by (auto simp: refreshIdle_def Let_def)
  then show ?case using 3(1) [of "refreshIdle t e d"] by (simp split: option.splits)
qed simp

section \<open>Properties\<close>

text \<open>C24: The tunnel ceiling holds and no slot leaks.  However CONNECT requests arrive, fail, open and
  close, the slots taken are exactly the tunnels being dialled or open, never more than the
  configured ceiling; a request that finds the gateway full is answered without a dial, and
  when every tunnel has ended every slot is free again.\<close>

theorem tunnel_slots_bounded:
  assumes "NewServer sp uni sort_routes start linger c st = (Inr s0, st')" "cc_Enabled (c_Connect c)"
    and "tn_reach s0 s ts"
  shows "tunnelSem s = (connectMaxConcurrent c, alive ts) \<and> alive ts \<le> connectMaxConcurrent c
    \<and> (alive ts = connectMaxConcurrent c \<longrightarrow> fst (connect_admit uni m r s) \<noteq> None)
    \<and> ((\<forall>t \<in> set ts. t = TDone) \<longrightarrow> snd (tunnelSem s) = 0)"
proof -
  have "0 < connectMaxConcurrent c" by (simp add: connectMaxConcurrent_def DefaultConnectMaxConcurrent_def)
  moreover have "tunnelSem s0 = (connectMaxConcurrent c, 0)"
    using assms(1,2) by (auto simp: NewServer_def tunnelSem_def split: prod.splits sum.splits)
  ultimately have "tn_inv (connectMaxConcurrent c) s0 []" by (simp add: tn_inv_def alive_def)
  then have i: "tn_inv (connectMaxConcurrent c) s ts" by (rule tn_reach_inv [OF assms(3)])
  obtain res s' where a: "connect_admit uni m r s = (res, s')" by (cases "connect_admit uni m r s")
  have "alive ts = 0" if "\<forall>t \<in> set ts. t = TDone"
    using that by (induction ts) (auto simp: alive_def)
  with i connect_admit_sem [OF a, of "connectMaxConcurrent c" "alive ts"] show ?thesis
    by (auto simp: tn_inv_def a)
qed


text \<open>C31: Neither bound of a tunnel loosens the other.  Over any sequence of idle refreshes and
  armings, a socket's read deadline never lies more than the idle bound past its last refresh;
  from the first arming on, all read and write deadlines of both sockets exist and
  never lie past that instant plus the linger bound, whatever is refreshed later; and
  arming never moves a read deadline that is already set to a later instant.\<close>

theorem tunnel_deadlines_only_tighten:
  assumes "\<forall>op \<in> set ops. 0 \<le> fst op" "0 \<le> now"
  shows "let d = fold tunnel_op_step ops (new_deadlines idle linger) in
      (\<forall>t. first_arm ops = Some t \<longrightarrow>
         (\<forall>rd \<in> {td_clientRead d, td_upstreamRead d, td_clientWrite d, td_upstreamWrite d}.
            \<exists>x. rd = Some x \<and> x \<le> t + td_linger d))
    \<and> (\<forall>x. td_clientRead (refreshIdle now ClientEnd d) = Some x \<longrightarrow> x \<le> now + td_idle d)
    \<and> (\<forall>x. td_upstreamRead (refreshIdle now UpstreamEnd d) = Some x \<longrightarrow> x \<le> now + td_idle d)
    \<and> (\<forall>x y. td_clientRead d = Some x \<and> td_clientRead (arm now d) = Some y \<longrightarrow> y \<le> x)
    \<and> (\<forall>x y. td_upstreamRead d = Some x \<and> td_upstreamRead (arm now d) = Some y \<longrightarrow> y \<le> x)"
proof -
  define d where "d = fold tunnel_op_step ops (new_deadlines idle linger)"
  have i: "td_inv d" unfolding d_def by (rule fold_tunnel_inv [OF td_inv_new assms(1)])
  have l: "td_linger d = td_linger (new_deadlines idle linger)"
    unfolding d_def by (induction ops arbitrary: idle rule: rev_induct) simp_all
  have f: "td_armed d \<and> td_lingerAt d = t + td_linger d" if "first_arm ops = Some t" for t
    using fold_first_arm [of "new_deadlines idle linger" ops] that l unfolding d_def [symmetric]
    by (simp add: new_deadlines_def)
  have "\<forall>t. first_arm ops = Some t \<longrightarrow>
         (\<forall>rd \<in> {td_clientRead d, td_upstreamRead d, td_clientWrite d, td_upstreamWrite d}. \<exists>x. rd = Some x \<and> x \<le> t + td_linger d)"
    using f i by (auto simp: td_inv_def)
  moreover have "y \<le> x" if "td_clientRead d = Some x" "td_clientRead (arm now d) = Some y" for x y
    using that i by (cases "td_armed d") (auto simp: td_inv_def remembered_def arm_def Let_def tightened_def zero_time_def split: if_splits)
  moreover have "y \<le> x" if "td_upstreamRead d = Some x" "td_upstreamRead (arm now d) = Some y" for x y
    using that i by (cases "td_armed d") (auto simp: td_inv_def remembered_def arm_def Let_def tightened_def zero_time_def split: if_splits)
  ultimately show ?thesis unfolding d_def [symmetric] Let_def by (auto simp: refreshIdle_def Let_def)
qed


definition example_public :: Config where
  "example_public = example_gateway\<lparr>c_Listen := ''0.0.0.0:14443'',
     c_GatewayAuth := (c_GatewayAuth example_gateway)\<lparr>ga_AllowUnauthenticated := True\<rparr>\<rparr>"

definition example_tunnel_world :: secret_world where
  "example_tunnel_world = example_world\<lparr>sw_lookup := (sw_lookup example_world)(''T'' := Some ''tok'')\<rparr>"

definition example_tunnel_config :: Config where
  "example_tunnel_config = projr (Validate id (\<lambda>_ _. False) example_public)"

definition example_tunnel_server :: Server where
  "example_tunnel_server = projr (fst (NewServer Resolver_Resolve id id 0 0 example_tunnel_config
     (NewDefaultSecretProvider example_tunnel_world)))"

definition example_connect :: Request where
  "example_connect = example_request\<lparr>rq_Method := ''CONNECT'', rq_Host := ''API.anthropic.com:443'',
     rq_Header := [(''Proxy-Authorization'', [''Bearer tok''])]\<rparr>"

abbreviation example_tunnel_meta :: req_meta where "example_tunnel_meta \<equiv> \<lparr>rm_id = ''id'', rm_latency = 0\<rparr>"

definition example_bind :: net_addr where "example_bind = TCPAddr (Some (IPv4 0 0 0 0))"

lemma example_tunnel_started:
  "isl (Validate id (\<lambda>_ _. False) example_public) = False
   \<and> isl (fst (NewServer Resolver_Resolve id id 0 0 example_tunnel_config (NewDefaultSecretProvider example_tunnel_world))) = False
   \<and> cc_Enabled (c_Connect example_tunnel_config)"
  by code_simp

lemma example_tunnel_new:
  "Validate id (\<lambda>_ _. False) example_public = Inr example_tunnel_config"
  "\<exists>s'. NewServer Resolver_Resolve id id 0 0 example_tunnel_config (NewDefaultSecretProvider example_tunnel_world)
     = (Inr example_tunnel_server, s')"
proof -
  show "Validate id (\<lambda>_ _. False) example_public = Inr example_tunnel_config"
    using example_tunnel_started unfolding example_tunnel_config_def
    by (cases "Validate id (\<lambda>_ _. False) example_public") auto
  let ?n = "NewServer Resolver_Resolve id id 0 0 example_tunnel_config (NewDefaultSecretProvider example_tunnel_world)"
  show "\<exists>s'. ?n = (Inr example_tunnel_server, s')"
    using example_tunnel_started unfolding example_tunnel_server_def by (cases ?n; cases "fst ?n") auto
qed

lemma example_serve: "fst (Serve id (\<lambda>_ _. False) example_bind ''[::]:14443'' example_tunnel_server) = None"
  by code_simp

lemma example_connect_admitted:
  "fst (connect_admit id example_tunnel_meta example_connect
      (snd (Serve id (\<lambda>_ _. False) example_bind ''[::]:14443'' example_tunnel_server))) = None
   \<and> fst (connect_admit id example_tunnel_meta example_connect example_tunnel_server) = None
   \<and> fst (connect_open example_tunnel_meta (Some (TCPAddr (Some (IPv4 10 0 0 1)), TCPAddr (Some (IPv4 93 184 216 34)))) (Hijacked True)
        example_connect (snd (Serve id (\<lambda>_ _. False) example_bind ''[::]:14443'' example_tunnel_server))) = ConnectEstablished"
  by code_simp

theorem tunnel_slots_bounded_witness:
  "\<exists>s. tn_reach example_tunnel_server s [TDialing] \<and> tunnelSem s = (256, 1)"
proof -
  obtain s' where n: "NewServer Resolver_Resolve id id 0 0 example_tunnel_config (NewDefaultSecretProvider example_tunnel_world)
     = (Inr example_tunnel_server, s')" using example_tunnel_new(2) by blast
  obtain s where a: "connect_admit id example_tunnel_meta example_connect example_tunnel_server = (None, s)"
    using example_connect_admitted by (cases "connect_admit id example_tunnel_meta example_connect example_tunnel_server") simp
  have r: "tn_reach example_tunnel_server s [TDialing]" using tn_next [OF tn_init tn_dial [OF a, of "[]"]] by simp
  have c: "connectMaxConcurrent example_tunnel_config = 256" by code_simp
  have e: "cc_Enabled (c_Connect example_tunnel_config)" using example_tunnel_started by simp
  from tunnel_slots_bounded [OF n e r] c r show ?thesis by (auto simp: alive_def)
qed


theorem tunnel_deadlines_only_tighten_witness:
  "\<exists>x. td_clientRead (fold tunnel_op_step [(0, Refresh ClientEnd), (5, Arm), (7, Refresh ClientEnd)] (new_deadlines 100 10)) = Some x
     \<and> x \<le> 15"
proof -
  have l: "td_linger (fold tunnel_op_step [(0, Refresh ClientEnd), (5, Arm), (7, Refresh ClientEnd)] (new_deadlines 100 10)) = 10"
    by code_simp
  show ?thesis
    using tunnel_deadlines_only_tighten [of "[(0, Refresh ClientEnd), (5, Arm), (7, Refresh ClientEnd)]" 8 100 10] l
    by (simp add: Let_def)
qed

end
