(* ===== verification/Go_Aes_Gcm.thy ===== *)
theory Go_Aes_Gcm
  imports "HOL-Library.Word"
begin

text \<open>
  The part of the Go packages \<open>crypto/aes\<close>, \<open>crypto/cipher\<close> and
  \<open>encoding/binary\<close> that the encrypted connection of
  \<open>internal/crypto/wrap.go\<close> calls: AES-256 on one block, the GCM mode with
  a 12-byte nonce, a 16-byte tag and no additional data, and the big-endian
  \<open>uint32\<close>.  A Go byte is an \<open>8 word\<close> and a byte slice a list of them.  The
  cipher is written out from its standard, so \<open>Open\<close> undoing \<open>Seal\<close>, and
  \<open>Open\<close> accepting only what \<open>Seal\<close> produces, are theorems here.
\<close>

unbundle bit_operations_syntax

type_synonym byte = "8 word"
type_synonym bytes = "byte list"

section \<open>AES-256 on one block\<close>

definition xtime :: "byte \<Rightarrow> byte" where
  "xtime b = push_bit 1 b XOR (if bit b 7 then 0x1b else 0)"

fun gf_mul :: "nat \<Rightarrow> byte \<Rightarrow> byte \<Rightarrow> byte" where
  "gf_mul 0 a b = 0"
| "gf_mul (Suc n) a b = (if bit b 0 then a else 0) XOR gf_mul n (xtime a) (drop_bit 1 b)"

fun gf_pow :: "byte \<Rightarrow> nat \<Rightarrow> byte" where
  "gf_pow a 0 = 1"
| "gf_pow a (Suc n) = gf_mul 8 a (gf_pow a n)"

definition sbox :: "byte \<Rightarrow> byte" where
  "sbox b = (let i = gf_pow b 254
     in i XOR word_rotl 1 i XOR word_rotl 2 i XOR word_rotl 3 i XOR word_rotl 4 i XOR 0x63)"

definition xor_bytes :: "bytes \<Rightarrow> bytes \<Rightarrow> bytes" where
  "xor_bytes xs ys = map2 (XOR) xs ys"

text \<open>The key schedule: the list of four-byte words, extended one word at a time.\<close>

fun expand_key :: "nat \<Rightarrow> byte \<Rightarrow> bytes list \<Rightarrow> bytes list" where
  "expand_key 0 rc ws = ws"
| "expand_key (Suc n) rc ws =
     (let i = length ws; t = ws ! (i - 1);
          t' = (if i mod 8 = 0 then xor_bytes (map sbox (rotate1 t)) [rc, 0, 0, 0]
                else if i mod 8 = 4 then map sbox t else t)
      in expand_key n (if i mod 8 = 0 then xtime rc else rc) (ws @ [xor_bytes (ws ! (i - 8)) t']))"

fun group4 :: "bytes \<Rightarrow> bytes list" where
  "group4 (a # b # c # d # xs) = [a, b, c, d] # group4 xs"
| "group4 xs = []"

definition round_keys :: "bytes \<Rightarrow> bytes" where
  "round_keys key = concat (expand_key 52 1 (group4 key))"

definition shift_rows :: "bytes \<Rightarrow> bytes" where
  "shift_rows s = map (\<lambda>i. s ! ((i + 4 * (i mod 4)) mod 16)) [0..<16]"

fun mix_columns :: "bytes \<Rightarrow> bytes" where
  "mix_columns (a # b # c # d # xs) =
     (xtime a XOR xtime b XOR b XOR c XOR d) # (a XOR xtime b XOR xtime c XOR c XOR d)
     # (a XOR b XOR xtime c XOR xtime d XOR d) # (xtime a XOR a XOR b XOR c XOR xtime d)
     # mix_columns xs"
| "mix_columns xs = []"

definition round_key :: "bytes \<Rightarrow> nat \<Rightarrow> bytes" where
  "round_key rk r = take 16 (drop (16 * r) rk)"

fun aes_rounds :: "bytes \<Rightarrow> nat list \<Rightarrow> bytes \<Rightarrow> bytes" where
  "aes_rounds rk [] s = s"
| "aes_rounds rk (r # rs) s =
     aes_rounds rk rs (xor_bytes (mix_columns (shift_rows (map sbox s))) (round_key rk r))"

definition aes_encrypt :: "bytes \<Rightarrow> bytes \<Rightarrow> bytes" where
  "aes_encrypt key blk =
     (let rk = round_keys key
      in xor_bytes (shift_rows (map sbox (aes_rounds rk [1..<14] (xor_bytes blk (round_key rk 0)))))
           (round_key rk 14))"

section \<open>Big-endian integers\<close>

definition PutUint32 :: "32 word \<Rightarrow> bytes" where
  "PutUint32 w = [ucast (drop_bit 24 w), ucast (drop_bit 16 w), ucast (drop_bit 8 w), ucast w]"

definition Uint32 :: "bytes \<Rightarrow> 32 word" where
  "Uint32 b = push_bit 24 (ucast (b ! 0)) OR push_bit 16 (ucast (b ! 1))
                OR push_bit 8 (ucast (b ! 2)) OR ucast (b ! 3)"

lemma length_PutUint32 [simp]: "length (PutUint32 w) = 4"
  by (simp add: PutUint32_def)

lemma Uint32_PutUint32 [simp]: "Uint32 (PutUint32 w) = w"
proof (rule bit_word_eqI)
  fix n assume "n < LENGTH(32)"
  then consider "n < 8" | "8 \<le> n" "n < 16" | "16 \<le> n" "n < 24" | "24 \<le> n" "n < 32" by fastforce
  then show "bit (Uint32 (PutUint32 w)) n \<longleftrightarrow> bit w n"
    by cases (auto simp: Uint32_def PutUint32_def bit_simps dest: bit_imp_le_length)
qed

section \<open>The GCM mode\<close>

definition block_word :: "bytes \<Rightarrow> 128 word" where
  "block_word bs = foldl (\<lambda>a b. push_bit 8 a OR ucast b) 0 bs"

definition word_block :: "128 word \<Rightarrow> bytes" where
  "word_block w = map (\<lambda>i. ucast (drop_bit (8 * (15 - i)) w)) [0..<16]"

fun ghash_mul :: "nat \<Rightarrow> 128 word \<Rightarrow> 128 word \<Rightarrow> 128 word \<Rightarrow> 128 word" where
  "ghash_mul 0 x v z = z"
| "ghash_mul (Suc n) x v z =
     ghash_mul n x (if bit v 0 then drop_bit 1 v XOR push_bit 120 0xe1 else drop_bit 1 v)
       (if bit x n then z XOR v else z)"

fun ghash :: "128 word \<Rightarrow> 128 word \<Rightarrow> 128 word list \<Rightarrow> 128 word" where
  "ghash h y [] = y"
| "ghash h y (x # xs) = ghash h (ghash_mul 128 (y XOR x) h 0) xs"

function blocks16 :: "bytes \<Rightarrow> bytes list" where
  "blocks16 bs = (if bs = [] then [] else take 16 (take 16 bs @ replicate 16 0) # blocks16 (drop 16 bs))"
  by pat_completeness auto
termination by (relation "measure length") auto

definition keystream :: "bytes \<Rightarrow> bytes \<Rightarrow> nat \<Rightarrow> bytes" where
  "keystream key nonce n =
     concat (map (\<lambda>i. aes_encrypt key (nonce @ PutUint32 (word_of_nat (i + 2)))) [0..<(n + 15) div 16])"

definition gcm_ctr :: "bytes \<Rightarrow> bytes \<Rightarrow> bytes \<Rightarrow> bytes" where
  "gcm_ctr key nonce p = xor_bytes p (keystream key nonce (length p))"

definition gcm_tag :: "bytes \<Rightarrow> bytes \<Rightarrow> bytes \<Rightarrow> bytes" where
  "gcm_tag key nonce c =
     (let h = block_word (aes_encrypt key (replicate 16 0));
          s = ghash h 0 (map block_word (blocks16 c) @ [word_of_nat (8 * length c)])
      in word_block (s XOR block_word (aes_encrypt key (nonce @ PutUint32 1))))"

definition gcm_Seal :: "bytes \<Rightarrow> bytes \<Rightarrow> bytes \<Rightarrow> bytes" where
  "gcm_Seal key nonce p = (let c = gcm_ctr key nonce p in c @ gcm_tag key nonce c)"

definition gcm_Open :: "bytes \<Rightarrow> bytes \<Rightarrow> bytes \<Rightarrow> bytes option" where
  "gcm_Open key nonce s =
     (if length s < 16 then None
      else let c = take (length s - 16) s; t = drop (length s - 16) s
           in if gcm_tag key nonce c = t then Some (gcm_ctr key nonce c) else None)"

section \<open>Opening what was sealed\<close>

lemma length_xor_bytes [simp]: "length (xor_bytes xs ys) = min (length xs) (length ys)"
  by (simp add: xor_bytes_def)

lemma xor_bytes_cancel: "length xs \<le> length ys \<Longrightarrow> xor_bytes (xor_bytes xs ys) ys = xs"
  by (rule nth_equalityI) (auto simp: xor_bytes_def xor.assoc)

lemma length_shift_rows [simp]: "length (shift_rows s) = 16"
  by (simp add: shift_rows_def)

lemma length_word_block [simp]: "length (word_block w) = 16"
  by (simp add: word_block_def)

lemma length_group4: "length (group4 bs) = length bs div 4"
  by (induction bs rule: group4.induct) auto

lemma group4_words: "w \<in> set (group4 bs) \<Longrightarrow> length w = 4"
  by (induction bs rule: group4.induct) auto

lemma expand_key_length:
  assumes "8 \<le> length ws" "\<forall>w \<in> set ws. length w = 4"
  shows "length (expand_key n rc ws) = length ws + n \<and> (\<forall>w \<in> set (expand_key n rc ws). length w = 4)"
  using assms
proof (induction n arbitrary: rc ws)
  case (Suc n)
  have l: "length (ws ! (length ws - 1)) = 4" "length (ws ! (length ws - 8)) = 4"
    using Suc.prems by (auto intro!: bspec [OF Suc.prems(2)] nth_mem)
  then obtain t rc' where t: "length t = 4"
    and e: "expand_key (Suc n) rc ws = expand_key n rc' (ws @ [xor_bytes (ws ! (length ws - 8)) t])"
    by (intro that [of "if length ws mod 8 = 0 then xor_bytes (map sbox (rotate1 (ws ! (length ws - 1)))) [rc, 0, 0, 0]
                        else if length ws mod 8 = 4 then map sbox (ws ! (length ws - 1)) else ws ! (length ws - 1)"
                    "if length ws mod 8 = 0 then xtime rc else rc"])
       (simp_all add: Let_def del: One_nat_def)
  let ?ws = "ws @ [xor_bytes (ws ! (length ws - 8)) t]"
  have "8 \<le> length ?ws" "\<forall>w \<in> set ?ws. length w = 4"
    using Suc.prems t l(2) by simp_all
  from Suc.IH [OF this, of rc'] show ?case unfolding e by (simp del: expand_key.simps)
qed simp

lemma length_round_keys:
  assumes "length key = 32" shows "length (round_keys key) = 240"
proof -
  let ?ws = "expand_key 52 1 (group4 key)"
  have l: "length ?ws = 60" "\<forall>w \<in> set ?ws. length w = 4"
    using expand_key_length [of "group4 key" 52 1] assms by (auto simp: length_group4 group4_words)
  have "length (concat ?ws) = sum_list (map (\<lambda>w. 4) ?ws)"
    unfolding length_concat by (rule arg_cong [of _ _ sum_list], rule map_cong) (use l in auto)
  also have "\<dots> = 240" using l(1) by (simp add: sum_list_triv)
  finally show ?thesis by (simp add: round_keys_def)
qed

lemma length_aes_encrypt: "length key = 32 \<Longrightarrow> length (aes_encrypt key blk) = 16"
  by (simp add: aes_encrypt_def Let_def round_key_def length_round_keys)

lemma length_keystream:
  assumes "length key = 32" shows "n \<le> length (keystream key nonce n)"
proof -
  have "length (keystream key nonce n) = sum_list (map (\<lambda>i. 16) [0..<(n + 15) div 16])"
    unfolding keystream_def length_concat map_map
    by (rule arg_cong [of _ _ sum_list], rule map_cong) (use assms in \<open>auto simp: length_aes_encrypt\<close>)
  then show ?thesis by (simp add: sum_list_triv)
qed

lemma length_gcm_ctr [simp]: "length key = 32 \<Longrightarrow> length (gcm_ctr key nonce p) = length p"
  using length_keystream [of key "length p" nonce] by (simp add: gcm_ctr_def)

lemma gcm_ctr_involution: "length key = 32 \<Longrightarrow> gcm_ctr key nonce (gcm_ctr key nonce p) = p"
  using length_keystream [of key "length p" nonce]
  by (simp add: gcm_ctr_def xor_bytes_cancel min_absorb1)

lemma length_gcm_tag [simp]: "length (gcm_tag key nonce c) = 16"
  by (simp add: gcm_tag_def Let_def)

lemma length_gcm_Seal: "length key = 32 \<Longrightarrow> length (gcm_Seal key nonce p) = length p + 16"
  by (simp add: gcm_Seal_def Let_def)

lemma gcm_Open_Seal: "length key = 32 \<Longrightarrow> gcm_Open key nonce (gcm_Seal key nonce p) = Some p"
  by (simp add: gcm_Open_def gcm_Seal_def Let_def gcm_ctr_involution)

lemma gcm_Open_sound:
  assumes "length key = 32" "gcm_Open key nonce s = Some p"
  shows "s = gcm_Seal key nonce p"
  using assms
  by (auto simp: gcm_Open_def gcm_Seal_def Let_def gcm_ctr_involution split: if_splits)

section \<open>The interface\<close>

text \<open>\<open>cipher.AEAD\<close> as its clients rely on it: under a valid key, opening undoes
  sealing, accepts nothing else, and sealing adds a fixed overhead.\<close>

locale aead =
  fixes valid :: "'k \<Rightarrow> bool" and seal :: "'k \<Rightarrow> bytes \<Rightarrow> bytes \<Rightarrow> bytes"
    and unseal :: "'k \<Rightarrow> bytes \<Rightarrow> bytes \<Rightarrow> bytes option" and overhead :: nat
  assumes unseal_seal: "valid k \<Longrightarrow> unseal k nonce (seal k nonce p) = Some p"
    and unseal_sound: "valid k \<Longrightarrow> unseal k nonce s = Some p \<Longrightarrow> s = seal k nonce p"
    and seal_length: "valid k \<Longrightarrow> length (seal k nonce p) = length p + overhead"
begin

lemma unseal_iff: "valid k \<Longrightarrow> unseal k nonce s = Some p \<longleftrightarrow> s = seal k nonce p"
  using unseal_seal unseal_sound by blast

lemma seal_inject: "valid k \<Longrightarrow> seal k nonce p = seal k nonce q \<longleftrightarrow> p = q"
  by (metis option.inject unseal_seal)

lemma unseal_None: "valid k \<Longrightarrow> unseal k nonce s = None \<longleftrightarrow> (\<forall>p. s \<noteq> seal k nonce p)"
  using unseal_iff by (metis not_None_eq)

end

interpretation gcm: aead "\<lambda>key. length key = 32" gcm_Seal gcm_Open 16
  by unfold_locales (simp_all add: gcm_Open_Seal gcm_Open_sound length_gcm_Seal)

end
