(* ===== verification/Crypto_Wrap.thy ===== *)
theory Crypto_Wrap
  imports Go_Aes_Gcm
begin

text \<open>
  The encrypted connection of \<open>internal/crypto/wrap.go\<close> and the listener of
  \<open>internal/crypto/listener.go\<close>: \<open>Write\<close> cuts a payload into records of at
  most \<open>maxFrame\<close> bytes and seals each one, \<open>Read\<close> reassembles, opens and
  delivers them through a buffer of any size, resuming after a deadline that
  expired in the middle of a record.  The cipher is the one of \<open>Go_Aes_Gcm\<close>.

  The underlying \<open>net.Conn\<close> is the record \<open>Conn\<close>: the bytes still to come
  from the peer, and a script that says how the next calls of \<open>Read\<close> cut
  them (at most so many bytes, reported together with an optional error);
  when the script is over, a call delivers what there is and \<open>EOF\<close> at the
  end.  The nonces \<open>crypto/rand\<close> returns are an argument of the writer; an
  empty supply is a failing \<open>rand.Read\<close>.
\<close>

section \<open>The underlying connection\<close>

datatype conn_err = ErrTimeout | ErrEOF | ErrClosed | ErrTransport

record Conn =
  conn_in :: bytes
  conn_script :: "(nat \<times> conn_err option) list"
  conn_out :: bytes
  conn_wscript :: "(nat \<times> conn_err) option list"
  conn_closed :: bool

definition conn_Read :: "nat \<Rightarrow> Conn \<Rightarrow> bytes \<times> conn_err option \<times> Conn" where
  "conn_Read m c =
     (if conn_closed c then ([], Some ErrClosed, c)
      else case conn_script c of
        [] \<Rightarrow> if conn_in c = [] then ([], Some ErrEOF, c)
               else (take m (conn_in c), None, c\<lparr>conn_in := drop m (conn_in c)\<rparr>)
      | (k, e) # s \<Rightarrow> (take (min m k) (conn_in c), e,
                       c\<lparr>conn_in := drop (min m k) (conn_in c), conn_script := s\<rparr>))"

definition conn_Write :: "bytes \<Rightarrow> Conn \<Rightarrow> conn_err option \<times> Conn" where
  "conn_Write b c =
     (if conn_closed c then (Some ErrClosed, c)
      else case conn_wscript c of
        [] \<Rightarrow> (None, c\<lparr>conn_out := conn_out c @ b\<rparr>)
      | None # s \<Rightarrow> (None, c\<lparr>conn_out := conn_out c @ b, conn_wscript := s\<rparr>)
      | Some (k, e) # s \<Rightarrow> (Some e, c\<lparr>conn_out := conn_out c @ take k b, conn_wscript := s\<rparr>))"

section \<open>The wrapper\<close>

definition maxFrame :: nat where "maxFrame = 64 * 1024"
definition nonceSize :: nat where "nonceSize = 12"
definition gcmTagSize :: nat where "gcmTagSize = 16"
definition maxRecord :: nat where "maxRecord = nonceSize + maxFrame + gcmTagSize"

datatype tamper = LengthOutOfBounds nat | Underrun nat | OpenFailed

datatype wrap_err =
    ErrTampered tamper
  | ErrShortFrame conn_err
  | ReadLength conn_err
  | ConnTimeout
  | ReadNonce
  | WriteFrame conn_err

record WrapConn =
  w_key :: bytes
  w_tap :: "bytes list option"
  w_tamperCount :: "64 word"
  w_hdr :: bytes
  w_hdrN :: nat
  w_frame :: "bytes option"
  w_frameN :: nat
  w_readBuf :: bytes

definition Wrap :: "bytes \<Rightarrow> WrapConn" where
  "Wrap key = \<lparr>w_key = key, w_tap = None, w_tamperCount = 0, w_hdr = [0, 0, 0, 0], w_hdrN = 0,
     w_frame = None, w_frameN = 0, w_readBuf = []\<rparr>"

text \<open>The tap is recorded by the frames it has been handed.\<close>

definition SetTap :: "bool \<Rightarrow> WrapConn \<Rightarrow> WrapConn" where
  "SetTap on w = w\<lparr>w_tap := (if on then Some [] else None)\<rparr>"

definition TamperCount :: "WrapConn \<Rightarrow> 64 word" where
  "TamperCount w = w_tamperCount w"

definition count_tamper :: "WrapConn \<Rightarrow> WrapConn" where
  "count_tamper w = w\<lparr>w_tamperCount := w_tamperCount w + 1\<rparr>"

definition sealed_frame :: "bytes \<Rightarrow> bytes \<Rightarrow> bytes \<Rightarrow> bytes" where
  "sealed_frame key nonce chunk =
     (let sealed = nonce @ gcm_Seal key nonce chunk
      in PutUint32 (word_of_nat (length sealed)) @ sealed)"

type_synonym write_state = "bytes list \<times> WrapConn \<times> Conn"

definition writeRecord :: "bytes \<Rightarrow> write_state \<Rightarrow> wrap_err option \<times> write_state" where
  "writeRecord chunk st =
     (case st of (nonces, w, c) \<Rightarrow>
       (case nonces of
          [] \<Rightarrow> (Some ReadNonce, st)
        | nonce # ns \<Rightarrow>
            (let frame = sealed_frame (w_key w) nonce chunk;
                 w' = w\<lparr>w_tap := map_option (\<lambda>log. log @ [frame]) (w_tap w)\<rparr>
             in case conn_Write frame c of
                  (Some e, c') \<Rightarrow> (Some (WriteFrame e), ns, w', c')
                | (None, c') \<Rightarrow> (None, ns, w', c'))))"

text \<open>\<open>Write\<close>: \<open>rest\<close> is \<open>p[written:]\<close>; the loop body runs at least once.\<close>

function write_loop :: "bytes \<Rightarrow> nat \<Rightarrow> write_state \<Rightarrow> (nat \<times> wrap_err option) \<times> write_state" where
  "write_loop rest written st =
     (let chunk = take maxFrame rest
      in case writeRecord chunk st of
           (Some e, st') \<Rightarrow> ((written, Some e), st')
         | (None, st') \<Rightarrow>
             (if drop maxFrame rest = [] then ((written + length chunk, None), st')
              else write_loop (drop maxFrame rest) (written + length chunk) st'))"
  by pat_completeness auto
termination by (relation "measure (\<lambda>(rest, _). length rest)") (auto simp: maxFrame_def)

declare write_loop.simps [simp del]

definition Write :: "bytes \<Rightarrow> write_state \<Rightarrow> (nat \<times> wrap_err option) \<times> write_state" where
  "Write p st = write_loop p 0 st"

definition isTimeout :: "conn_err \<Rightarrow> bool" where
  "isTimeout e \<longleftrightarrow> e = ErrTimeout"

definition resetFraming :: "WrapConn \<Rightarrow> WrapConn" where
  "resetFraming w = w\<lparr>w_hdrN := 0, w_frame := None, w_frameN := 0\<rparr>"

text \<open>The two fill loops of \<open>Read\<close>: read into \<open>buf[n:]\<close> until it is full or the
  connection reports an error.\<close>

definition copy_at :: "bytes \<Rightarrow> nat \<Rightarrow> bytes \<Rightarrow> bytes" where
  "copy_at buf n src = take n buf @ src @ drop (n + length src) buf"

function fill :: "bytes \<Rightarrow> nat \<Rightarrow> Conn \<Rightarrow> bytes \<times> nat \<times> conn_err option \<times> Conn" where
  "fill buf n c =
     (if n < length buf
      then case conn_Read (length buf - n) c of
             (b, Some e, c') \<Rightarrow> (copy_at buf n b, n + length b, Some e, c')
           | (b, None, c') \<Rightarrow> fill (copy_at buf n b) (n + length b) c'
      else (buf, n, None, c))"
  by pat_completeness auto
termination
  by (relation "measure (\<lambda>(buf, n, c). length (conn_in c) + length (conn_script c))")
     (auto simp: conn_Read_def neq_Nil_conv split: if_splits list.splits prod.splits)

declare fill.simps [simp del]

type_synonym read_result = "(bytes \<times> wrap_err option) \<times> WrapConn \<times> Conn"

definition openFrame :: "nat \<Rightarrow> bytes \<Rightarrow> WrapConn \<Rightarrow> Conn \<Rightarrow> read_result" where
  "openFrame m frame w c =
     (case gcm_Open (w_key w) (take nonceSize frame) (drop nonceSize frame) of
        None \<Rightarrow> (([], Some (ErrTampered OpenFailed)), count_tamper w, c)
      | Some plaintext \<Rightarrow>
          ((take m plaintext, None),
           if m < length plaintext then w\<lparr>w_readBuf := drop m plaintext\<rparr> else w, c))"

definition readBody :: "nat \<Rightarrow> bytes \<Rightarrow> WrapConn \<Rightarrow> Conn \<Rightarrow> read_result" where
  "readBody m frame w c =
     (case fill frame (w_frameN w) c of
        (f, n, Some e, c') \<Rightarrow>
          (let w' = w\<lparr>w_frame := Some f, w_frameN := n\<rparr>
           in if isTimeout e then (([], Some ConnTimeout), w', c')
              else (([], Some (ErrShortFrame e)), count_tamper (resetFraming w'), c'))
      | (f, n, None, c') \<Rightarrow>
          openFrame m f (resetFraming (w\<lparr>w_frame := Some f, w_frameN := n\<rparr>)) c')"

definition startFrame :: "nat \<Rightarrow> WrapConn \<Rightarrow> Conn \<Rightarrow> read_result" where
  "startFrame m w c =
     (case w_frame w of
        Some f \<Rightarrow> readBody m f w c
      | None \<Rightarrow>
          (let frameLen = unat (Uint32 (w_hdr w))
           in if frameLen = 0 \<or> frameLen > maxRecord
              then (([], Some (ErrTampered (LengthOutOfBounds frameLen))), count_tamper (resetFraming w), c)
              else if frameLen < nonceSize + gcmTagSize
              then (([], Some (ErrTampered (Underrun frameLen))), count_tamper (resetFraming w), c)
              else (let f = replicate frameLen 0
                    in readBody m f (w\<lparr>w_frame := Some f, w_frameN := 0\<rparr>) c)))"

definition readRecord :: "nat \<Rightarrow> WrapConn \<Rightarrow> Conn \<Rightarrow> read_result" where
  "readRecord m w c =
     (case fill (w_hdr w) (w_hdrN w) c of
        (h, n, Some e, c') \<Rightarrow>
          (let w' = w\<lparr>w_hdr := h, w_hdrN := n\<rparr>
           in if isTimeout e then (([], Some ConnTimeout), w', c')
              else (([], Some (ReadLength e)), resetFraming w', c'))
      | (h, n, None, c') \<Rightarrow> startFrame m (w\<lparr>w_hdr := h, w_hdrN := n\<rparr>) c')"

definition Read :: "nat \<Rightarrow> WrapConn \<Rightarrow> Conn \<Rightarrow> read_result" where
  "Read m w c =
     (if m = 0 then (([], None), w, c)
      else if w_readBuf w \<noteq> []
      then ((take m (w_readBuf w), None), w\<lparr>w_readBuf := drop m (w_readBuf w)\<rparr>, c)
      else readRecord m w c)"

definition Close :: "Conn \<Rightarrow> Conn" where
  "Close c = c\<lparr>conn_closed := True\<rparr>"

definition SealTestFrame :: "bytes \<Rightarrow> bytes \<Rightarrow> bytes" where
  "SealTestFrame key plaintext = sealed_frame key (replicate nonceSize 0) plaintext"

definition Accept :: "bytes \<Rightarrow> conn_err + Conn \<Rightarrow> conn_err + (WrapConn \<times> Conn)" where
  "Accept key r = (case r of Inl e \<Rightarrow> Inl e | Inr c \<Rightarrow> Inr (Wrap key, c))"

section \<open>The fill loops\<close>

lemma length_copy_at [simp]: "n + length b \<le> length buf \<Longrightarrow> length (copy_at buf n b) = length buf"
  by (simp add: copy_at_def)

lemma take_copy_at: "n \<le> length buf \<Longrightarrow> take (n + length b) (copy_at buf n b) = take n buf @ b"
  by (simp add: copy_at_def)

lemma copy_at_copy_at:
  "n + length a \<le> length buf \<Longrightarrow> copy_at (copy_at buf n a) (n + length a) b = copy_at buf n (a @ b)"
  by (simp add: copy_at_def ac_simps)

lemma copy_at_Nil [simp]: "copy_at buf n [] = buf"
  by (simp add: copy_at_def)

text \<open>What one call of the underlying \<open>Read\<close> promises, whatever its script says.\<close>

lemma conn_Read_spec:
  assumes "conn_Read m c = (b, e, c')" "0 < m"
  shows "conn_in c = b @ conn_in c'" "length b \<le> m" "conn_closed c' = conn_closed c"
    and "\<exists>u. conn_script c = u @ conn_script c' \<and> (conn_closed c \<or> e = Some ErrEOF \<or> u \<noteq> [] \<or> b \<noteq> [])"
    and "e = Some x \<Longrightarrow> conn_closed c \<or> (\<exists>k. (k, Some x) \<in> set (conn_script c) \<and> length (conn_script c') < length (conn_script c))
           \<or> x = ErrEOF \<and> conn_in c' = [] \<and> conn_script c' = []"
    and "e = Some x \<Longrightarrow> conn_closed c \<or> (\<exists>k. (k, Some x) \<in> set (conn_script c)) \<or> b = []"
  using assms by (auto simp: conn_Read_def split: if_splits list.splits)

lemma fill_spec:
  assumes "fill buf n c = (buf', n', e, c')" "n \<le> length buf"
  obtains b where "conn_in c = b @ conn_in c'" "buf' = copy_at buf n b" "n' = n + length b"
    "n' \<le> length buf" "e = None \<Longrightarrow> n' = length buf" "conn_closed c' = conn_closed c"
    "\<exists>u. conn_script c = u @ conn_script c'"
    "\<And>x. e = Some x \<Longrightarrow> conn_closed c \<or> (\<exists>k. (k, Some x) \<in> set (conn_script c) \<and> length (conn_script c') < length (conn_script c))
           \<or> x = ErrEOF \<and> conn_in c' = [] \<and> conn_script c' = []"
    "\<And>x. e = Some x \<Longrightarrow> conn_closed c \<or> (\<exists>k. (k, Some x) \<in> set (conn_script c)) \<or> n' < length buf"
proof -
  have "\<exists>b. conn_in c = b @ conn_in c' \<and> buf' = copy_at buf n b \<and> n' = n + length b
    \<and> n' \<le> length buf \<and> (e = None \<longrightarrow> n' = length buf) \<and> conn_closed c' = conn_closed c
    \<and> (\<exists>u. conn_script c = u @ conn_script c')
    \<and> (\<forall>x. e = Some x \<longrightarrow> conn_closed c \<or> (\<exists>k. (k, Some x) \<in> set (conn_script c) \<and> length (conn_script c') < length (conn_script c))
           \<or> x = ErrEOF \<and> conn_in c' = [] \<and> conn_script c' = [])
    \<and> (\<forall>x. e = Some x \<longrightarrow> conn_closed c \<or> (\<exists>k. (k, Some x) \<in> set (conn_script c)) \<or> n' < length buf)"
    using assms
  proof (induction buf n c rule: fill.induct)
    case (1 buf n c)
    show ?case
    proof (cases "n < length buf")
      case False
      then show ?thesis using 1(2,3) by (subst (asm) fill.simps) auto
    next
      case True
      obtain b x c1 where r: "conn_Read (length buf - n) c = (b, x, c1)" by (cases "conn_Read (length buf - n) c") auto
      note cr = conn_Read_spec [OF r]
      show ?thesis
      proof (cases x)
        case (Some y)
        then have "buf' = copy_at buf n b" "n' = n + length b" "e = Some y" "c' = c1"
          using 1(2) True r by (simp_all add: fill.simps [of buf n c])
        then show ?thesis using cr(1-4) cr(5,6) [of y] True Some by (intro exI [of _ b]) auto
      next
        case None
        have f: "fill (copy_at buf n b) (n + length b) c1 = (buf', n', e, c')"
          using 1(2) True r None by (simp add: fill.simps [of buf n c])
        have le: "n + length b \<le> length buf" using cr(2) True by simp
        obtain b2 where h: "conn_in c1 = b2 @ conn_in c'" "buf' = copy_at (copy_at buf n b) (n + length b) b2"
          "n' = n + length b + length b2" "n' \<le> length buf" "e = None \<longrightarrow> n' = length buf"
          "conn_closed c' = conn_closed c1" "\<exists>u. conn_script c1 = u @ conn_script c'"
          "\<forall>x. e = Some x \<longrightarrow> conn_closed c1 \<or> (\<exists>k. (k, Some x) \<in> set (conn_script c1) \<and> length (conn_script c') < length (conn_script c1))
           \<or> x = ErrEOF \<and> conn_in c' = [] \<and> conn_script c' = []"
          "\<forall>x. e = Some x \<longrightarrow> conn_closed c1 \<or> (\<exists>k. (k, Some x) \<in> set (conn_script c1)) \<or> n' < length buf"
          using "1.IH" [OF True r [symmetric] _ None f] le by auto
        obtain u where u: "conn_script c = u @ conn_script c1" using cr(4) True by auto
        show ?thesis
          using h cr(1,3) le u True
          by (intro exI [of _ "b @ b2"]) (auto simp: copy_at_copy_at)
      qed
    qed
  qed
  then show ?thesis using that by blast
qed

section \<open>One record\<close>

definition framing_ok :: "WrapConn \<Rightarrow> bool" where
  "framing_ok w \<longleftrightarrow> length (w_key w) = 32 \<and> length (w_hdr w) = 4 \<and> w_hdrN w \<le> 4
     \<and> (case w_frame w of None \<Rightarrow> True
        | Some f \<Rightarrow> w_hdrN w = 4 \<and> length f = unat (Uint32 (w_hdr w)) \<and> w_frameN w \<le> length f
                    \<and> nonceSize + gcmTagSize \<le> length f \<and> length f \<le> maxRecord)"

text \<open>The bytes of the stream that no delivered record has used: the part of the
  prefix and of the body already read, then what the connection still holds.\<close>

definition unread :: "WrapConn \<Rightarrow> Conn \<Rightarrow> bytes" where
  "unread w c = take (w_hdrN w) (w_hdr w)
     @ (case w_frame w of None \<Rightarrow> [] | Some f \<Rightarrow> take (w_frameN w) f) @ conn_in c"

lemma framing_ok_Wrap [simp]: "length key = 32 \<Longrightarrow> framing_ok (Wrap key)"
  by (simp add: framing_ok_def Wrap_def)

lemma unread_Wrap [simp]: "unread (Wrap key) c = conn_in c"
  by (simp add: unread_def Wrap_def)

lemma resetFraming_fields [simp]:
  "w_key (resetFraming w) = w_key w" "w_tamperCount (resetFraming w) = w_tamperCount w"
  "w_readBuf (resetFraming w) = w_readBuf w" "w_hdr (resetFraming w) = w_hdr w"
  "unread (resetFraming w) c = conn_in c" "framing_ok w \<Longrightarrow> framing_ok (resetFraming w)"
  "resetFraming (w\<lparr>w_hdrN := n\<rparr>) = resetFraming w"
  "resetFraming (w\<lparr>w_frame := f\<rparr>) = resetFraming w"
  "resetFraming (w\<lparr>w_frameN := n\<rparr>) = resetFraming w"
  by (simp_all add: resetFraming_def unread_def framing_ok_def)

lemma count_tamper_fields [simp]:
  "w_key (count_tamper w) = w_key w" "w_readBuf (count_tamper w) = w_readBuf w"
  "w_tamperCount (count_tamper w) = w_tamperCount w + 1" "unread (count_tamper w) c = unread w c"
  "framing_ok (count_tamper w) = framing_ok w"
  by (simp_all add: count_tamper_def unread_def framing_ok_def split: option.splits)

lemma readBuf_fields [simp]:
  "unread (w\<lparr>w_readBuf := b\<rparr>) c = unread w c" "framing_ok (w\<lparr>w_readBuf := b\<rparr>) = framing_ok w"
  by (simp_all add: unread_def framing_ok_def split: option.splits)

definition tampering :: "wrap_err option \<Rightarrow> bool" where
  "tampering e = (case e of Some (ErrTampered _) \<Rightarrow> True | Some (ErrShortFrame _) \<Rightarrow> True | _ \<Rightarrow> False)"

lemma tampering_simps [simp]:
  "\<not> tampering None" "tampering (Some (ErrTampered t))" "tampering (Some (ErrShortFrame x))"
  "\<not> tampering (Some ConnTimeout)" "\<not> tampering (Some (ReadLength x))"
  by (simp_all add: tampering_def)

text \<open>The relation between the connection before and after a call, whatever it returned.\<close>

definition conn_after :: "Conn \<Rightarrow> Conn \<Rightarrow> bool" where
  "conn_after c c' \<longleftrightarrow> conn_closed c' = conn_closed c \<and> (\<exists>u. conn_script c = u @ conn_script c')"

lemma conn_after_refl [simp]: "conn_after c c"
  by (simp add: conn_after_def)

lemma conn_after_trans: "conn_after a b \<Longrightarrow> conn_after b c \<Longrightarrow> conn_after a c"
  by (auto simp: conn_after_def)

definition conn_failed :: "conn_err \<Rightarrow> Conn \<Rightarrow> Conn \<Rightarrow> bool" where
  "conn_failed x c c' \<longleftrightarrow> conn_closed c
     \<or> (\<exists>k. (k, Some x) \<in> set (conn_script c) \<and> length (conn_script c') < length (conn_script c))
     \<or> x = ErrEOF \<and> conn_in c' = [] \<and> conn_script c' = []"

lemma conn_failed_trans: "conn_after a b \<Longrightarrow> conn_failed x b c \<Longrightarrow> conn_failed x a c"
  by (auto simp: conn_failed_def conn_after_def)

lemma openFrame_cases:
  assumes "openFrame m f w c = ((out, e), w', c')" "framing_ok w" "nonceSize \<le> length f"
    and "w_readBuf w = []"
  obtains (bad) "e = Some (ErrTampered OpenFailed)" "out = []" "w' = count_tamper w" "c' = c"
      "gcm_Open (w_key w) (take nonceSize f) (drop nonceSize f) = None"
  | (opened) nonce p where "e = None" "out = take m p" "w' = w\<lparr>w_readBuf := drop m p\<rparr>" "c' = c"
      "length nonce = nonceSize" "f = nonce @ gcm_Seal (w_key w) nonce p"
proof (cases "gcm_Open (w_key w) (take nonceSize f) (drop nonceSize f)")
  case None
  then show ?thesis using assms(1) by (intro bad) (auto simp: openFrame_def)
next
  case (Some p)
  have "drop nonceSize f = gcm_Seal (w_key w) (take nonceSize f) p"
    using Some assms(2) by (intro gcm.unseal_sound) (simp_all add: framing_ok_def)
  then have "f = take nonceSize f @ gcm_Seal (w_key w) (take nonceSize f) p"
    by (metis append_take_drop_id)
  then show ?thesis
    using Some assms(1,3,4) by (intro opened [of p "take nonceSize f"]) (auto simp: openFrame_def)
qed

lemma readBody_cases:
  assumes "readBody m f w c = ((out, e), w', c')" "framing_ok w" "w_frame w = Some f"
  obtains (timeout) "e = Some ConnTimeout" "out = []" "framing_ok w'" "unread w' c' = unread w c"
      "w_key w' = w_key w" "w_readBuf w' = w_readBuf w" "w_tamperCount w' = w_tamperCount w"
      "conn_after c c'" "conn_failed ErrTimeout c c'"
  | (short) x b where "e = Some (ErrShortFrame x)" "out = []" "w' = count_tamper (resetFraming w)"
      "unread w c = w_hdr w @ b @ conn_in c'" "conn_after c c'" "conn_failed x c c'" "x \<noteq> ErrTimeout"
      "conn_closed c \<or> (\<exists>k. (k, Some x) \<in> set (conn_script c)) \<or> length b < length f"
  | (full) f' where "length f' = length f" "unread w c = w_hdr w @ f' @ conn_in c'" "conn_after c c'"
      "openFrame m f' (resetFraming w) c' = ((out, e), w', c')"
proof -
  obtain f' n' x c1 where r: "fill f (w_frameN w) c = (f', n', x, c1)"
    by (cases "fill f (w_frameN w) c") auto
  have ok: "w_frameN w \<le> length f" "w_hdrN w = 4" "length (w_hdr w) = 4"
    using assms(2,3) by (simp_all add: framing_ok_def)
  obtain b where b: "conn_in c = b @ conn_in c1" "f' = copy_at f (w_frameN w) b" "n' = w_frameN w + length b"
    "n' \<le> length f" "x = None \<Longrightarrow> n' = length f" "conn_after c c1" "\<And>y. x = Some y \<Longrightarrow> conn_failed y c c1"
    "\<And>y. x = Some y \<Longrightarrow> conn_closed c \<or> (\<exists>k. (k, Some y) \<in> set (conn_script c)) \<or> n' < length f"
    using fill_spec [OF r ok(1)] unfolding conn_after_def conn_failed_def by metis
  have t: "take n' f' = take (w_frameN w) f @ b" and l: "length f' = length f"
    using b(2-4) ok(1) by (simp_all add: take_copy_at)
  have u: "unread w c = w_hdr w @ take n' f' @ conn_in c1"
    using ok assms(3) b(1) t by (simp add: unread_def)
  show ?thesis
  proof (cases x)
    case None
    then have n: "take n' f' = f'" using b(5) l by simp
    have o: "openFrame m f' (resetFraming w) c1 = ((out, e), w', c')"
      using assms(1) r None by (simp add: readBody_def)
    then have "c' = c1" by (simp add: openFrame_def split: option.splits)
    then show ?thesis using u n o b(6) l by (intro full [of f']) simp_all
  next
    case (Some y)
    note fld = b(7) [OF Some]
    show ?thesis
    proof (cases "y = ErrTimeout")
      case True
      then have e: "e = Some ConnTimeout" "out = []" "w' = w\<lparr>w_frame := Some f', w_frameN := n'\<rparr>" "c' = c1"
        using assms(1) r Some by (simp_all add: readBody_def isTimeout_def)
      have "framing_ok w'" using assms(2,3) l b(4) by (simp add: e(3) framing_ok_def)
      moreover have "unread w' c' = unread w c" using u ok by (simp add: e(3,4) unread_def)
      ultimately show ?thesis using e fld b(6) True by (intro timeout) simp_all
    next
      case False
      then have "e = Some (ErrShortFrame y)" "out = []" "w' = count_tamper (resetFraming w)" "c' = c1"
        using assms(1) r Some by (simp_all add: readBody_def isTimeout_def Let_def)
      then show ?thesis using u fld b(4,6) b(8) [OF Some] False l
        by (intro short [of y "take n' f'"]) (simp_all add: min_absorb1)
    qed
  qed
qed

lemma startFrame_cases:
  assumes "startFrame m w c = ((out, e), w', c')" "framing_ok w" "w_hdrN w = 4" "w_readBuf w = []"
  obtains (timeout) "e = Some ConnTimeout" "out = []" "framing_ok w'" "unread w' c' = unread w c"
      "w_key w' = w_key w" "w_readBuf w' = []" "w_tamperCount w' = w_tamperCount w"
      "conn_after c c'" "conn_failed ErrTimeout c c'"
  | (tampered) t b where "e = Some (ErrTampered t)" "out = []" "w' = count_tamper (resetFraming w)"
      "unread w c = w_hdr w @ b @ conn_in c'" "conn_after c c'"
      "let L = unat (Uint32 (w_hdr w)) in (L < nonceSize + gcmTagSize \<or> maxRecord < L)
         \<or> length b = L \<and> gcm_Open (w_key w) (take nonceSize b) (drop nonceSize b) = None"
  | (short) x b where "e = Some (ErrShortFrame x)" "out = []" "w' = count_tamper (resetFraming w)"
      "unread w c = w_hdr w @ b @ conn_in c'" "conn_after c c'" "conn_failed x c c'" "x \<noteq> ErrTimeout"
      "conn_closed c \<or> (\<exists>k. (k, Some x) \<in> set (conn_script c)) \<or> length b < unat (Uint32 (w_hdr w))"
  | (opened) nonce p where "e = None" "out = take m p" "w' = (resetFraming w)\<lparr>w_readBuf := drop m p\<rparr>"
      "length nonce = nonceSize" "unat (Uint32 (w_hdr w)) = length (nonce @ gcm_Seal (w_key w) nonce p)"
      "unread w c = w_hdr w @ nonce @ gcm_Seal (w_key w) nonce p @ conn_in c'" "conn_after c c'"
      "length p \<le> maxFrame"
proof -
  note outcome = that
  let ?L = "unat (Uint32 (w_hdr w))"
  have body: ?thesis
    if r: "readBody m f v c = ((out, e), w', c')" and v: "framing_ok v" "w_frame v = Some f"
      and same: "w_key v = w_key w" "w_hdr v = w_hdr w" "w_readBuf v = []" "w_tamperCount v = w_tamperCount w"
        "unread v c = unread w c" "resetFraming v = resetFraming w"
    for f v
    using r v
  proof (cases rule: readBody_cases)
    case timeout
    then show ?thesis using same by (intro outcome(1)) simp_all
  next
    case (short x b)
    moreover have "length f = ?L" using v same by (auto simp: framing_ok_def)
    ultimately show ?thesis using same by (intro outcome(3) [of x b]) simp_all
  next
    case (full f')
    have l: "length f = ?L" "nonceSize \<le> length f" "length f \<le> maxRecord" "length (w_key w) = 32"
      using v same by (auto simp: framing_ok_def)
    have "framing_ok (resetFraming w)" "nonceSize \<le> length f'" "w_readBuf (resetFraming w) = []"
      using assms(2,4) full l by simp_all
    with full(4) [unfolded same] show ?thesis
    proof (cases rule: openFrame_cases)
      case bad
      then show ?thesis using full same l by (intro outcome(2) [of OpenFailed f']) (simp_all add: Let_def)
    next
      case (opened nonce p)
      then show ?thesis using full same l
        by (intro outcome(4) [of p nonce]) (simp_all add: length_gcm_Seal maxRecord_def gcmTagSize_def)
    qed
  qed
  have hd: "unread w c = w_hdr w @ conn_in c" if "w_frame w = None"
    using that assms(2,3) by (simp add: unread_def framing_ok_def)
  show ?thesis
  proof (cases "w_frame w")
    case (Some f)
    then show ?thesis using assms by (intro body [of f w]) (simp_all add: startFrame_def)
  next
    case None
    consider "?L = 0 \<or> ?L > maxRecord" | "\<not> (?L = 0 \<or> ?L > maxRecord)" "?L < nonceSize + gcmTagSize"
      | "\<not> (?L = 0 \<or> ?L > maxRecord)" "\<not> ?L < nonceSize + gcmTagSize" by blast
    then show ?thesis
    proof cases
      case 1
      then show ?thesis using assms(1) None hd
        by (intro outcome(2) [of "LengthOutOfBounds ?L" "[]"])
           (auto simp: startFrame_def Let_def nonceSize_def)
    next
      case 2
      then show ?thesis using assms(1) None hd
        by (intro outcome(2) [of "Underrun ?L" "[]"]) (auto simp: startFrame_def Let_def)
    next
      case 3
      let ?f = "replicate ?L 0" let ?v = "w\<lparr>w_frame := Some ?f, w_frameN := 0\<rparr>"
      have "readBody m ?f ?v c = ((out, e), w', c')"
        using assms(1) None 3 by (simp add: startFrame_def Let_def)
      moreover have "framing_ok ?v" using 3 assms(2,3) by (simp add: framing_ok_def)
      ultimately show ?thesis
        using assms(4) None by (intro body [of ?f ?v]) (simp_all add: unread_def)
    qed
  qed
qed

lemma bit_byte_beyond: "\<not> bit (b::byte) (8 + n)" "\<not> bit (b::byte) (16 + n)" "\<not> bit (b::byte) (24 + n)"
  by (auto dest!: bit_imp_le_length)

lemma PutUint32_Uint32:
  assumes "length h = 4" shows "PutUint32 (Uint32 h) = h"
proof -
  obtain a b c d where h: "h = [a, b, c, d]"
    using assms by (auto simp: numeral_eq_Suc length_Suc_conv)
  show ?thesis
    by (auto simp: h PutUint32_def Uint32_def bit_simps bit_byte_beyond intro!: bit_word_eqI)
qed

lemma frame_bytes:
  assumes "length h = 4" "unat (Uint32 h) = length (nonce @ gcm_Seal key nonce p)"
  shows "h @ nonce @ gcm_Seal key nonce p = sealed_frame key nonce p"
proof -
  have "word_of_nat (length (nonce @ gcm_Seal key nonce p)) = Uint32 h"
    unfolding assms(2) [symmetric] by simp
  then show ?thesis using PutUint32_Uint32 [OF assms(1)] by (simp add: sealed_frame_def Let_def)
qed

lemma readRecord_cases:
  assumes "readRecord m w c = ((out, e), w', c')" "framing_ok w" "w_readBuf w = []"
  obtains (timeout) "e = Some ConnTimeout" "out = []" "framing_ok w'" "unread w' c' = unread w c"
      "w_key w' = w_key w" "w_readBuf w' = []" "w_tamperCount w' = w_tamperCount w"
      "conn_after c c'" "conn_failed ErrTimeout c c'"
  | (ended) x h where "e = Some (ReadLength x)" "out = []" "framing_ok w'" "unread w c = h @ unread w' c'"
      "unread w' c' = conn_in c'" "length h \<le> 4" "w_key w' = w_key w" "w_readBuf w' = []"
      "w_tamperCount w' = w_tamperCount w" "conn_after c c'" "conn_failed x c c'" "x \<noteq> ErrTimeout"
  | (tampered) t h b where "e = Some (ErrTampered t)" "out = []" "framing_ok w'" "length h = 4"
      "unread w c = h @ b @ unread w' c'" "w_key w' = w_key w" "w_readBuf w' = []"
      "w_tamperCount w' = w_tamperCount w + 1" "conn_after c c'"
      "let L = unat (Uint32 h) in (L < nonceSize + gcmTagSize \<or> maxRecord < L)
         \<or> length b = L \<and> gcm_Open (w_key w) (take nonceSize b) (drop nonceSize b) = None"
  | (short) x b where "e = Some (ErrShortFrame x)" "out = []" "framing_ok w'"
      "unread w c = b @ unread w' c'" "unread w' c' = conn_in c'" "w_key w' = w_key w" "w_readBuf w' = []"
      "w_tamperCount w' = w_tamperCount w + 1" "conn_after c c'" "conn_failed x c c'" "x \<noteq> ErrTimeout"
      "conn_closed c \<or> (\<exists>k. (k, Some x) \<in> set (conn_script c)) \<or> length b < 4 + unat (Uint32 (take 4 b))"
      "4 \<le> length b"
  | (opened) nonce p where "e = None" "out = take m p" "w_readBuf w' = drop m p" "framing_ok w'"
      "length nonce = nonceSize" "unread w c = sealed_frame (w_key w) nonce p @ unread w' c'"
      "w_key w' = w_key w" "w_tamperCount w' = w_tamperCount w" "conn_after c c'" "length p \<le> maxFrame"
proof -
  note outcome = that
  obtain h n x c1 where r: "fill (w_hdr w) (w_hdrN w) c = (h, n, x, c1)"
    by (cases "fill (w_hdr w) (w_hdrN w) c") auto
  have ok: "w_hdrN w \<le> length (w_hdr w)" "length (w_hdr w) = 4"
    using assms(2) by (simp_all add: framing_ok_def)
  obtain b where b: "conn_in c = b @ conn_in c1" "h = copy_at (w_hdr w) (w_hdrN w) b" "n = w_hdrN w + length b"
    "n \<le> length (w_hdr w)" "x = None \<Longrightarrow> n = length (w_hdr w)" "conn_after c c1"
    "\<And>y. x = Some y \<Longrightarrow> conn_failed y c c1"
    using fill_spec [OF r ok(1)] unfolding conn_after_def conn_failed_def by metis
  have full: "b = [] \<and> h = w_hdr w \<and> n = 4" if "w_frame w \<noteq> None"
    using that b(2-4) ok assms(2) by (auto simp: framing_ok_def)
  have t: "take n h = take (w_hdrN w) (w_hdr w) @ b" and l: "length h = 4"
    using b(2-4) ok by (simp_all add: take_copy_at)
  let ?v = "w\<lparr>w_hdr := h, w_hdrN := n\<rparr>"
  have v: "framing_ok ?v" using assms(2) full l b(4) ok by (cases "w_frame w") (auto simp: framing_ok_def)
  have rv: "framing_ok (resetFraming (w\<lparr>w_hdr := h\<rparr>))" using resetFraming_fields(6) [OF v] by simp
  have u: "unread ?v c1 = unread w c"
    using t b(1) full by (cases "w_frame w") (auto simp: unread_def)
  show ?thesis
  proof (cases x)
    case (Some y)
    note fld = b(7) [OF Some]
    have none: "w_frame w = None"
    proof (rule ccontr)
      assume "w_frame w \<noteq> None"
      then have "\<not> w_hdrN w < length (w_hdr w)" using full b(3) ok by auto
      then show False using r Some by (simp add: fill.simps [of "w_hdr w"])
    qed
    show ?thesis
    proof (cases "y = ErrTimeout")
      case True
      then have "e = Some ConnTimeout" "out = []" "w' = ?v" "c' = c1"
        using assms(1) r Some by (simp_all add: readRecord_def isTimeout_def)
      then show ?thesis using v u fld b(6) True assms(3) by (intro outcome(1)) simp_all
    next
      case False
      then have e: "e = Some (ReadLength y)" "out = []" "w' = resetFraming ?v" "c' = c1"
        using assms(1) r Some by (simp_all add: readRecord_def isTimeout_def Let_def)
      have "unread w c = take n h @ conn_in c1" using u none by (simp add: unread_def)
      then show ?thesis
        using e rv fld b(4,6) ok False l assms(3) by (intro outcome(2) [of y "take n h"]) simp_all
    qed
  next
    case None
    then have sf: "startFrame m ?v c1 = ((out, e), w', c')" and hb: "w_hdrN ?v = 4" "w_readBuf ?v = []"
      using assms(1,3) r b(5) ok by (simp_all add: readRecord_def)
    from sf v hb show ?thesis
    proof (cases rule: startFrame_cases)
      case timeout
      then show ?thesis using u b(6) assms(3)
        by (intro outcome(1)) (auto intro: conn_after_trans conn_failed_trans)
    next
      case (tampered t b')
      then show ?thesis using u b(6) assms(3) rv l
        by (intro outcome(3) [of t h b']) (auto intro: conn_after_trans)
    next
      case (short y b')
      moreover have "conn_closed c \<or> (\<exists>k. (k, Some y) \<in> set (conn_script c)) \<or> length b' < unat (Uint32 h)"
        using short(8) b(6) by (auto simp: conn_after_def)
      ultimately show ?thesis using u b(6) assms(3) rv l
        by (intro outcome(4) [of y "h @ b'"]) (auto intro: conn_after_trans conn_failed_trans)
    next
      case (opened nonce p)
      have "h @ nonce @ gcm_Seal (w_key w) nonce p = sealed_frame (w_key w) nonce p"
        using opened(5) by (intro frame_bytes l) simp
      then show ?thesis using opened u b(6) assms(3) rv
        by (intro outcome(5) [of p nonce]) (auto intro: conn_after_trans)
    qed
  qed
qed

end
