(* ===== verification/Wrap_Stream.thy ===== *)
theory Wrap_Stream
  imports Crypto_Wrap
begin

text \<open>
  Sequences of reads and writes on the encrypted connection of
  \<open>Crypto_Wrap\<close>: what a reader delivers from an arbitrary byte stream, and from
  the stream an honest peer writes.
\<close>

section \<open>Runs of reads and writes\<close>

fun read_many :: "nat list \<Rightarrow> WrapConn \<Rightarrow> Conn \<Rightarrow> (bytes \<times> wrap_err option) list \<times> WrapConn \<times> Conn" where
  "read_many [] w c = ([], w, c)"
| "read_many (m # ms) w c =
     (case Read m w c of (r, w', c') \<Rightarrow>
        (case read_many ms w' c' of (rs, w'', c'') \<Rightarrow> (r # rs, w'', c'')))"

fun write_many :: "bytes list \<Rightarrow> write_state \<Rightarrow> (nat \<times> wrap_err option) list \<times> write_state" where
  "write_many [] st = ([], st)"
| "write_many (p # ps) st =
     (case Write p st of (r, st') \<Rightarrow> (case write_many ps st' of (rs, st'') \<Rightarrow> (r # rs, st'')))"

abbreviation delivered :: "(bytes \<times> wrap_err option) list \<Rightarrow> bytes" where
  "delivered outs \<equiv> concat (map fst outs)"

abbreviation frame_on_wire :: "bytes \<Rightarrow> bytes \<Rightarrow> bytes \<times> bytes \<Rightarrow> bool" where
  "frame_on_wire key wire np \<equiv> length (fst np) = nonceSize
     \<and> (\<exists>pre post. wire = pre @ sealed_frame key (fst np) (snd np) @ post)"

text \<open>One call of \<open>Read\<close> against any byte stream: the tamper counter moves exactly
  with the error, and new plaintext comes out of a sealed frame of the stream.\<close>

lemma Read_any_stream:
  assumes "Read m w c = ((out, e), w', c')" "framing_ok w"
  shows "framing_ok w' \<and> w_key w' = w_key w \<and> conn_after c c'
    \<and> w_tamperCount w' = w_tamperCount w + (if tampering e then 1 else 0)
    \<and> (\<exists>used fs. unread w c = used @ unread w' c' \<and> w_readBuf w @ concat (map snd fs) = out @ w_readBuf w'
         \<and> (\<forall>np \<in> set fs. frame_on_wire (w_key w) used np))"
proof (cases "m = 0 \<or> w_readBuf w \<noteq> []")
  case True
  then have d: "out @ w_readBuf w' = w_readBuf w" and o: "e = None" "c' = c" "unread w' c' = unread w c"
    "framing_ok w'" "w_key w' = w_key w" "w_tamperCount w' = w_tamperCount w"
    using assms by (auto simp: Read_def split: if_splits)
  show ?thesis
    unfolding d using o by (intro conjI exI [of _ "[]"]) simp_all
next
  case False
  then have r: "readRecord m w c = ((out, e), w', c')" and n: "w_readBuf w = []"
    using assms(1) by (simp_all add: Read_def)
  from r assms(2) n show ?thesis
  proof (cases rule: readRecord_cases)
    case timeout
    then show ?thesis using n by (intro conjI exI [of _ "[]"]) simp_all
  next
    case (ended x h)
    then show ?thesis using n by (intro conjI exI [of _ h] exI [of _ "[]"]) simp_all
  next
    case (tampered t h b)
    then show ?thesis using n by (intro conjI exI [of _ "h @ b"] exI [of _ "[]"]) simp_all
  next
    case (short x b)
    then show ?thesis using n by (intro conjI exI [of _ b] exI [of _ "[]"]) simp_all
  next
    case (opened nonce p)
    have "frame_on_wire (w_key w) (sealed_frame (w_key w) nonce p) (nonce, p)"
      using opened by (auto intro: exI [of _ "[]"])
    then show ?thesis using opened n
      by (intro conjI exI [of _ "sealed_frame (w_key w) nonce p"] exI [of _ "[(nonce, p)]"]) simp_all
  qed
qed

lemma read_many_any_stream:
  assumes "read_many ms w c = (outs, w', c')" "framing_ok w"
  shows "w_tamperCount w' = w_tamperCount w + word_of_nat (length (filter (tampering \<circ> snd) outs))
    \<and> (\<exists>used fs. unread w c = used @ unread w' c'
         \<and> w_readBuf w @ concat (map snd fs) = delivered outs @ w_readBuf w'
         \<and> (\<forall>np \<in> set fs. frame_on_wire (w_key w) used np))"
  using assms
proof (induction ms arbitrary: w c outs)
  case Nil
  then show ?case by (auto intro!: exI [of _ "[]"])
next
  case (Cons m ms)
  obtain out e w1 c1 where r: "Read m w c = ((out, e), w1, c1)" by (cases "Read m w c") auto
  obtain outs1 where rm: "read_many ms w1 c1 = (outs1, w', c')" and o: "outs = (out, e) # outs1"
    using Cons.prems(1) r by (auto split: prod.splits)
  note one = Read_any_stream [OF r Cons.prems(2)]
  obtain used fs where u: "unread w c = used @ unread w1 c1"
    "w_readBuf w @ concat (map snd fs) = out @ w_readBuf w1" "\<forall>np \<in> set fs. frame_on_wire (w_key w) used np"
    using one by blast
  have IH: "w_tamperCount w' = w_tamperCount w1 + word_of_nat (length (filter (tampering \<circ> snd) outs1))"
    "\<exists>used fs. unread w1 c1 = used @ unread w' c'
         \<and> w_readBuf w1 @ concat (map snd fs) = delivered outs1 @ w_readBuf w'
         \<and> (\<forall>np \<in> set fs. frame_on_wire (w_key w1) used np)"
    using Cons.IH [OF rm] one by blast+
  then obtain used' fs' where v: "unread w1 c1 = used' @ unread w' c'"
    "w_readBuf w1 @ concat (map snd fs') = delivered outs1 @ w_readBuf w'"
    "\<forall>np \<in> set fs'. frame_on_wire (w_key w1) used' np" by blast
  have left: "frame_on_wire k (a @ b) np" if f: "frame_on_wire k a np" for k a b np
  proof -
    obtain pre post where "a = pre @ sealed_frame k (fst np) (snd np) @ post" using f by blast
    then have "a @ b = pre @ sealed_frame k (fst np) (snd np) @ (post @ b)" by simp
    then show ?thesis using f by blast
  qed
  have right: "frame_on_wire k (a @ b) np" if f: "frame_on_wire k b np" for k a b np
  proof -
    obtain pre post where "b = pre @ sealed_frame k (fst np) (snd np) @ post" using f by blast
    then have "a @ b = (a @ pre) @ sealed_frame k (fst np) (snd np) @ post" by simp
    then show ?thesis using f by blast
  qed
  have "\<forall>np \<in> set (fs @ fs'). frame_on_wire (w_key w) (used @ used') np"
    using u(3) v(3) one left right by (metis Un_iff set_append)
  moreover have "w_readBuf w @ concat (map snd (fs @ fs')) = delivered outs @ w_readBuf w'"
    using u(2) v(2) by (simp add: o) (metis append.assoc)
  moreover have "unread w c = (used @ used') @ unread w' c'" using u(1) v(1) by simp
  moreover have "w_tamperCount w' = w_tamperCount w + word_of_nat (length (filter (tampering \<circ> snd) outs))"
    using IH(1) one by (simp add: o)
  ultimately show ?case by blast
qed

section \<open>The stream of an honest peer\<close>

definition frames :: "bytes \<Rightarrow> (bytes \<times> bytes) list \<Rightarrow> bytes" where
  "frames key fs = concat (map (\<lambda>(n, p). sealed_frame key n p) fs)"

abbreviation plain :: "(bytes \<times> bytes) list \<Rightarrow> bytes" where
  "plain fs \<equiv> concat (map snd fs)"

definition frames_ok :: "(bytes \<times> bytes) list \<Rightarrow> bool" where
  "frames_ok fs \<longleftrightarrow> (\<forall>(n, p) \<in> set fs. length n = nonceSize \<and> length p \<le> maxFrame)"

text \<open>A connection that is open and reports no error but expired deadlines.\<close>

definition quiet :: "Conn \<Rightarrow> bool" where
  "quiet c \<longleftrightarrow> \<not> conn_closed c \<and> (\<forall>(k, e) \<in> set (conn_script c). e = None \<or> e = Some ErrTimeout)"

definition synced :: "WrapConn \<Rightarrow> Conn \<Rightarrow> (bytes \<times> bytes) list \<Rightarrow> bool" where
  "synced w c fs \<longleftrightarrow> framing_ok w \<and> quiet c \<and> frames_ok fs \<and> unread w c = frames (w_key w) fs"

lemma quiet_after: "quiet c \<Longrightarrow> conn_after c c' \<Longrightarrow> quiet c'"
  by (auto simp: quiet_def conn_after_def)

lemma quiet_failed: "quiet c \<Longrightarrow> conn_failed x c c' \<Longrightarrow> x \<noteq> ErrTimeout \<Longrightarrow> x = ErrEOF \<and> conn_in c' = []"
  by (auto simp: quiet_def conn_failed_def)

lemma frames_simps [simp]: "frames key [] = []" "frames key ((n, p) # fs) = sealed_frame key n p @ frames key fs"
  by (simp_all add: frames_def)

lemma frames_append: "frames key (fs @ gs) = frames key fs @ frames key gs"
  by (simp add: frames_def)

text \<open>The header of a frame states the length of its body exactly.\<close>

lemma sealed_frame_shape:
  assumes "length key = 32" "length n = nonceSize" "length p \<le> maxFrame"
  obtains h where "sealed_frame key n p = h @ n @ gcm_Seal key n p" "length h = 4"
    "unat (Uint32 h) = nonceSize + length p + gcmTagSize"
proof -
  let ?l = "length (n @ gcm_Seal key n p)"
  have l: "?l = nonceSize + length p + gcmTagSize"
    using assms by (simp add: length_gcm_Seal gcmTagSize_def)
  have "unat (word_of_nat ?l :: 32 word) = ?l"
    unfolding l unat_of_nat using assms(3) by (simp add: maxFrame_def nonceSize_def gcmTagSize_def)
  then show ?thesis
    using l by (intro that [of "PutUint32 (word_of_nat ?l)"])
               (simp_all only: sealed_frame_def Let_def length_PutUint32 Uint32_PutUint32)
qed

lemma sealed_frame_inject:
  assumes "length key = 32" "length n = nonceSize" "length p \<le> maxFrame" "length n' = nonceSize" "length p' \<le> maxFrame"
    and e: "sealed_frame key n p @ r = sealed_frame key n' p' @ r'"
  shows "n = n' \<and> p = p' \<and> r = r'"
proof -
  obtain h where h: "sealed_frame key n p = h @ n @ gcm_Seal key n p" "length h = 4"
    "unat (Uint32 h) = nonceSize + length p + gcmTagSize"
    by (rule sealed_frame_shape [OF assms(1-3)])
  obtain h' where h': "sealed_frame key n' p' = h' @ n' @ gcm_Seal key n' p'" "length h' = 4"
    "unat (Uint32 h') = nonceSize + length p' + gcmTagSize"
    by (rule sealed_frame_shape [OF assms(1,4,5)])
  have hh: "h = h'" and e1: "n @ gcm_Seal key n p @ r = n' @ gcm_Seal key n' p' @ r'"
    using e h h' by simp_all
  have nn: "n = n'" using e1 assms(2,4) by simp
  have e2: "gcm_Seal key n p @ r = gcm_Seal key n p' @ r'" using e1 nn by simp
  have "length p = length p'" using h(3) h'(3) hh by simp
  then have s: "gcm_Seal key n p = gcm_Seal key n p'" "r = r'"
    using e2 by (simp_all add: length_gcm_Seal assms(1))
  have "p = p'" using s(1) gcm.seal_inject [OF assms(1)] by simp
  then show ?thesis using s(2) nn by simp
qed

lemma same_length_prefix: "a @ x = b @ y \<Longrightarrow> length a = length b \<Longrightarrow> a = b"
  by simp

lemma synced_first_frame:
  assumes "synced w c fs" "unread w c = h @ t" "length h = 4"
  obtains n p gs where "fs = (n, p) # gs" "length n = nonceSize" "length p \<le> maxFrame"
    "unat (Uint32 h) = nonceSize + length p + gcmTagSize"
    "t = n @ gcm_Seal (w_key w) n p @ frames (w_key w) gs"
proof (cases fs)
  case Nil
  then show ?thesis using assms by (auto simp: synced_def)
next
  case (Cons np gs)
  obtain n p where np: "np = (n, p)" by (cases np)
  have ok: "length (w_key w) = 32" "length n = nonceSize" "length p \<le> maxFrame"
    using assms(1) Cons np by (auto simp: synced_def framing_ok_def frames_ok_def)
  obtain h' where h': "sealed_frame (w_key w) n p = h' @ n @ gcm_Seal (w_key w) n p" "length h' = 4"
    "unat (Uint32 h') = nonceSize + length p + gcmTagSize"
    by (rule sealed_frame_shape [OF ok])
  have "h @ t = h' @ n @ gcm_Seal (w_key w) n p @ frames (w_key w) gs"
    using assms(1,2) h'(1) Cons np by (simp add: synced_def)
  then show ?thesis using h' assms(3) ok Cons np by (intro that) simp_all
qed

definition stream_left :: "WrapConn \<Rightarrow> Conn \<Rightarrow> (bytes \<times> bytes) list \<Rightarrow> nat" where
  "stream_left w c fs = length (conn_script c) + length fs + length (w_readBuf w @ plain fs)"

lemma readRecord_synced:
  assumes "readRecord m w c = ((out, e), w', c')" "synced w c fs" "w_readBuf w = []"
  shows "\<exists>fs'. synced w' c' fs' \<and> plain fs = out @ w_readBuf w' @ plain fs'
    \<and> w_key w' = w_key w \<and> w_tamperCount w' = w_tamperCount w
    \<and> (e = None \<or> e = Some ConnTimeout \<or> e = Some (ReadLength ErrEOF) \<and> w_readBuf w' = [] \<and> fs' = [])
    \<and> (stream_left w' c' fs' < stream_left w c fs \<or> w_readBuf w' = [] \<and> fs' = [])"
proof -
  have ok: "framing_ok w" "quiet c" "length (w_key w) = 32" "frames_ok fs"
    using assms(2) by (auto simp: synced_def framing_ok_def)
  have minimum: "4 < length (unread w c)" if "fs \<noteq> []"
  proof -
    obtain n p gs where "fs = (n, p) # gs" using \<open>fs \<noteq> []\<close> by (cases fs) auto
    then show ?thesis using assms(2) by (simp add: synced_def frames_ok_def sealed_frame_def Let_def nonceSize_def)
  qed
  from assms(1) ok(1) assms(3) show ?thesis
  proof (cases rule: readRecord_cases)
    case timeout
    have "synced w' c' fs" using timeout assms(2) ok(2) by (auto simp: synced_def intro: quiet_after)
    moreover have "length (conn_script c') < length (conn_script c)"
      using timeout(9) ok(2) by (auto simp: conn_failed_def quiet_def)
    ultimately show ?thesis using timeout assms(3) by (intro exI [of _ fs]) (auto simp: stream_left_def)
  next
    case (ended x h)
    have x: "x = ErrEOF" "conn_in c' = []" using quiet_failed [OF ok(2)] ended by auto
    then have "fs = []" using minimum ended by fastforce
    then show ?thesis using ended x ok assms(2) quiet_after [of c c']
      by (intro exI [of _ "[]"]) (auto simp: synced_def)
  next
    case (tampered t h b)
    obtain n p gs where f: "length n = nonceSize" "length p \<le> maxFrame"
      "unat (Uint32 h) = nonceSize + length p + gcmTagSize"
      "b @ unread w' c' = n @ gcm_Seal (w_key w) n p @ frames (w_key w) gs"
      using synced_first_frame [OF assms(2) tampered(5,4)] by metis
    then have b: "length b = unat (Uint32 h)" "gcm_Open (w_key w) (take nonceSize b) (drop nonceSize b) = None"
      using tampered(10) by (auto simp: Let_def maxRecord_def)
    have "b = n @ gcm_Seal (w_key w) n p"
    proof (rule same_length_prefix)
      show "b @ unread w' c' = (n @ gcm_Seal (w_key w) n p) @ frames (w_key w) gs" using f(4) by simp
      show "length b = length (n @ gcm_Seal (w_key w) n p)"
        using b(1) f(1,3) by (simp add: length_gcm_Seal [OF ok(3)] gcmTagSize_def)
    qed
    then have "take nonceSize b = n" "drop nonceSize b = gcm_Seal (w_key w) n p" using f(1) by simp_all
    then have False using b(2) gcm.unseal_None [OF ok(3)] by metis
    then show ?thesis ..
  next
    case (short x b)
    have x: "x = ErrEOF" "conn_in c' = []" using quiet_failed [OF ok(2)] short by auto
    then have "length b < 4 + unat (Uint32 (take 4 b))" using short(12) ok(2) by (auto simp: quiet_def)
    moreover have u: "unread w c = take 4 b @ drop 4 b" using short x by simp
    obtain n p gs where "unat (Uint32 (take 4 b)) = nonceSize + length p + gcmTagSize" "length n = nonceSize"
      "drop 4 b = n @ gcm_Seal (w_key w) n p @ frames (w_key w) gs"
      using synced_first_frame [OF assms(2) u] short(13) by (metis length_take min_absorb2)
    then have "unat (Uint32 (take 4 b)) \<le> length b - 4"
      unfolding length_drop [symmetric] by (simp add: length_gcm_Seal [OF ok(3)] gcmTagSize_def)
    ultimately show ?thesis using short(13) by simp
  next
    case (opened n p)
    have "fs \<noteq> []" using opened(6) assms(2) by (auto simp: synced_def sealed_frame_def Let_def nonceSize_def PutUint32_def)
    then obtain n1 p1 gs where fs: "fs = (n1, p1) # gs" by (cases fs) auto
    have "sealed_frame (w_key w) n p @ unread w' c' = sealed_frame (w_key w) n1 p1 @ frames (w_key w) gs"
      using opened(6) assms(2) fs by (simp add: synced_def)
    then have eq: "n = n1 \<and> p = p1 \<and> unread w' c' = frames (w_key w) gs"
      using opened ok fs by (intro sealed_frame_inject) (auto simp: frames_ok_def)
    have "synced w' c' gs" using opened eq ok fs by (auto simp: synced_def frames_ok_def intro: quiet_after)
    moreover have "length (conn_script c') \<le> length (conn_script c)"
      using opened(9) by (auto simp: conn_after_def)
    ultimately show ?thesis using opened eq fs assms(3)
      by (intro exI [of _ gs]) (auto simp: stream_left_def)
  qed
qed

lemma Read_synced:
  assumes "Read m w c = ((out, e), w', c')" "synced w c fs"
  shows "\<exists>fs'. synced w' c' fs' \<and> w_readBuf w @ plain fs = out @ w_readBuf w' @ plain fs'
    \<and> w_key w' = w_key w \<and> w_tamperCount w' = w_tamperCount w
    \<and> (e = None \<or> e = Some ConnTimeout \<or> e = Some (ReadLength ErrEOF) \<and> w_readBuf w' = [] \<and> fs' = [])
    \<and> (0 < m \<longrightarrow> stream_left w' c' fs' < stream_left w c fs \<or> w_readBuf w' = [] \<and> fs' = [])"
proof -
  consider "m = 0" | "0 < m" "w_readBuf w \<noteq> []" | "0 < m" "w_readBuf w = []" by blast
  then show ?thesis
  proof cases
    case 1
    then show ?thesis using assms by (intro exI [of _ fs]) (simp add: Read_def)
  next
    case 2
    then have o: "out = take m (w_readBuf w)" "e = None" "c' = c" "w' = w\<lparr>w_readBuf := drop m (w_readBuf w)\<rparr>"
      using assms(1) by (simp_all add: Read_def)
    then show ?thesis
      using assms(2) 2 by (intro exI [of _ fs]) (simp add: synced_def stream_left_def)
  next
    case 3
    then have "readRecord m w c = ((out, e), w', c')" using assms(1) by (simp add: Read_def)
    from readRecord_synced [OF this assms(2) 3(2)] show ?thesis using 3(2) by auto
  qed
qed

lemma read_many_synced:
  assumes "read_many ms w c = (outs, w', c')" "synced w c fs"
  shows "\<exists>rest. w_readBuf w @ plain fs = delivered outs @ rest \<and> w_tamperCount w' = w_tamperCount w
    \<and> (\<forall>r \<in> set outs. snd r = None \<or> snd r = Some ConnTimeout \<or> snd r = Some (ReadLength ErrEOF) \<and> rest = [])
    \<and> ((\<forall>m \<in> set ms. 0 < m) \<and> stream_left w c fs \<le> length ms \<longrightarrow> rest = [])"
  using assms
proof (induction ms arbitrary: w c outs fs)
  case Nil
  then show ?case by (intro exI [of _ "w_readBuf w @ plain fs"]) (auto simp: stream_left_def)
next
  case (Cons m ms)
  obtain out e w1 c1 where r: "Read m w c = ((out, e), w1, c1)" by (cases "Read m w c") auto
  obtain outs1 where rm: "read_many ms w1 c1 = (outs1, w', c')" and o: "outs = (out, e) # outs1"
    using Cons.prems(1) r by (auto split: prod.splits)
  obtain gs where g: "synced w1 c1 gs" "w_readBuf w @ plain fs = out @ w_readBuf w1 @ plain gs"
    "w_tamperCount w1 = w_tamperCount w"
    "e = None \<or> e = Some ConnTimeout \<or> e = Some (ReadLength ErrEOF) \<and> w_readBuf w1 = [] \<and> gs = []"
    "0 < m \<longrightarrow> stream_left w1 c1 gs < stream_left w c fs \<or> w_readBuf w1 = [] \<and> gs = []"
    using Read_synced [OF r Cons.prems(2)] by blast
  obtain rest where h: "w_readBuf w1 @ plain gs = delivered outs1 @ rest" "w_tamperCount w' = w_tamperCount w1"
    "\<forall>r \<in> set outs1. snd r = None \<or> snd r = Some ConnTimeout \<or> snd r = Some (ReadLength ErrEOF) \<and> rest = []"
    "(\<forall>m \<in> set ms. 0 < m) \<and> stream_left w1 c1 gs \<le> length ms \<longrightarrow> rest = []"
    using Cons.IH [OF rm g(1)] by blast
  have "rest = []" if "w_readBuf w1 = [] \<and> gs = []" using h(1) that by simp
  then show ?case using g h o by (intro exI [of _ rest]) auto
qed

section \<open>The writer\<close>

definition healthy :: "Conn \<Rightarrow> bool" where
  "healthy c \<longleftrightarrow> \<not> conn_closed c \<and> (\<forall>x \<in> set (conn_wscript c). x = None)"

lemma writeRecord_healthy:
  assumes "healthy c"
  obtains w' c' where "writeRecord chunk (n # ns, w, c) = (None, ns, w', c')"
    "conn_out c' = conn_out c @ sealed_frame (w_key w) n chunk" "healthy c'" "w_key w' = w_key w"
  using assms
  by (cases "conn_wscript c")
     (auto simp: writeRecord_def conn_Write_def healthy_def Let_def split: option.splits)

text \<open>A write on a healthy connection takes one nonce a record, at most one record
  more than it has bytes, and puts exactly those records on the wire.\<close>

lemma write_loop_healthy:
  assumes "healthy c" "length rest < length ns"
  shows "\<exists>fs w' c'. write_loop rest k (ns, w, c) = ((k + length rest, None), drop (length fs) ns, w', c')
    \<and> conn_out c' = conn_out c @ frames (w_key w) fs \<and> plain fs = rest \<and> map fst fs = take (length fs) ns
    \<and> (\<forall>np \<in> set fs. length (snd np) \<le> maxFrame) \<and> length fs \<le> length rest + 1
    \<and> healthy c' \<and> w_key w' = w_key w"
  using assms
proof (induction "length rest" arbitrary: rest k ns w c rule: less_induct)
  case less
  obtain n ns' where ns: "ns = n # ns'" using less.prems(2) by (cases ns) auto
  let ?chunk = "take maxFrame rest"
  obtain w1 c1 where r: "writeRecord ?chunk (n # ns', w, c) = (None, ns', w1, c1)"
    "conn_out c1 = conn_out c @ sealed_frame (w_key w) n ?chunk" "healthy c1" "w_key w1 = w_key w"
    by (rule writeRecord_healthy [OF less.prems(1)])
  show ?case
  proof (cases "drop maxFrame rest = []")
    case True
    then have "write_loop rest k (ns, w, c) = ((k + length rest, None), ns', w1, c1)"
      using r(1) ns by (simp add: write_loop.simps [of rest])
    then show ?thesis using r ns True by (intro exI [of _ "[(n, ?chunk)]"]) auto
  next
    case False
    let ?rest = "drop maxFrame rest"
    have lt: "length ?rest < length rest" "length ?rest < length ns'"
      using False less.prems(2) ns by (auto simp: maxFrame_def)
    obtain fs w' c' where h: "write_loop ?rest (k + length ?chunk) (ns', w1, c1)
        = ((k + length ?chunk + length ?rest, None), drop (length fs) ns', w', c')"
      "conn_out c' = conn_out c1 @ frames (w_key w1) fs" "plain fs = ?rest" "map fst fs = take (length fs) ns'"
      "\<forall>np \<in> set fs. length (snd np) \<le> maxFrame" "length fs \<le> length ?rest + 1" "healthy c'" "w_key w' = w_key w1"
      using less.hyps [OF lt(1) r(3) lt(2)] by blast
    have "write_loop rest k (ns, w, c) = write_loop ?rest (k + length ?chunk) (ns', w1, c1)"
      using r(1) ns False by (simp add: write_loop.simps [of rest])
    also have "\<dots> = ((k + length rest, None), drop (length fs) ns', w', c')" using h(1) False by simp
    finally show ?thesis
      using h r ns lt(1) by (intro exI [of _ "(n, ?chunk) # fs"] exI [of _ w'] exI [of _ c']) simp
  qed
qed

lemma write_many_healthy:
  assumes "healthy c" "length (concat ps) + length ps \<le> length ns"
  shows "\<exists>fs w' c'. write_many ps (ns, w, c) = (map (\<lambda>p. (length p, None)) ps, drop (length fs) ns, w', c')
    \<and> conn_out c' = conn_out c @ frames (w_key w) fs \<and> plain fs = concat ps \<and> map fst fs = take (length fs) ns
    \<and> (\<forall>np \<in> set fs. length (snd np) \<le> maxFrame) \<and> length fs \<le> length (concat ps) + length ps"
  using assms
proof (induction ps arbitrary: ns w c)
  case Nil
  then show ?case by (intro exI [of _ "[]"]) simp
next
  case (Cons p ps)
  obtain fs w1 c1 where h: "Write p (ns, w, c) = ((length p, None), drop (length fs) ns, w1, c1)"
    "conn_out c1 = conn_out c @ frames (w_key w) fs" "plain fs = p" "map fst fs = take (length fs) ns"
    "\<forall>np \<in> set fs. length (snd np) \<le> maxFrame" "length fs \<le> length p + 1" "healthy c1" "w_key w1 = w_key w"
    using write_loop_healthy [OF Cons.prems(1), of p ns 0 w] Cons.prems(2) by (auto simp: Write_def)
  have "length (concat ps) + length ps \<le> length (drop (length fs) ns)" using Cons.prems(2) h(6) by simp
  from Cons.IH [OF h(7) this, of w1] obtain gs w' c' where g:
    "write_many ps (drop (length fs) ns, w1, c1) = (map (\<lambda>p. (length p, None)) ps, drop (length gs) (drop (length fs) ns), w', c')"
    "conn_out c' = conn_out c1 @ frames (w_key w1) gs" "plain gs = concat ps" "map fst gs = take (length gs) (drop (length fs) ns)"
    "\<forall>np \<in> set gs. length (snd np) \<le> maxFrame" "length gs \<le> length (concat ps) + length ps" by blast
  show ?case
    using h g
    by (intro exI [of _ "fs @ gs"] exI [of _ w'] exI [of _ c'])
       (auto simp: frames_append take_add add.commute)
qed

section \<open>Properties\<close>

text \<open>C5: The encrypted connection is a faithful byte stream.  Payloads of any size written on
  a healthy connection are all accepted in full, whatever the nonces; a peer with the same key
  that reads with buffers of any size, over a connection that cuts the bytes anywhere and lets
  deadlines expire anywhere, receives them in order, without loss or duplication, counts no
  tampering and sees no error but timeouts and the final end of stream; and a bounded number of
  reads delivers everything.\<close>

theorem wrapped_stream_round_trip:
  assumes key: "length key = 32" and nonces: "\<forall>n \<in> set ns. length n = nonceSize"
    and enough: "length (concat ps) + length ps \<le> length ns"
    and sender: "healthy c0" "conn_out c0 = []"
    and receiver: "quiet c" "conn_in c = conn_out (snd (snd (snd (write_many ps (ns, Wrap key, c0)))))"
    and run: "read_many ms (Wrap key) c = (outs, w', c')"
  shows "fst (write_many ps (ns, Wrap key, c0)) = map (\<lambda>p. (length p, None)) ps
    \<and> (\<exists>rest. concat ps = delivered outs @ rest \<and> TamperCount w' = 0
         \<and> (\<forall>r \<in> set outs. snd r = None \<or> snd r = Some ConnTimeout
              \<or> snd r = Some (ReadLength ErrEOF) \<and> rest = [])
         \<and> ((\<forall>m \<in> set ms. 0 < m)
              \<and> length (conn_script c) + 2 * length (concat ps) + length ps \<le> length ms \<longrightarrow> rest = []))"
proof -
  obtain fs w1 c1 where f:
    "write_many ps (ns, Wrap key, c0) = (map (\<lambda>p. (length p, None)) ps, drop (length fs) ns, w1, c1)"
    "conn_out c1 = frames key fs" "plain fs = concat ps" "map fst fs = take (length fs) ns"
    "\<forall>np \<in> set fs. length (snd np) \<le> maxFrame" "length fs \<le> length (concat ps) + length ps"
    using write_many_healthy [OF sender(1) enough, of "Wrap key"] sender(2) by (auto simp: Wrap_def)
  have "length (fst np) = nonceSize" if "np \<in> set fs" for np
  proof -
    have "fst np \<in> set (take (length fs) ns)" using that f(4) by (metis imageI set_map)
    then show ?thesis using nonces by (auto dest: in_set_takeD)
  qed
  then have "frames_ok fs" using f(5) by (force simp: frames_ok_def)
  then have "synced (Wrap key) c fs"
    using receiver f(1,2) key by (simp add: synced_def) (simp add: Wrap_def)
  from read_many_synced [OF run this] show ?thesis
    using f(1,3,6) by (auto simp: Wrap_def TamperCount_def stream_left_def)
qed

theorem wrapped_stream_round_trip_witness:
  "let ns = replicate 8 (replicate 12 7); ps = [[1, 2, 3], [], [4]];
       c0 = \<lparr>conn_in = [], conn_script = [], conn_out = [], conn_wscript = [None], conn_closed = False\<rparr>;
       key = replicate 32 9;
       c = \<lparr>conn_in = conn_out (snd (snd (snd (write_many ps (ns, Wrap key, c0))))),
            conn_script = [(2, Some ErrTimeout), (1, None), (40, Some ErrTimeout)],
            conn_out = [], conn_wscript = [], conn_closed = False\<rparr>
   in delivered (fst (read_many (replicate 14 2) (Wrap key) c)) = [1, 2, 3, 4]"
proof -
  let ?ns = "replicate 8 (replicate 12 7) :: bytes list" and ?ps = "[[1, 2, 3], [], [4]] :: bytes list"
  let ?snd_conn = "\<lparr>conn_in = [], conn_script = [], conn_out = [], conn_wscript = [None], conn_closed = False\<rparr>"
  let ?key = "replicate 32 9 :: bytes"
  let ?c = "\<lparr>conn_in = conn_out (snd (snd (snd (write_many ?ps (?ns, Wrap ?key, ?snd_conn))))),
            conn_script = [(2, Some ErrTimeout), (1, None), (40, Some ErrTimeout)],
            conn_out = [], conn_wscript = [], conn_closed = False\<rparr>"
  obtain outs w' c' where r: "read_many (replicate 14 2) (Wrap ?key) ?c = (outs, w', c')"
    by (cases "read_many (replicate 14 2) (Wrap ?key) ?c") auto
  have p: "length ?key = 32" "\<forall>n \<in> set ?ns. length n = nonceSize"
    "length (concat ?ps) + length ?ps \<le> length ?ns" "healthy ?snd_conn" "conn_out ?snd_conn = []" "quiet ?c"
    "conn_in ?c = conn_out (snd (snd (snd (write_many ?ps (?ns, Wrap ?key, ?snd_conn)))))"
    by (simp_all add: nonceSize_def healthy_def quiet_def del: write_many.simps)
  have "[1, 2, 3, 4] = delivered outs"
    using wrapped_stream_round_trip [OF p r] by auto
  then show ?thesis unfolding Let_def r by simp
qed

text \<open>C6: Whatever bytes arrive, and however the connection fails, every byte a reader is
  handed is plaintext of a frame that was sealed under its key and stands in the stream; and the
  tamper counter is exactly the number of reads that reported a tampered or truncated record, so
  expired deadlines and an orderly end are never counted.\<close>

theorem delivered_bytes_are_authentic:
  assumes "length key = 32" "read_many ms (Wrap key) c = (outs, w', c')"
  shows "TamperCount w' = word_of_nat (length (filter (tampering \<circ> snd) outs))
    \<and> (\<exists>fs rest. plain fs = delivered outs @ rest
         \<and> (\<forall>(nonce, p) \<in> set fs. length nonce = nonceSize
              \<and> (\<exists>pre post. conn_in c = pre @ sealed_frame key nonce p @ post)))"
proof -
  obtain used fs where u: "conn_in c = used @ unread w' c'" "plain fs = delivered outs @ w_readBuf w'"
    "\<forall>np \<in> set fs. frame_on_wire key used np"
    and t: "TamperCount w' = word_of_nat (length (filter (tampering \<circ> snd) outs))"
    using read_many_any_stream [OF assms(2) framing_ok_Wrap [OF assms(1)]]
    by (auto simp: TamperCount_def) (auto simp: Wrap_def)
  have "length nonce = nonceSize \<and> (\<exists>pre post. conn_in c = pre @ sealed_frame key nonce p @ post)"
    if f: "(nonce, p) \<in> set fs" for nonce p
  proof -
    obtain pre post where "used = pre @ sealed_frame key nonce p @ post" "length nonce = nonceSize"
      using bspec [OF u(3) f] by auto
    then have "conn_in c = pre @ sealed_frame key nonce p @ (post @ unread w' c')" using u(1) by simp
    then show ?thesis using \<open>length nonce = nonceSize\<close> by blast
  qed
  then show ?thesis using t u(2) by blast
qed

theorem delivered_bytes_are_authentic_witness:
  "TamperCount (fst (snd (read_many [5, 5] (Wrap (replicate 32 9))
     \<lparr>conn_in = [0, 0, 0, 0, 255, 0, 0, 0, 1], conn_script = [(3, Some ErrTimeout)], conn_out = [],
      conn_wscript = [], conn_closed = False\<rparr>))) = 1"
proof -
  let ?c = "\<lparr>conn_in = [0, 0, 0, 0, 255, 0, 0, 0, 1], conn_script = [(3, Some ErrTimeout)], conn_out = [],
      conn_wscript = [], conn_closed = False\<rparr> :: Conn"
  obtain outs w' c' where r: "read_many [5, 5] (Wrap (replicate 32 9)) ?c = (outs, w', c')"
    by (cases "read_many [5, 5] (Wrap (replicate 32 9)) ?c") auto
  have "length (filter (tampering \<circ> snd) (fst (read_many [5, 5] (Wrap (replicate 32 9)) ?c))) = 1" by code_simp
  then show ?thesis using delivered_bytes_are_authentic [OF _ r] by (simp add: r del: read_many.simps)
qed

text \<open>A record that is played back is opened again: nothing in the reader remembers the
  nonces it has seen, so the copy is delivered as fresh data and no tampering is counted.\<close>

lemma replayed_record_delivered:
  assumes "length key = 32" "length nonce = nonceSize" "length p \<le> maxFrame"
    and "quiet c" "conn_script c = []" "conn_in c = sealed_frame key nonce p @ sealed_frame key nonce p"
    and "read_many (replicate (2 + 2 * length p) 1) (Wrap key) c = (outs, w', c')"
  shows "delivered outs = p @ p \<and> TamperCount w' = 0"
proof -
  have "synced (Wrap key) c [(nonce, p), (nonce, p)]"
    using assms by (simp add: synced_def frames_ok_def) (simp add: Wrap_def)
  from read_many_synced [OF assms(7) this] show ?thesis
    using assms(5) by (auto simp: stream_left_def TamperCount_def Wrap_def)
qed

end
