(* ===== verification/Go_Json.thy ===== *)
theory Go_Json
  imports Router_Prelude
begin

text \<open>
  The part of the Go package \<open>encoding/json\<close> the router uses: the grammar
  \<open>Unmarshal\<close> accepts (with its nesting limit), the decoding of string
  literals, the matching of struct field names, and the text \<open>Marshal\<close>
  prints for maps of raw messages.

  A JSON text is lexed into tokens and parsed by a machine with a stack, as
  the scanner of the package does.  A value keeps the literals of its strings
  and numbers: a \<open>json.RawMessage\<close> is such a value, because every use of one
  (decoding it, or printing it, which compacts it) ignores the white space
  between its tokens.
\<close>

section \<open>Values and tokens\<close>

datatype json =
    JNull
  | JBool bool
  | JNum string
  | JStr string
  | JArr "json list"
  | JObj "(string \<times> json) list"

datatype tok = TPunct char | TVal json

section \<open>Lexing\<close>

definition json_ws :: "char \<Rightarrow> bool" where
  "json_ws c \<longleftrightarrow> c = CHR '' '' \<or> c = CHR 0x09 \<or> c = CHR 0x0A \<or> c = CHR 0x0D"

definition json_punct :: "char \<Rightarrow> bool" where
  "json_punct c \<longleftrightarrow> c \<in> set ''{}[],:''"

definition is_dig :: "char \<Rightarrow> bool" where
  "is_dig c \<longleftrightarrow> (let n = of_char c :: nat in 48 \<le> n \<and> n \<le> 57)"

definition hex_digit :: "char \<Rightarrow> nat option" where
  "hex_digit c = (let n = of_char c :: nat in
     if 48 \<le> n \<and> n \<le> 57 then Some (n - 48)
     else if 65 \<le> n \<and> n \<le> 70 then Some (n - 55)
     else if 97 \<le> n \<and> n \<le> 102 then Some (n - 87) else None)"

definition simple_escape :: "char \<Rightarrow> char option" where
  "simple_escape e =
     map_of [(CHR 0x22, CHR 0x22), (CHR 0x5C, CHR 0x5C), (CHR ''/'', CHR ''/''), (CHR ''b'', CHR 0x08),
             (CHR ''f'', CHR 0x0C), (CHR ''n'', CHR 0x0A), (CHR ''r'', CHR 0x0D), (CHR ''t'', CHR 0x09)] e"

text \<open>The body of a string literal, up to and without the closing quote.\<close>

fun lex_string :: "string \<Rightarrow> (string \<times> string) option" where
  "lex_string [] = None"
| "lex_string (c # cs) =
     (if c = CHR 0x22 then Some ([], cs)
      else if c = CHR 0x5C then
        (case cs of
           [] \<Rightarrow> None
         | e # ds \<Rightarrow>
             if e = CHR ''u'' then
               (case ds of
                  a # b # x # y # r \<Rightarrow>
                    if list_all (\<lambda>h. hex_digit h \<noteq> None) [a, b, x, y]
                    then map_option (\<lambda>(t, q). (c # e # a # b # x # y # t, q)) (lex_string r)
                    else None
                | _ \<Rightarrow> None)
             else if simple_escape e \<noteq> None
             then map_option (\<lambda>(t, q). (c # e # t, q)) (lex_string ds)
             else None)
      else if of_char c < (32::nat) then None
      else map_option (\<lambda>(t, q). (c # t, q)) (lex_string cs))"

text \<open>A number literal: sign, integer part without leading zeros, fraction, exponent.\<close>

definition lex_digits :: "string \<Rightarrow> (string \<times> string) option" where
  "lex_digits s = (let d = takeWhile is_dig s in if d = [] then None else Some (d, dropWhile is_dig s))"

definition lex_int :: "string \<Rightarrow> (string \<times> string) option" where
  "lex_int s = (if HasPrefix s ''0'' then Some (''0'', drop 1 s) else lex_digits s)"

definition lex_frac :: "string \<Rightarrow> (string \<times> string) option" where
  "lex_frac s = (if HasPrefix s ''.''
     then map_option (\<lambda>(d, q). (CHR ''.'' # d, q)) (lex_digits (drop 1 s)) else Some ([], s))"

definition lex_exp :: "string \<Rightarrow> (string \<times> string) option" where
  "lex_exp s = (case s of
     e # r \<Rightarrow>
       if e = CHR ''e'' \<or> e = CHR ''E'' then
         (case r of
            p # r' \<Rightarrow> if p = CHR ''+'' \<or> p = CHR ''-''
                      then map_option (\<lambda>(d, q). (e # p # d, q)) (lex_digits r')
                      else map_option (\<lambda>(d, q). (e # d, q)) (lex_digits r)
          | [] \<Rightarrow> None)
       else Some ([], s)
   | [] \<Rightarrow> Some ([], s))"

definition lex_number :: "string \<Rightarrow> (string \<times> string) option" where
  "lex_number s =
     (let (sg, r0) = (if HasPrefix s ''-'' then (''-'', drop 1 s) else ([], s))
      in case lex_int r0 of
           None \<Rightarrow> None
         | Some (i, r1) \<Rightarrow>
             (case lex_frac r1 of
                None \<Rightarrow> None
              | Some (f, r2) \<Rightarrow>
                  (case lex_exp r2 of None \<Rightarrow> None | Some (x, r3) \<Rightarrow> Some (sg @ i @ f @ x, r3))))"

definition lex_word :: "string \<Rightarrow> json \<Rightarrow> string \<Rightarrow> (json \<times> string) option" where
  "lex_word w v s = (if HasPrefix s w then Some (v, drop (length w) s) else None)"

definition lex_token :: "string \<Rightarrow> (tok \<times> string) option" where
  "lex_token s =
     (case s of
        [] \<Rightarrow> None
      | c # cs \<Rightarrow>
          if json_punct c then Some (TPunct c, cs)
          else map_option (\<lambda>(v, q). (TVal v, q))
            (if c = CHR 0x22 then map_option (\<lambda>(t, q). (JStr t, q)) (lex_string cs)
             else if c = CHR ''-'' \<or> is_dig c then map_option (\<lambda>(t, q). (JNum t, q)) (lex_number s)
             else if c = CHR ''t'' then lex_word ''true'' (JBool True) s
             else if c = CHR ''f'' then lex_word ''false'' (JBool False) s
             else if c = CHR ''n'' then lex_word ''null'' JNull s
             else None))"

lemma lex_string_cases:
  assumes "lex_string (c # cs) = Some (t, q)"
  obtains (quote) "c = CHR 0x22" "t = []" "q = cs"
  | (unicode) a b x y r t' where "c = CHR 0x5C" "cs = CHR ''u'' # a # b # x # y # r"
      "list_all (\<lambda>h. hex_digit h \<noteq> None) [a, b, x, y]" "lex_string r = Some (t', q)"
      "t = c # CHR ''u'' # a # b # x # y # t'"
  | (escape) e ds t' where "c = CHR 0x5C" "cs = e # ds" "e \<noteq> CHR ''u''" "simple_escape e \<noteq> None"
      "lex_string ds = Some (t', q)" "t = c # e # t'"
  | (plain) t' where "c \<noteq> CHR 0x22" "c \<noteq> CHR 0x5C" "32 \<le> (of_char c :: nat)"
      "lex_string cs = Some (t', q)" "t = c # t'"
proof -
  consider "c = CHR 0x22" | "c = CHR 0x5C" | "c \<noteq> CHR 0x22" "c \<noteq> CHR 0x5C" by blast
  then show ?thesis
  proof cases
    case 1
    then show ?thesis using assms by (intro quote) auto
  next
    case 2
    then obtain e ds where cs: "cs = e # ds" using assms by (cases cs) auto
    show ?thesis
    proof (cases "e = CHR ''u''")
      case True
      then obtain a b x y r where ds: "ds = a # b # x # y # r" using assms 2 cs by (auto split: list.splits)
      then obtain t' where "lex_string r = Some (t', q)" "t = c # CHR ''u'' # a # b # x # y # t'"
        "list_all (\<lambda>h. hex_digit h \<noteq> None) [a, b, x, y]"
        using assms 2 cs True by (auto split: if_splits)
      then show ?thesis using 2 cs ds True by (intro unicode [of a b x y r t']) simp_all
    next
      case False
      then obtain t' where "lex_string ds = Some (t', q)" "t = c # e # t'" "simple_escape e \<noteq> None"
        using assms 2 cs by (auto split: if_splits)
      then show ?thesis using 2 cs False by (intro escape [of e ds t']) simp_all
    qed
  next
    case 3
    then show ?thesis using assms that(4) by (auto split: if_splits)
  qed
qed

lemma lex_string_text: "lex_string s = Some (t, q) \<Longrightarrow> s = t @ CHR 0x22 # q"
proof (induction "length s" arbitrary: s t rule: less_induct)
  case less
  obtain c cs where s: "s = c # cs" using less.prems by (cases s) auto
  from less.prems [unfolded s] show ?case
    by (cases rule: lex_string_cases) (use less.hyps s in auto)
qed

lemma lex_digits_text: "lex_digits s = Some (d, q) \<Longrightarrow> s = d @ q \<and> d \<noteq> []"
  by (auto simp: lex_digits_def Let_def split: if_splits)

lemma HasPrefix_drop: "HasPrefix s p \<Longrightarrow> s = p @ drop (length p) s"
  by (metis HasPrefix_def append_take_drop_id)

lemma lex_int_text: "lex_int s = Some (d, q) \<Longrightarrow> s = d @ q \<and> d \<noteq> []"
  by (auto simp: lex_int_def dest: lex_digits_text HasPrefix_drop split: if_splits)

lemma lex_frac_text: "lex_frac s = Some (d, q) \<Longrightarrow> s = d @ q"
  using HasPrefix_drop [of s "''.''"]
  by (auto simp: lex_frac_def dest: lex_digits_text split: if_splits)

lemma lex_exp_text: "lex_exp s = Some (d, q) \<Longrightarrow> s = d @ q"
  by (auto simp: lex_exp_def dest: lex_digits_text split: list.splits if_splits)

lemma lex_number_text: "lex_number s = Some (t, q) \<Longrightarrow> s = t @ q \<and> t \<noteq> []"
  using HasPrefix_drop [of s "''-''"]
  by (auto simp: lex_number_def Let_def dest!: lex_int_text lex_frac_text lex_exp_text
      split: option.splits if_splits)

lemma lex_token_length: "lex_token s = Some (t, q) \<Longrightarrow> length q < length s"
proof -
  have n: "length q < length s" if "lex_number s = Some (u, q)" for u
    using lex_number_text [OF that] by (metis length_append length_greater_0_conv less_add_same_cancel2)
  have t: "length q < Suc (length cs)" if "lex_string cs = Some (u, q)" for u cs
    using lex_string_text [OF that] by simp
  show "lex_token s = Some (t, q) \<Longrightarrow> length q < length s"
    using n t by (auto simp: lex_token_def lex_word_def split: list.splits if_splits)
qed

function json_lex :: "string \<Rightarrow> tok list option" where
  "json_lex s = (case s of
     [] \<Rightarrow> Some []
   | c # cs \<Rightarrow> if json_ws c then json_lex cs
       else case lex_token s of
              None \<Rightarrow> None
            | Some (t, q) \<Rightarrow> map_option (\<lambda>ts. t # ts) (json_lex q))"
  by pat_completeness auto
termination by (relation "measure length") (auto dest: lex_token_length)

declare json_lex.simps [simp del]

section \<open>Parsing\<close>

datatype pmode = PValue | PFirst | PKeyFirst | PKey | PColon string | PAfter json

datatype frame = FArr "json list" | FObj "(string \<times> json) list" string

definition maxNestingDepth :: nat where "maxNestingDepth = 10000"

fun json_step :: "tok \<Rightarrow> pmode \<Rightarrow> frame list \<Rightarrow> (pmode \<times> frame list) option" where
  "json_step t PKeyFirst st =
     (case t of
        TVal (JStr k) \<Rightarrow> Some (PColon k, st)
      | TPunct c \<Rightarrow> if c = CHR ''}'' then Some (PAfter (JObj []), tl st) else None
      | _ \<Rightarrow> None)"
| "json_step t PKey st = (case t of TVal (JStr k) \<Rightarrow> Some (PColon k, st) | _ \<Rightarrow> None)"
| "json_step t (PColon k) st =
     (case st of
        FObj ms _ # st' \<Rightarrow> if t = TPunct (CHR '':'') then Some (PValue, FObj ms k # st') else None
      | _ \<Rightarrow> None)"
| "json_step t (PAfter v) st =
     (case st of
        [] \<Rightarrow> None
      | FArr vs # st' \<Rightarrow>
          if t = TPunct (CHR '','') then Some (PValue, FArr (v # vs) # st')
          else if t = TPunct (CHR '']'') then Some (PAfter (JArr (rev (v # vs))), st')
          else None
      | FObj ms k # st' \<Rightarrow>
          if t = TPunct (CHR '','') then Some (PKey, FObj ((k, v) # ms) [] # st')
          else if t = TPunct (CHR ''}'') then Some (PAfter (JObj (rev ((k, v) # ms))), st')
          else None)"
| "json_step t m st =
     (case t of
        TVal v \<Rightarrow> Some (PAfter v, st)
      | TPunct c \<Rightarrow>
          if c = CHR ''['' then
            (if length st < maxNestingDepth then Some (PFirst, FArr [] # st) else None)
          else if c = CHR ''{'' then
            (if length st < maxNestingDepth then Some (PKeyFirst, FObj [] [] # st) else None)
          else if c = CHR '']'' \<and> m = PFirst then Some (PAfter (JArr []), tl st)
          else None)"

fun parse_toks :: "tok list \<Rightarrow> pmode \<Rightarrow> frame list \<Rightarrow> json option" where
  "parse_toks [] m st = (case m of PAfter v \<Rightarrow> if st = [] then Some v else None | _ \<Rightarrow> None)"
| "parse_toks (t # ts) m st =
     (case json_step t m st of None \<Rightarrow> None | Some (m', st') \<Rightarrow> parse_toks ts m' st')"

text \<open>The value of a whole text, \<open>None\<close> where \<open>Unmarshal\<close> reports a syntax error.\<close>

definition json_parse :: "string \<Rightarrow> json option" where
  "json_parse s = (case json_lex s of None \<Rightarrow> None | Some ts \<Rightarrow> parse_toks ts PValue [])"

section \<open>Printing a value back\<close>

primrec toks :: "json \<Rightarrow> tok list" and elem_toks :: "json list \<Rightarrow> tok list"
  and mem_toks :: "(string \<times> json) list \<Rightarrow> tok list" and mem_tok :: "string \<times> json \<Rightarrow> tok list" where
  "toks JNull = [TVal JNull]"
| "toks (JBool b) = [TVal (JBool b)]"
| "toks (JNum t) = [TVal (JNum t)]"
| "toks (JStr t) = [TVal (JStr t)]"
| "toks (JArr vs) = TPunct (CHR ''['') # elem_toks vs @ [TPunct (CHR '']'')]"
| "toks (JObj ms) = TPunct (CHR ''{'') # mem_toks ms @ [TPunct (CHR ''}'')]"
| "elem_toks [] = []"
| "elem_toks (v # vs) = toks v @ (if vs = [] then [] else TPunct (CHR '','') # elem_toks vs)"
| "mem_toks [] = []"
| "mem_toks (kv # ms) = mem_tok kv @ (if ms = [] then [] else TPunct (CHR '','') # mem_toks ms)"
| "mem_tok (k, v) = TVal (JStr k) # TPunct (CHR '':'') # toks v"

lemma json_induct [case_names JNull JBool JNum JStr JArr JObj]:
  assumes "P JNull" "\<And>b. P (JBool b)" "\<And>t. P (JNum t)" "\<And>t. P (JStr t)"
    and "\<And>vs. (\<And>v. v \<in> set vs \<Longrightarrow> P v) \<Longrightarrow> P (JArr vs)"
    and "\<And>ms. (\<And>kv. kv \<in> set ms \<Longrightarrow> P (snd kv)) \<Longrightarrow> P (JObj ms)"
  shows "P v"
proof (induction v)
  case (JObj ms)
  show ?case by (rule assms(6)) (use JObj in \<open>auto simp: fsts.simps snds.simps\<close>)
qed (use assms in auto)

primrec json_depth :: "json \<Rightarrow> nat" where
  "json_depth JNull = 0"
| "json_depth (JBool b) = 0"
| "json_depth (JNum t) = 0"
| "json_depth (JStr t) = 0"
| "json_depth (JArr vs) = Suc (fold max (map json_depth vs) 0)"
| "json_depth (JObj ms) = Suc (fold max (map snd (map (map_prod id json_depth) ms)) 0)"

lemma depth_member: "v \<in> set vs \<Longrightarrow> json_depth v < json_depth (JArr vs)"
  "kv \<in> set ms \<Longrightarrow> json_depth (snd kv) < json_depth (JObj ms)"
proof -
  have g: "x \<le> a \<Longrightarrow> x \<le> fold max xs (a::nat)" for x xs a
  proof (induction xs arbitrary: a)
    case (Cons y ys)
    then show ?case using Cons.IH [of "max y a"] by (simp add: le_max_iff_disj)
  qed simp
  have f: "x \<in> set xs \<Longrightarrow> x \<le> fold max xs (a::nat)" for x xs a
  proof (induction xs arbitrary: a)
    case (Cons y ys)
    then show ?case using g [of x "max x a" ys] by (cases "x = y") simp_all
  qed simp
  show "v \<in> set vs \<Longrightarrow> json_depth v < json_depth (JArr vs)" by (simp add: f less_Suc_eq_le)
  show "json_depth (snd kv) < json_depth (JObj ms)" if "kv \<in> set ms"
  proof -
    have "json_depth (snd kv) \<in> set (map snd (map (map_prod id json_depth) ms))" using that by force
    then show ?thesis by (simp add: f less_Suc_eq_le del: map_map)
  qed
qed

text \<open>The machine reads the tokens of a value and stands after it, under any stack.\<close>

definition reads_back :: "json \<Rightarrow> bool" where
  "reads_back v \<longleftrightarrow> (\<forall>m st ts. m = PValue \<or> m = PFirst \<longrightarrow> length st + json_depth v \<le> maxNestingDepth
     \<longrightarrow> parse_toks (toks v @ ts) m st = parse_toks ts (PAfter v) st)"

lemma parse_elems:
  assumes "\<And>v. v \<in> set vs \<Longrightarrow> reads_back v \<and> Suc (length st) + json_depth v \<le> maxNestingDepth"
    and "vs \<noteq> []" "m = PValue \<or> m = PFirst"
  shows "parse_toks (elem_toks vs @ TPunct (CHR '']'') # ts) m (FArr acc # st)
    = parse_toks ts (PAfter (JArr (rev acc @ vs))) st"
  using assms by (induction vs arbitrary: acc m) (auto simp: reads_back_def)

lemma parse_members:
  assumes "\<And>kv. kv \<in> set ms \<Longrightarrow> reads_back (snd kv) \<and> Suc (length st) + json_depth (snd kv) \<le> maxNestingDepth"
    and "ms \<noteq> []" "m = PKey \<or> m = PKeyFirst"
  shows "parse_toks (mem_toks ms @ TPunct (CHR ''}'') # ts) m (FObj acc k # st)
    = parse_toks ts (PAfter (JObj (rev acc @ ms))) st"
  using assms
proof (induction ms arbitrary: acc m k)
  case (Cons kv ms)
  obtain k' v where kv: "kv = (k', v)" by (cases kv)
  have v: "reads_back v" "Suc (length st) + json_depth v \<le> maxNestingDepth" using Cons.prems(1) [of kv] kv by simp_all
  have step: "parse_toks (toks v @ us) PValue (FObj acc k' # st) = parse_toks us (PAfter v) (FObj acc k' # st)" for us acc
    using v by (simp add: reads_back_def)
  have rest: "parse_toks (mem_toks ms @ TPunct (CHR ''}'') # ts) PKey (FObj acc k # st)
    = parse_toks ts (PAfter (JObj (rev acc @ ms))) st" if "ms \<noteq> []" for acc k
    by (rule Cons.IH) (use Cons.prems(1) that in simp_all)
  show ?case using Cons.prems(3) by (auto simp: kv step rest)
qed simp

lemma parse_toks_toks: "reads_back v"
proof (induction v rule: json_induct)
  case (JArr vs)
  have "parse_toks (toks (JArr vs) @ ts) m st = parse_toks ts (PAfter (JArr vs)) st"
    if m: "m = PValue \<or> m = PFirst" and d: "length st + json_depth (JArr vs) \<le> maxNestingDepth" for m st ts
  proof (cases "vs = []")
    case False
    have "Suc (length st) + json_depth v \<le> maxNestingDepth" if "v \<in> set vs" for v
      using d depth_member(1) [OF that] by linarith
    then show ?thesis using parse_elems [of vs st PFirst ts "[]"] JArr False m d by auto
  qed (use m d in auto)
  then show ?case by (simp add: reads_back_def)
next
  case (JObj ms)
  have "parse_toks (toks (JObj ms) @ ts) m st = parse_toks ts (PAfter (JObj ms)) st"
    if m: "m = PValue \<or> m = PFirst" and d: "length st + json_depth (JObj ms) \<le> maxNestingDepth" for m st ts
  proof (cases "ms = []")
    case False
    have "Suc (length st) + json_depth (snd kv) \<le> maxNestingDepth" if "kv \<in> set ms" for kv
      using d depth_member(2) [OF that] by linarith
    then show ?thesis using parse_members [of ms st PKeyFirst ts "[]" "[]"] JObj False m d by auto
  qed (use m d in auto)
  then show ?case by (simp add: reads_back_def)
qed (auto simp: reads_back_def)

corollary parse_toks_print:
  "json_depth v \<le> maxNestingDepth \<Longrightarrow> parse_toks (toks v) PValue [] = Some v"
  using parse_toks_toks [of v] by (auto simp: reads_back_def dest!: spec [of _ PValue] spec [of _ "[]"])

section \<open>Literals survive printing\<close>

lemma lex_string_again: "lex_string s = Some (t, q) \<Longrightarrow> lex_string (t @ CHR 0x22 # r) = Some (t, r)"
proof (induction "length s" arbitrary: s t rule: less_induct)
  case less
  obtain c cs where s: "s = c # cs" using less.prems by (cases s) auto
  from less.prems [unfolded s] show ?case
  proof (cases rule: lex_string_cases)
    case (unicode a b x y u t')
    then show ?thesis using less.hyps [of u t'] s by auto
  next
    case (escape e ds t')
    then show ?thesis using less.hyps [of ds t'] s by auto
  next
    case (plain t')
    then show ?thesis using less.hyps [of cs t'] s by auto
  qed auto
qed

definition num_end :: "string \<Rightarrow> bool" where
  "num_end q \<longleftrightarrow> (case q of [] \<Rightarrow> True | c # _ \<Rightarrow> \<not> is_dig c \<and> c \<notin> set ''.eE'')"

lemma lex_digits_again:
  assumes "lex_digits s = Some (d, q)" "r = [] \<or> \<not> is_dig (hd r)"
  shows "lex_digits (d @ r) = Some (d, r)"
proof -
  have d: "\<forall>c \<in> set d. is_dig c" "d \<noteq> []"
    using assms(1) by (auto simp: lex_digits_def Let_def dest: set_takeWhileD split: if_splits)
  have "takeWhile is_dig (d @ r) = d" "dropWhile is_dig (d @ r) = r"
    using d(1) assms(2) by (cases r; simp add: takeWhile_append2 dropWhile_append2)+
  then show ?thesis using d(2) by (simp add: lex_digits_def)
qed

lemma lex_int_again:
  assumes "lex_int s = Some (d, q)" "r = [] \<or> \<not> is_dig (hd r)"
  shows "lex_int (d @ r) = Some (d, r)"
proof (cases "HasPrefix s ''0''")
  case True
  then show ?thesis using assms by (cases s) (auto simp: lex_int_def HasPrefix_def)
next
  case False
  then have d: "lex_digits s = Some (d, q)" using assms(1) by (simp add: lex_int_def)
  then have "\<not> HasPrefix (d @ r) ''0''"
    using False lex_digits_text [OF d] by (cases d) (auto simp: HasPrefix_def)
  then show ?thesis using lex_digits_again [OF d assms(2)] by (simp add: lex_int_def)
qed

lemma lex_frac_again:
  assumes "lex_frac s = Some (d, q)" "r = [] \<or> \<not> is_dig (hd r) \<and> hd r \<noteq> CHR ''.''"
  shows "lex_frac (d @ r) = Some (d, r)"
proof (cases "HasPrefix s ''.''")
  case True
  then obtain e where e: "lex_digits (drop 1 s) = Some (e, q)" "d = CHR ''.'' # e"
    using assms(1) by (auto simp: lex_frac_def)
  then show ?thesis using lex_digits_again [OF e(1), of r] assms(2) by (auto simp: lex_frac_def HasPrefix_def)
next
  case False
  then show ?thesis using assms by (cases r) (auto simp: lex_frac_def HasPrefix_def)
qed

lemma lex_exp_again:
  assumes "lex_exp s = Some (d, q)" "r = [] \<or> \<not> is_dig (hd r) \<and> hd r \<notin> set ''eE''"
  shows "lex_exp (d @ r) = Some (d, r)"
proof (cases "\<exists>e t. s = e # t \<and> (e = CHR ''e'' \<or> e = CHR ''E'')")
  case True
  then obtain e t where s: "s = e # t" "e = CHR ''e'' \<or> e = CHR ''E''" by blast
  then obtain p t' where t: "t = p # t'" using assms(1) by (cases t) (auto simp: lex_exp_def)
  show ?thesis
  proof (cases "p = CHR ''+'' \<or> p = CHR ''-''")
    case True
    then obtain g where "lex_digits t' = Some (g, q)" "d = e # p # g"
      using assms(1) s t by (auto simp: lex_exp_def)
    then show ?thesis using lex_digits_again [of t' g q r] assms(2) s(2) True by (auto simp: lex_exp_def)
  next
    case False
    then obtain g where g: "lex_digits t = Some (g, q)" "d = e # g"
      using assms(1) s t by (auto simp: lex_exp_def)
    then obtain g' where "g = p # g'" using lex_digits_text [OF g(1)] t by (cases g) auto
    then show ?thesis using lex_digits_again [OF g(1), of r] assms(2) s(2) False g(2) by (auto simp: lex_exp_def)
  qed
next
  case False
  then have "d = []" using assms(1) by (auto simp: lex_exp_def split: list.splits if_splits)
  then show ?thesis using assms(2) by (cases r) (auto simp: lex_exp_def)
qed

lemma lex_int_digit: "lex_int s = Some (d, q) \<Longrightarrow> is_dig (hd d)"
  by (auto simp: lex_int_def lex_digits_def Let_def is_dig_def dest!: set_takeWhileD hd_in_set split: if_splits)

lemma lex_exp_head: "lex_exp s = Some (x, q) \<Longrightarrow> x = [] \<or> hd x \<in> set ''eE''"
  by (auto simp: lex_exp_def split: list.splits if_splits)

lemma lex_frac_head: "lex_frac s = Some (f, q) \<Longrightarrow> f = [] \<or> hd f = CHR ''.''"
  by (auto simp: lex_frac_def split: if_splits)

lemma lex_number_again:
  assumes "lex_number s = Some (t, q)" "num_end r"
  shows "lex_number (t @ r) = Some (t, r)"
proof -
  define sg where "sg = (if HasPrefix s ''-'' then ''-'' else [])"
  obtain i r1 f r2 x where p: "lex_int (drop (length sg) s) = Some (i, r1)" "lex_frac r1 = Some (f, r2)"
    "lex_exp r2 = Some (x, q)" "t = sg @ i @ f @ x"
    using assms(1) by (auto simp: lex_number_def Let_def sg_def split: option.splits if_splits)
  have r: "r = [] \<or> \<not> is_dig (hd r) \<and> hd r \<notin> set ''.eE''" using assms(2) by (cases r) (auto simp: num_end_def)
  have e: "lex_exp (x @ r) = Some (x, r)" using p(3) r by (intro lex_exp_again) auto
  have f: "lex_frac (f @ x @ r) = Some (f, x @ r)"
  proof (rule lex_frac_again [OF p(2)])
    show "x @ r = [] \<or> \<not> is_dig (hd (x @ r)) \<and> hd (x @ r) \<noteq> CHR ''.''"
      using lex_exp_head [OF p(3)] r by (cases x) (auto simp: is_dig_def)
  qed
  have i: "lex_int (i @ f @ x @ r) = Some (i, f @ x @ r)"
  proof (rule lex_int_again [OF p(1)])
    show "f @ x @ r = [] \<or> \<not> is_dig (hd (f @ x @ r))"
      using lex_frac_head [OF p(2)] lex_exp_head [OF p(3)] r by (cases f; cases x) (auto simp: is_dig_def)
  qed
  have "\<not> HasPrefix (i @ f @ x @ r) ''-''"
    using lex_int_digit [OF p(1)] lex_int_text [OF p(1)] by (cases i) (auto simp: HasPrefix_def is_dig_def)
  then show ?thesis using i f e unfolding p(4) sg_def by (auto simp: lex_number_def HasPrefix_def)
qed

section \<open>The text of a value\<close>

fun atom_text :: "json \<Rightarrow> string" where
  "atom_text JNull = ''null''"
| "atom_text (JBool b) = (if b then ''true'' else ''false'')"
| "atom_text (JNum t) = t"
| "atom_text (JStr t) = CHR 0x22 # t @ [CHR 0x22]"
| "atom_text v = []"

fun tok_text :: "tok \<Rightarrow> string" where
  "tok_text (TPunct c) = [c]"
| "tok_text (TVal v) = atom_text v"

definition json_text :: "json \<Rightarrow> string" where
  "json_text v = concat (map tok_text (toks v))"

text \<open>Literals that lex to themselves; the parser produces no others.\<close>

definition str_lit :: "string \<Rightarrow> bool" where
  "str_lit t \<longleftrightarrow> lex_string (t @ [CHR 0x22]) = Some (t, [])"

definition num_lit :: "string \<Rightarrow> bool" where
  "num_lit t \<longleftrightarrow> lex_number t = Some (t, [])"

primrec json_ok :: "json \<Rightarrow> bool" where
  "json_ok JNull = True"
| "json_ok (JBool b) = True"
| "json_ok (JNum t) = num_lit t"
| "json_ok (JStr t) = str_lit t"
| "json_ok (JArr vs) = list_all (\<lambda>b. b) (map json_ok vs)"
| "json_ok (JObj ms) = list_all (\<lambda>(k, b). str_lit k \<and> b) (map (map_prod id json_ok) ms)"

lemma json_ok_containers [simp]:
  "json_ok (JArr vs) \<longleftrightarrow> (\<forall>v \<in> set vs. json_ok v)"
  "json_ok (JObj ms) \<longleftrightarrow> (\<forall>kv \<in> set ms. str_lit (fst kv) \<and> json_ok (snd kv))"
  by (auto simp: list_all_iff)

declare json_ok.simps(5,6) [simp del]

fun tok_ok :: "tok \<Rightarrow> bool" where
  "tok_ok (TPunct c) = json_punct c"
| "tok_ok (TVal v) = (json_ok v \<and> json_depth v = 0)"

lemma str_lit_iff: "lex_string s = Some (t, q) \<Longrightarrow> str_lit t"
  using lex_string_again [of s t q "[]"] by (simp add: str_lit_def)

lemma num_lit_iff: "lex_number s = Some (t, q) \<Longrightarrow> num_lit t"
  using lex_number_again [of s t q "[]"] by (simp add: num_lit_def num_end_def)

lemma lex_token_ok: "lex_token s = Some (t, q) \<Longrightarrow> tok_ok t"
  by (auto simp: lex_token_def lex_word_def str_lit_iff num_lit_iff split: list.splits if_splits)

lemma lex_ok: "json_lex s = Some ts \<Longrightarrow> list_all tok_ok ts"
proof (induction s arbitrary: ts rule: json_lex.induct)
  case (1 s)
  show ?case
  proof (cases s)
    case Nil
    then show ?thesis using 1(3) by (simp add: json_lex.simps)
  next
    case (Cons c cs)
    show ?thesis
    proof (cases "json_ws c")
      case True
      then show ?thesis using 1(1) [OF Cons True] 1(3) Cons by (simp add: json_lex.simps [of "c # cs"])
    next
      case False
      then obtain t q us where "lex_token s = Some (t, q)" "json_lex q = Some us" "ts = t # us"
        using 1(3) Cons by (auto simp: json_lex.simps [of "c # cs"] split: option.splits)
      then show ?thesis using 1(2) [OF Cons False] lex_token_ok by auto
    qed
  qed
qed

fun frame_ok :: "frame \<Rightarrow> bool" where
  "frame_ok (FArr vs) = (\<forall>v \<in> set vs. json_ok v)"
| "frame_ok (FObj ms k) = (str_lit k \<and> (\<forall>kv \<in> set ms. str_lit (fst kv) \<and> json_ok (snd kv)))"

fun mode_ok :: "pmode \<Rightarrow> bool" where
  "mode_ok (PColon k) = str_lit k"
| "mode_ok (PAfter v) = json_ok v"
| "mode_ok m = True"

lemma str_lit_Nil [simp]: "str_lit []"
  by (simp add: str_lit_def)

lemma json_step_ok:
  assumes "json_step t m st = Some (m', st')" "tok_ok t" "mode_ok m" "list_all frame_ok st"
  shows "mode_ok m' \<and> list_all frame_ok st'"
proof -
  have "list_all frame_ok (tl st)" using assms(4) by (cases st) auto
  then show ?thesis
    using assms by (cases m) (auto split: tok.splits json.splits list.splits frame.splits if_splits)
qed

lemma parse_toks_ok:
  "parse_toks ts m st = Some v \<Longrightarrow> list_all tok_ok ts \<Longrightarrow> mode_ok m \<Longrightarrow> list_all frame_ok st \<Longrightarrow> json_ok v"
proof (induction ts arbitrary: m st)
  case Nil
  then show ?case by (auto split: pmode.splits if_splits)
next
  case (Cons t ts)
  then obtain m' st' where "json_step t m st = Some (m', st')" "parse_toks ts m' st' = Some v"
    by (auto split: option.splits)
  then show ?case using Cons.IH Cons.prems json_step_ok by auto
qed

lemma json_parse_ok: "json_parse s = Some v \<Longrightarrow> json_ok v"
  using parse_toks_ok [of _ PValue "[]" v] lex_ok by (auto simp: json_parse_def split: option.splits)

lemma num_lit_head: "num_lit t \<Longrightarrow> \<exists>c cs. t = c # cs \<and> (c = CHR ''-'' \<or> is_dig c)"
proof -
  assume n: "num_lit t"
  then have "t \<noteq> []" using lex_number_text by (auto simp: num_lit_def)
  then obtain c cs where t: "t = c # cs" by (cases t) auto
  have "is_dig c" if m: "c \<noteq> CHR ''-''"
  proof -
    obtain i r where i: "lex_int t = Some (i, r)"
      using n m t by (auto simp: num_lit_def lex_number_def HasPrefix_def split: option.splits)
    then show ?thesis using lex_int_digit [OF i] lex_int_text [OF i] t by (cases i) auto
  qed
  then show ?thesis using t by blast
qed

lemma number_start:
  assumes "c = CHR ''-'' \<or> is_dig c"
  shows "\<not> json_punct c" "\<not> json_ws c" "c \<noteq> CHR 0x22"
  using assms by (auto simp: json_punct_def json_ws_def is_dig_def)

lemma lex_one:
  assumes "tok_ok t" "case t of TPunct _ \<Rightarrow> True | TVal _ \<Rightarrow> num_end r"
  shows "json_lex (tok_text t @ r) = map_option (Cons t) (json_lex r)"
proof -
  have "lex_token (tok_text t @ r) = Some (t, r) \<and> (\<exists>c cs. tok_text t = c # cs \<and> \<not> json_ws c)"
  proof (cases t)
    case (TPunct c)
    then show ?thesis using assms(1) by (auto simp: lex_token_def json_punct_def json_ws_def)
  next
    case (TVal v)
    have w: "lex_word u a (u @ r) = Some (a, r)" for u a by (simp add: lex_word_def HasPrefix_def)
    show ?thesis
    proof (cases v)
      case JNull
      then show ?thesis using TVal w [of "''null''"] by (simp add: lex_token_def json_punct_def json_ws_def is_dig_def)
    next
      case (JBool b)
      then show ?thesis using TVal w [of "''true''"] w [of "''false''"]
        by (simp add: lex_token_def json_punct_def json_ws_def is_dig_def)
    next
      case (JNum u)
      then have n: "num_lit u" using assms(1) TVal by simp
      obtain c cs where u: "u = c # cs" "c = CHR ''-'' \<or> is_dig c" using num_lit_head [OF n] by blast
      have "lex_number (u @ r) = Some (u, r)"
        using n assms(2) TVal lex_number_again by (auto simp: num_lit_def)
      then show ?thesis using TVal JNum u number_start [OF u(2)] by (simp add: lex_token_def)
    next
      case (JStr u)
      then have "lex_string (u @ CHR 0x22 # r) = Some (u, r)"
        using assms(1) TVal lex_string_again by (simp add: str_lit_def)
      then show ?thesis using TVal JStr by (simp add: lex_token_def json_punct_def json_ws_def)
    qed (use assms(1) TVal in auto)
  qed
  then show ?thesis by (auto simp: json_lex.simps [of "_ # _"])
qed

fun sep :: "tok list \<Rightarrow> bool" where
  "sep (TVal v # TVal w # ts) = False"
| "sep (t # ts) = sep ts"
| "sep [] = True"

lemma sep_toks: "sep (toks v @ TPunct c # ts) = sep ts"
proof (induction v arbitrary: c ts rule: json_induct)
  case (JArr vs)
  then have "sep (elem_toks vs @ TPunct d # us) = sep us" for d us
    by (induction vs arbitrary: d us) auto
  then show ?case by simp
next
  case (JObj ms)
  then have "sep (mem_toks ms @ TPunct d # us) = sep us" for d us
  proof (induction ms arbitrary: d us)
    case (Cons kv ms)
    then show ?case using Cons.prems [of kv] by (cases kv) simp
  qed simp
  then show ?case by simp
qed auto

lemma sep_append: "sep (ts @ us) \<Longrightarrow> sep ts"
  by (induction ts rule: sep.induct) auto

lemma sep_all_toks: "sep (toks v)"
  using sep_toks [of v "CHR '',''" "[]"] sep_append [of "toks v"] by simp

lemma toks_ok: "json_ok v \<Longrightarrow> list_all tok_ok (toks v)"
proof (induction v rule: json_induct)
  case (JArr vs)
  then have "list_all tok_ok (elem_toks vs)" by (induction vs) (auto simp: json_punct_def)
  then show ?case by (simp add: json_punct_def)
next
  case (JObj ms)
  then have "list_all tok_ok (mem_toks ms)"
  proof (induction ms)
    case (Cons kv ms)
    then show ?case using Cons.prems(1) [of kv] by (cases kv) (simp add: json_punct_def)
  qed simp
  then show ?case by (simp add: json_punct_def)
qed auto

lemma lex_toks:
  "list_all tok_ok ts \<Longrightarrow> sep ts \<Longrightarrow> json_lex (concat (map tok_text ts)) = Some ts"
proof (induction ts)
  case Nil
  then show ?case by (simp add: json_lex.simps)
next
  case (Cons t ts)
  have s: "sep ts" using Cons.prems(2) by (cases t; cases ts; cases "hd ts") auto
  have "case t of TPunct _ \<Rightarrow> True | TVal _ \<Rightarrow> num_end (concat (map tok_text ts))"
  proof (cases t)
    case (TVal v)
    show ?thesis
    proof (cases ts)
      case (Cons u us)
      then obtain c where "u = TPunct c" using Cons.prems(2) TVal by (cases u) auto
      then show ?thesis using Cons.prems(1) Cons TVal by (auto simp: num_end_def json_punct_def is_dig_def)
    qed (simp add: TVal num_end_def)
  qed simp
  from lex_one [OF _ this] show ?case using Cons s by simp
qed

theorem json_parse_text:
  assumes "json_ok v" "json_depth v \<le> maxNestingDepth"
  shows "json_parse (json_text v) = Some v"
proof -
  show ?thesis
    using sep_all_toks lex_toks [OF toks_ok [OF assms(1)]] parse_toks_print [OF assms(2)]
    by (simp add: json_parse_def json_text_def)
qed

section \<open>The nesting limit\<close>

lemma depth_le:
  "(\<And>v. v \<in> set vs \<Longrightarrow> json_depth v \<le> k) \<Longrightarrow> json_depth (JArr vs) \<le> Suc k"
  "(\<And>kv. kv \<in> set ms \<Longrightarrow> json_depth (snd kv) \<le> k) \<Longrightarrow> json_depth (JObj ms) \<le> Suc k"
proof -
  have f: "\<forall>x \<in> set xs. x \<le> k \<Longrightarrow> a \<le> k \<Longrightarrow> fold max xs (a::nat) \<le> k" for xs a
    by (induction xs arbitrary: a) simp_all
  show "(\<And>v. v \<in> set vs \<Longrightarrow> json_depth v \<le> k) \<Longrightarrow> json_depth (JArr vs) \<le> Suc k"
    using f [of "map json_depth vs" 0] by simp
  show "(\<And>kv. kv \<in> set ms \<Longrightarrow> json_depth (snd kv) \<le> k) \<Longrightarrow> json_depth (JObj ms) \<le> Suc k"
    using f [of "map snd (map (map_prod id json_depth) ms)" 0] by fastforce
qed

primrec frame_depth :: "nat \<Rightarrow> frame \<Rightarrow> bool" where
  "frame_depth h (FArr vs) = (\<forall>v \<in> set vs. json_depth v + h \<le> maxNestingDepth)"
| "frame_depth h (FObj ms k) = (\<forall>kv \<in> set ms. json_depth (snd kv) + h \<le> maxNestingDepth)"

primrec stack_depth :: "frame list \<Rightarrow> bool" where
  "stack_depth [] = True"
| "stack_depth (f # st) = (frame_depth (Suc (length st)) f \<and> length st < maxNestingDepth \<and> stack_depth st)"

lemma stack_depth_bound: "stack_depth st \<Longrightarrow> length st \<le> maxNestingDepth \<and> stack_depth (tl st)"
  by (cases st) auto

primrec mode_depth :: "nat \<Rightarrow> pmode \<Rightarrow> bool" where
  "mode_depth h PValue = True"
| "mode_depth h PFirst = (0 < h)"
| "mode_depth h PKeyFirst = (0 < h)"
| "mode_depth h PKey = True"
| "mode_depth h (PColon k) = True"
| "mode_depth h (PAfter v) = (json_depth v + h \<le> maxNestingDepth)"

lemma json_step_depth:
  assumes "json_step t m st = Some (m', st')" "tok_ok t" "mode_depth (length st) m" "stack_depth st"
  shows "mode_depth (length st') m' \<and> stack_depth st'"
proof (cases m)
  case (PAfter v)
  show ?thesis
  proof (cases st)
    case (Cons f fs)
    have len: "length fs < maxNestingDepth" using assms(4) Cons by simp
    have close: "json_depth (JArr vs) + length fs \<le> maxNestingDepth"
      if "\<forall>v \<in> set vs. json_depth v + Suc (length fs) \<le> maxNestingDepth" for vs
      using depth_le(1) [of vs "maxNestingDepth - Suc (length fs)"] that len by fastforce
    have closeo: "json_depth (JObj ms) + length fs \<le> maxNestingDepth"
      if "\<forall>kv \<in> set ms. json_depth (snd kv) + Suc (length fs) \<le> maxNestingDepth" for ms
      using depth_le(2) [of ms "maxNestingDepth - Suc (length fs)"] that len by fastforce
    show ?thesis
    proof (cases f)
      case (FArr vs)
      then show ?thesis using assms PAfter Cons close [of "rev (v # vs)"]
        by (auto split: if_splits simp del: json_depth.simps)
    next
      case (FObj ms k)
      then show ?thesis using assms PAfter Cons closeo [of "rev ((k, v) # ms)"]
        by (auto split: if_splits simp del: json_depth.simps)
    qed
  qed (use assms PAfter in auto)
qed (use assms stack_depth_bound [of st] in \<open>auto split: tok.splits json.splits list.splits frame.splits if_splits\<close>)

lemma json_parse_depth: "json_parse s = Some v \<Longrightarrow> json_depth v \<le> maxNestingDepth"
proof -
  have "parse_toks ts m st = Some v \<Longrightarrow> list_all tok_ok ts \<Longrightarrow> mode_depth (length st) m \<Longrightarrow> stack_depth st
    \<Longrightarrow> json_depth v \<le> maxNestingDepth" for ts m st
  proof (induction ts arbitrary: m st)
    case Nil
    then show ?case by (auto split: pmode.splits if_splits)
  next
    case (Cons t ts)
    then obtain m' st' where "json_step t m st = Some (m', st')" "parse_toks ts m' st' = Some v"
      by (auto split: option.splits)
    then show ?case using Cons.IH Cons.prems json_step_depth by auto
  qed
  then show "json_parse s = Some v \<Longrightarrow> json_depth v \<le> maxNestingDepth"
    using lex_ok by (fastforce simp: json_parse_def split: option.splits)
qed

end
