(* ===== verification/Go_Json_Strings.thy ===== *)
theory Go_Json_Strings
  imports Go_Json
begin

text \<open>
  String literals of \<open>encoding/json\<close>: what \<open>Unmarshal\<close> decodes a literal to
  (escapes, surrogate pairs, ill-formed UTF-8 replaced), the literal
  \<open>Marshal\<close> prints for a string, and the escaping of a raw message that is
  printed again.  The decoded text is the same either way.
\<close>

section \<open>UTF-8\<close>

abbreviation ord :: "char \<Rightarrow> nat" where "ord c \<equiv> of_char c"

definition is_cont :: "char \<Rightarrow> bool" where
  "is_cont c \<longleftrightarrow> 0x80 \<le> ord c \<and> ord c \<le> 0xBF"

text \<open>The number of continuation bytes a first byte asks for, and the narrower range
  some first bytes leave to the second.\<close>

definition utf8_lead :: "char \<Rightarrow> nat option" where
  "utf8_lead a = (let n = ord a in
     if n < 0x80 then Some 0
     else if 0xC2 \<le> n \<and> n \<le> 0xDF then Some 1
     else if 0xE0 \<le> n \<and> n \<le> 0xEF then Some 2
     else if 0xF0 \<le> n \<and> n \<le> 0xF4 then Some 3 else None)"

definition second_ok :: "char \<Rightarrow> char \<Rightarrow> bool" where
  "second_ok a b \<longleftrightarrow> (ord a = 0xE0 \<longrightarrow> 0xA0 \<le> ord b) \<and> (ord a = 0xED \<longrightarrow> ord b \<le> 0x9F)
     \<and> (ord a = 0xF0 \<longrightarrow> 0x90 \<le> ord b) \<and> (ord a = 0xF4 \<longrightarrow> ord b \<le> 0x8F)"

text \<open>The length of the well-formed rune a string starts with, 0 if there is none.\<close>

definition utf8_len :: "string \<Rightarrow> nat" where
  "utf8_len s = (case s of
     [] \<Rightarrow> 0
   | a # r \<Rightarrow>
       (case utf8_lead a of
          None \<Rightarrow> 0
        | Some k \<Rightarrow> if k \<le> length r \<and> list_all is_cont (take k r) \<and> (k = 0 \<or> second_ok a (hd r))
                    then Suc k else 0))"

definition RuneError :: string where "RuneError = [CHR 0xEF, CHR 0xBF, CHR 0xBD]"

definition utf8_encode :: "nat \<Rightarrow> string" where
  "utf8_encode n =
     (if n < 0x80 then [char_of n]
      else if n < 0x800 then [char_of (0xC0 + n div 64), char_of (0x80 + n mod 64)]
      else if n < 0x10000
      then [char_of (0xE0 + n div 4096), char_of (0x80 + n div 64 mod 64), char_of (0x80 + n mod 64)]
      else [char_of (0xF0 + n div 262144), char_of (0x80 + n div 4096 mod 64),
            char_of (0x80 + n div 64 mod 64), char_of (0x80 + n mod 64)])"

text \<open>A string with every ill-formed byte replaced.\<close>

function utf8_coerce :: "string \<Rightarrow> string" where
  "utf8_coerce s =
     (if s = [] then []
      else let n = utf8_len s
           in if n = 0 then RuneError @ utf8_coerce (tl s) else take n s @ utf8_coerce (drop n s))"
  by pat_completeness auto
termination by (relation "measure length") auto

declare utf8_coerce.simps [simp del]

section \<open>Decoding a literal\<close>

definition hex4 :: "string \<Rightarrow> nat" where
  "hex4 h = foldl (\<lambda>a c. 16 * a + (case hex_digit c of Some d \<Rightarrow> d | None \<Rightarrow> 0)) 0 h"

text \<open>\<open>getu4\<close>: the code of a \<open>\\uXXXX\<close> the string starts with.\<close>

definition getu4 :: "string \<Rightarrow> nat option" where
  "getu4 s = (case s of
     a # b # p # q # x # y # _ \<Rightarrow>
       if a = CHR 0x5C \<and> b = CHR ''u'' \<and> list_all (\<lambda>h. hex_digit h \<noteq> None) [p, q, x, y]
       then Some (hex4 [p, q, x, y]) else None
   | _ \<Rightarrow> None)"

definition is_surrogate :: "nat \<Rightarrow> bool" where
  "is_surrogate n \<longleftrightarrow> 0xD800 \<le> n \<and> n \<le> 0xDFFF"

definition utf16_pair :: "nat \<Rightarrow> nat \<Rightarrow> nat option" where
  "utf16_pair a b = (if 0xD800 \<le> a \<and> a < 0xDC00 \<and> 0xDC00 \<le> b \<and> b \<le> 0xDFFF
     then Some ((a - 0xD800) * 1024 + (b - 0xDC00) + 0x10000) else None)"

text \<open>The decoded text of the next element of a literal, and its length in the literal.\<close>

definition unquote_elem :: "string \<Rightarrow> string \<times> nat" where
  "unquote_elem s = (case s of
     [] \<Rightarrow> ([], 0)
   | c # cs \<Rightarrow>
       if c = CHR 0x5C then
         (case getu4 s of
            Some r \<Rightarrow>
              if is_surrogate r then
                (case getu4 (drop 6 s) of
                   Some r' \<Rightarrow> (case utf16_pair r r' of Some p \<Rightarrow> (utf8_encode p, 12) | None \<Rightarrow> (RuneError, 6))
                 | None \<Rightarrow> (RuneError, 6))
              else (utf8_encode r, 6)
          | None \<Rightarrow>
              (case cs of
                 e # _ \<Rightarrow> (case simple_escape e of Some x \<Rightarrow> ([x], 2) | None \<Rightarrow> ([], 2))
               | [] \<Rightarrow> ([], 1)))
       else let n = utf8_len s in if n = 0 then (RuneError, 1) else (take n s, n))"

lemma unquote_elem_pos: "s \<noteq> [] \<Longrightarrow> 0 < snd (unquote_elem s)"
  by (auto simp: unquote_elem_def Let_def split: list.splits option.splits)

function unquote :: "string \<Rightarrow> string" where
  "unquote s = (if s = [] then [] else case unquote_elem s of (t, n) \<Rightarrow> t @ unquote (drop n s))"
  by pat_completeness auto
termination
proof (relation "measure length", simp_all)
  fix s t n assume "s \<noteq> []" "(t, n) = unquote_elem s"
  then show "length s - n < length s" using unquote_elem_pos [of s] by (cases s) (metis diff_less length_greater_0_conv list.distinct(1) snd_conv)+
qed

declare unquote.simps [simp del]

section \<open>Printing\<close>

definition hex_char :: "nat \<Rightarrow> char" where
  "hex_char n = (if n < 10 then char_of (48 + n) else char_of (87 + n))"

definition u00 :: "char \<Rightarrow> string" where
  "u00 c = [CHR 0x5C, CHR ''u'', CHR ''0'', CHR ''0'', hex_char (ord c div 16), hex_char (ord c mod 16)]"

definition u202 :: "char \<Rightarrow> string" where
  "u202 d = [CHR 0x5C, CHR ''u'', CHR ''2'', CHR ''0'', CHR ''2'', hex_char (ord d mod 16)]"

definition html_char :: "char \<Rightarrow> bool" where
  "html_char c \<longleftrightarrow> c = CHR ''<'' \<or> c = CHR ''>'' \<or> c = CHR ''&''"

text \<open>U+2028 and U+2029.\<close>

definition line_sep :: "string \<Rightarrow> bool" where
  "line_sep s \<longleftrightarrow> (case s of a # b # d # _ \<Rightarrow> a = CHR 0xE2 \<and> b = CHR 0x80 \<and> (d = CHR 0xA8 \<or> d = CHR 0xA9) | _ \<Rightarrow> False)"

text \<open>The literal of a raw message, as \<open>compact\<close> prints it with HTML escaping.\<close>

function html_escape :: "string \<Rightarrow> string" where
  "html_escape s = (case s of
     [] \<Rightarrow> []
   | c # cs \<Rightarrow>
       if html_char c then u00 c @ html_escape cs
       else if line_sep s then u202 (s ! 2) @ html_escape (drop 3 s)
       else c # html_escape cs)"
  by pat_completeness auto
termination by (relation "measure length") auto

declare html_escape.simps [simp del]

text \<open>The literal of a Go string, \<open>appendString\<close>.\<close>

definition quote_elem :: "string \<Rightarrow> string \<times> nat" where
  "quote_elem s = (case s of
     [] \<Rightarrow> ([], 0)
   | c # cs \<Rightarrow>
       if ord c < 0x80 then
         (if c = CHR 0x22 \<or> c = CHR 0x5C then ([CHR 0x5C, c], 1)
          else case map_of [(CHR 0x08, CHR ''b''), (CHR 0x0C, CHR ''f''), (CHR 0x0A, CHR ''n''),
                            (CHR 0x0D, CHR ''r''), (CHR 0x09, CHR ''t'')] c of
                 Some e \<Rightarrow> ([CHR 0x5C, e], 1)
               | None \<Rightarrow> if ord c < 32 \<or> html_char c then (u00 c, 1) else ([c], 1))
       else if utf8_len s = 0
       then ([CHR 0x5C, CHR ''u'', CHR ''f'', CHR ''f'', CHR ''f'', CHR ''d''], 1)
       else if line_sep s then (u202 (s ! 2), 3)
       else (take (utf8_len s) s, utf8_len s))"

lemma quote_elem_pos: "s \<noteq> [] \<Longrightarrow> 0 < snd (quote_elem s)"
  by (auto simp: quote_elem_def Let_def split: list.splits option.splits)

function quote_string :: "string \<Rightarrow> string" where
  "quote_string s = (if s = [] then [] else case quote_elem s of (t, n) \<Rightarrow> t @ quote_string (drop n s))"
  by pat_completeness auto
termination
proof (relation "measure length", simp_all)
  fix s t n assume "s \<noteq> []" "(t, n) = quote_elem s"
  then show "length s - n < length s" using quote_elem_pos [of s] by (cases s) (metis diff_less length_greater_0_conv list.distinct(1) snd_conv)+
qed

declare quote_string.simps [simp del]

section \<open>Literals element by element\<close>

lemma str_lit_plain: "c \<noteq> CHR 0x22 \<Longrightarrow> c \<noteq> CHR 0x5C \<Longrightarrow> 32 \<le> ord c \<Longrightarrow> str_lit (c # t) \<longleftrightarrow> str_lit t"
  by (auto simp: str_lit_def split: option.splits)

lemma str_lit_high: "0x80 \<le> ord c \<Longrightarrow> str_lit (c # t) \<longleftrightarrow> str_lit t"
  by (rule str_lit_plain) auto

lemma str_lit_escape: "simple_escape e \<noteq> None \<Longrightarrow> e \<noteq> CHR ''u'' \<Longrightarrow> str_lit (CHR 0x5C # e # t) \<longleftrightarrow> str_lit t"
  by (auto simp: str_lit_def)

lemma str_lit_unicode:
  "list_all (\<lambda>h. hex_digit h \<noteq> None) [a, b, x, y] \<Longrightarrow>
     str_lit (CHR 0x5C # CHR ''u'' # a # b # x # y # t) \<longleftrightarrow> str_lit t"
  by (auto simp: str_lit_def)

lemma str_lit_cases:
  assumes "str_lit (c # cs)"
  obtains (unicode) a b x y t where "c = CHR 0x5C" "cs = CHR ''u'' # a # b # x # y # t"
      "list_all (\<lambda>h. hex_digit h \<noteq> None) [a, b, x, y]" "str_lit t"
  | (escape) e t where "c = CHR 0x5C" "cs = e # t" "e \<noteq> CHR ''u''" "simple_escape e \<noteq> None" "str_lit t"
  | (plain) "c \<noteq> CHR 0x22" "c \<noteq> CHR 0x5C" "32 \<le> ord c" "str_lit cs"
proof -
  from assms have "lex_string (c # cs @ [CHR 0x22]) = Some (c # cs, [])" by (simp add: str_lit_def)
  then show ?thesis
  proof (cases rule: lex_string_cases)
    case (unicode a b x y r t')
    then show ?thesis
      using that(1) [of a b x y t'] str_lit_iff [of r t'] by auto
  next
    case (escape e ds t')
    then show ?thesis using that(2) [of e t'] str_lit_iff [of ds t'] by auto
  next
    case (plain t')
    then show ?thesis using that(3) by (auto simp: str_lit_def)
  qed auto
qed

lemma hex_digit_char [simp]: "n < 16 \<Longrightarrow> hex_digit (hex_char n) = Some n"
  by (auto simp: hex_digit_def hex_char_def of_char_of Let_def)

lemma u00_unicode:
  "u00 c = CHR 0x5C # CHR ''u'' # [CHR ''0'', CHR ''0'', hex_char (ord c div 16), hex_char (ord c mod 16)]"
  by (simp add: u00_def)

lemma getu4_u00: "getu4 (u00 c @ r) = Some (ord c)"
proof -
  have "ord c div 16 < 16" using nat_of_char_less_256 [of c] by linarith
  then have "hex_digit (hex_char (ord c div 16)) = Some (ord c div 16)" by simp
  then show ?thesis by (simp add: getu4_def u00_def hex4_def hex_digit_def [of "CHR ''0''"])
qed

lemma getu4_u202: "d = CHR 0xA8 \<or> d = CHR 0xA9 \<Longrightarrow> getu4 (u202 d @ r) = Some (0x2020 + ord d mod 16)"
  by (auto simp: getu4_def u202_def hex4_def hex_digit_def [of "CHR ''0''"] hex_digit_def [of "CHR ''2''"])

lemma unquote_Nil [simp]: "unquote [] = []" by (simp add: unquote.simps)

lemma unquote_step: "s \<noteq> [] \<Longrightarrow> unquote_elem s = (t, n) \<Longrightarrow> unquote s = t @ unquote (drop n s)"
  by (simp add: unquote.simps [of s])

lemma unquote_unicode:
  assumes "getu4 s = Some r" "\<not> is_surrogate r"
  shows "unquote s = utf8_encode r @ unquote (drop 6 s)"
proof -
  obtain cs where "s = CHR 0x5C # cs" using assms(1) by (auto simp: getu4_def split: list.splits if_splits)
  then show ?thesis using assms by (intro unquote_step) (auto simp: unquote_elem_def)
qed

lemma unquote_u00: "ord c < 0x80 \<Longrightarrow> unquote (u00 c @ r) = c # unquote r"
  using unquote_unicode [OF getu4_u00, of c r] by (simp add: is_surrogate_def utf8_encode_def u00_def)

lemma unquote_u202:
  assumes "d = CHR 0xA8 \<or> d = CHR 0xA9"
  shows "unquote (u202 d @ r) = CHR 0xE2 # CHR 0x80 # d # unquote r"
proof -
  have "unquote (u202 d @ r) = utf8_encode (0x2020 + ord d mod 16) @ unquote r"
    using unquote_unicode [OF getu4_u202 [OF assms], of r] assms
    by (auto simp: is_surrogate_def u202_def)
  moreover have "utf8_encode (0x2020 + ord d mod 16) = [CHR 0xE2, CHR 0x80, d]"
    using assms by (auto simp: utf8_encode_def char_of_def bit_0)
  ultimately show ?thesis by simp
qed

lemma unquote_simple:
  "simple_escape e = Some x \<Longrightarrow> e \<noteq> CHR ''u'' \<Longrightarrow> unquote (CHR 0x5C # e # r) = x # unquote r"
  by (subst unquote_step [of _ "[x]" 2]) (auto simp: unquote_elem_def getu4_def split: list.splits)

lemma unquote_bytes:
  assumes "c \<noteq> CHR 0x5C"
  shows "unquote (c # cs) = (let n = utf8_len (c # cs) in
           if n = 0 then RuneError @ unquote cs else take n (c # cs) @ unquote (drop n (c # cs)))"
  using assms by (subst unquote.simps) (auto simp: unquote_elem_def Let_def)

lemma unquote_ascii: "c \<noteq> CHR 0x5C \<Longrightarrow> ord c < 0x80 \<Longrightarrow> unquote (c # cs) = c # unquote cs"
  by (simp add: unquote_bytes utf8_len_def utf8_lead_def)

section \<open>Escaping a raw literal\<close>

lemma html_escape_Nil [simp]: "html_escape [] = []" by (simp add: html_escape.simps)

lemma html_escape_keep:
  "\<not> html_char c \<Longrightarrow> c \<noteq> CHR 0xE2 \<Longrightarrow> html_escape (c # cs) = c # html_escape cs"
  by (simp add: html_escape.simps [of "c # cs"] line_sep_def split: list.splits)

lemma html_escape_html: "html_char c \<Longrightarrow> html_escape (c # cs) = u00 c @ html_escape cs"
  by (simp add: html_escape.simps [of "c # cs"])

lemma line_sepE:
  assumes "line_sep s" obtains d r where "s = CHR 0xE2 # CHR 0x80 # d # r" "d = CHR 0xA8 \<or> d = CHR 0xA9"
  using assms by (auto simp: line_sep_def split: list.splits)

lemma html_escape_sep:
  "d = CHR 0xA8 \<or> d = CHR 0xA9 \<Longrightarrow>
     html_escape (CHR 0xE2 # CHR 0x80 # d # r) = u202 d @ html_escape r"
  by (simp add: html_escape.simps [of "CHR 0xE2 # _"] line_sep_def html_char_def)

lemma html_escape_plain:
  "\<not> html_char c \<Longrightarrow> \<not> line_sep (c # cs) \<Longrightarrow> html_escape (c # cs) = c # html_escape cs"
  by (simp add: html_escape.simps [of "c # cs"])

lemma hex_plain: "hex_digit h \<noteq> None \<Longrightarrow> \<not> html_char h \<and> h \<noteq> CHR 0xE2"
  by (auto simp: hex_digit_def html_char_def Let_def)

lemma html_escape_unicode:
  "list_all (\<lambda>h. hex_digit h \<noteq> None) [a, b, x, y] \<Longrightarrow>
     html_escape (CHR 0x5C # CHR ''u'' # a # b # x # y # t) = CHR 0x5C # CHR ''u'' # a # b # x # y # html_escape t"
  using hex_plain by (simp add: html_escape_keep html_char_def)

lemma escape_plain: "simple_escape e \<noteq> None \<Longrightarrow> \<not> html_char e \<and> e \<noteq> CHR 0xE2"
  by (auto simp: simple_escape_def html_char_def split: if_splits)

lemma html_escape_escape:
  "simple_escape e \<noteq> None \<Longrightarrow> html_escape (CHR 0x5C # e # t) = CHR 0x5C # e # html_escape t"
  using escape_plain [of e] by (simp add: html_escape_keep html_char_def)

lemma str_lit_u00: "str_lit (u00 c @ t) \<longleftrightarrow> str_lit t"
proof -
  have "ord c div 16 < 16" using nat_of_char_less_256 [of c] by linarith
  then show ?thesis unfolding u00_def
    by (simp add: str_lit_unicode hex_digit_def [of "CHR ''0''"])
qed

lemma str_lit_u202: "str_lit (u202 d @ t) \<longleftrightarrow> str_lit t"
  unfolding u202_def by (simp add: str_lit_unicode hex_digit_def [of "CHR ''0''"] hex_digit_def [of "CHR ''2''"])

lemma is_cont_plain: "is_cont b \<Longrightarrow> \<not> html_char b \<and> b \<noteq> CHR 0xE2 \<and> b \<noteq> CHR 0x22 \<and> b \<noteq> CHR 0x5C \<and> 32 \<le> ord b"
  by (auto simp: is_cont_def html_char_def)

lemma str_lit_html_escape: "str_lit t \<Longrightarrow> str_lit (html_escape t)"
proof (induction "length t" arbitrary: t rule: less_induct)
  case less
  show ?case
  proof (cases t)
    case (Cons c cs)
    from less.prems [unfolded Cons] show ?thesis
    proof (cases rule: str_lit_cases)
      case (unicode a b x y u)
      then show ?thesis using less.hyps [of u] Cons by (simp add: html_escape_unicode str_lit_unicode)
    next
      case (escape e u)
      then show ?thesis using less.hyps [of u] Cons by (simp add: html_escape_escape str_lit_escape)
    next
      case plain
      consider "html_char c" | "line_sep t" | "\<not> html_char c" "\<not> line_sep t" by blast
      then show ?thesis
      proof cases
        case 1
        then show ?thesis using less.hyps [of cs] Cons plain by (simp add: html_escape_html str_lit_u00)
      next
        case 2
        then obtain d r where d: "t = CHR 0xE2 # CHR 0x80 # d # r" "d = CHR 0xA8 \<or> d = CHR 0xA9" by (rule line_sepE)
        then have "str_lit r" using less.prems by (auto simp: str_lit_plain)
        then show ?thesis using less.hyps [of r] d by (simp add: html_escape_sep str_lit_u202)
      next
        case 3
        then show ?thesis using less.hyps [of cs] Cons plain by (simp add: html_escape_plain str_lit_plain)
      qed
    qed
  qed simp
qed

lemma html_escape_cont:
  "is_cont b \<Longrightarrow> html_escape (b # r) = b # html_escape r"
  using is_cont_plain by (simp add: html_escape_keep)

lemma html_escape_not_cont:
  assumes "\<not> is_cont b" shows "\<exists>h hs. html_escape (b # r) = h # hs \<and> \<not> is_cont h"
proof -
  have "\<not> is_cont (CHR 0x5C)" by (simp add: is_cont_def)
  then show ?thesis using assms
    by (auto simp: html_escape.simps [of "b # r"] u00_def u202_def)
qed

text \<open>The bytes of a rune are the same after escaping, and so is where it ends.\<close>

lemma html_escape_conts:
  "list_all is_cont (take k r) \<Longrightarrow> k \<le> length r \<Longrightarrow> html_escape r = take k r @ html_escape (drop k r)"
proof (induction k arbitrary: r)
  case (Suc k)
  then obtain b q where "r = b # q" by (cases r) auto
  then show ?case using Suc by (simp add: html_escape_cont)
qed simp

lemma html_escape_conts_back:
  "list_all is_cont (take k (html_escape r)) \<Longrightarrow> k \<le> length (html_escape r)
     \<Longrightarrow> list_all is_cont (take k r) \<and> k \<le> length r"
proof (induction k arbitrary: r)
  case (Suc k)
  then obtain b q where r: "r = b # q" by (cases r) auto
  have "is_cont b"
  proof (rule ccontr)
    assume "\<not> is_cont b"
    then obtain h hs where "html_escape (b # q) = h # hs" "\<not> is_cont h" using html_escape_not_cont by blast
    then show False using Suc.prems r by simp
  qed
  then show ?case using Suc r by (simp add: html_escape_cont)
qed simp

lemma utf8_len_html:
  assumes "n = utf8_len (c # cs)"
  shows "utf8_len (c # html_escape cs) = n \<and> take n (c # html_escape cs) = take n (c # cs)
    \<and> (0 < n \<longrightarrow> drop n (c # html_escape cs) = html_escape (drop n (c # cs)))"
proof (cases "utf8_lead c")
  case None
  then show ?thesis using assms by (simp add: utf8_len_def)
next
  case (Some k)
  show ?thesis
  proof (cases "list_all is_cont (take k cs) \<and> k \<le> length cs")
    case True
    then have h: "html_escape cs = take k cs @ html_escape (drop k cs)" by (simp add: html_escape_conts)
    then have "k = 0 \<or> hd (html_escape cs) = hd cs" using True by (cases cs; cases k) auto
    moreover have "take k (html_escape cs) = take k cs" "drop k (html_escape cs) = html_escape (drop k cs)"
      "k \<le> length (html_escape cs)"
      using h True by (metis append_eq_conv_conj length_take min_absorb2, metis append_eq_conv_conj length_take min_absorb2, simp)
    ultimately show ?thesis using assms Some True by (auto simp: utf8_len_def)
  next
    case False
    then have "\<not> (list_all is_cont (take k (html_escape cs)) \<and> k \<le> length (html_escape cs))"
      using html_escape_conts_back by blast
    then show ?thesis using assms Some False by (auto simp: utf8_len_def)
  qed
qed

text \<open>A second half of a surrogate pair is neither made nor lost by escaping.\<close>

definition partner :: "nat \<Rightarrow> string \<Rightarrow> nat option" where
  "partner r s = (case getu4 s of Some r' \<Rightarrow> utf16_pair r r' | None \<Rightarrow> None)"

lemma partner_html: 
  assumes "str_lit s" shows "partner r (html_escape s) = partner r s"
proof (cases s)
  case (Cons c cs)
  from assms [unfolded Cons] show ?thesis
  proof (cases rule: str_lit_cases)
    case (unicode a b x y t)
    then show ?thesis unfolding Cons unicode(1,2) html_escape_unicode [OF unicode(3)]
      by (simp add: partner_def getu4_def)
  next
    case (escape e t)
    then have "getu4 (CHR 0x5C # e # u) = None" for u by (auto simp: getu4_def split: list.splits)
    then show ?thesis using escape Cons by (simp add: partner_def html_escape_escape)
  next
    case plain
    then have n: "getu4 (c # u) = None" for u by (auto simp: getu4_def split: list.splits)
    consider "html_char c" | "line_sep s" | "\<not> html_char c" "\<not> line_sep s" by blast
    then show ?thesis
    proof cases
      case 1
      then have "ord c < 0x80" by (auto simp: html_char_def)
      then have "utf16_pair r (ord c) = None" by (simp add: utf16_pair_def)
      then show ?thesis using 1 n Cons by (simp add: partner_def html_escape_html getu4_u00)
    next
      case 2
      then obtain d u where d: "s = CHR 0xE2 # CHR 0x80 # d # u" "d = CHR 0xA8 \<or> d = CHR 0xA9" by (rule line_sepE)
      have "utf16_pair r (0x2020 + ord d mod 16) = None" using d(2) by (auto simp: utf16_pair_def)
      then show ?thesis using d n Cons by (simp add: partner_def html_escape_sep getu4_u202)
    next
      case 3
      then show ?thesis using n Cons by (simp add: partner_def html_escape_plain)
    qed
  qed
qed simp

lemma str_lit_rune:
  assumes "str_lit (c # cs)" "c \<noteq> CHR 0x5C" shows "str_lit (drop (utf8_len (c # cs)) (c # cs))"
proof -
  have conts: "list_all is_cont (take k r) \<Longrightarrow> str_lit r \<Longrightarrow> str_lit (drop k r)" for k r
  proof (induction k arbitrary: r)
    case (Suc k)
    then show ?case using is_cont_plain by (cases r) (auto simp: str_lit_plain)
  qed simp
  have "str_lit cs" using assms by (auto elim: str_lit_cases)
  then show ?thesis using assms(1) conts by (auto simp: utf8_len_def split: option.splits)
qed

lemma unquote_unicode_elem:
  assumes "list_all (\<lambda>h. hex_digit h \<noteq> None) [a, b, x, y]"
  defines "r \<equiv> hex4 [a, b, x, y]"
  shows "unquote (CHR 0x5C # CHR ''u'' # a # b # x # y # t) =
    (if is_surrogate r
     then (case partner r t of Some p \<Rightarrow> utf8_encode p @ unquote (drop 6 t) | None \<Rightarrow> RuneError @ unquote t)
     else utf8_encode r @ unquote t)"
proof -
  have g: "getu4 (CHR 0x5C # CHR ''u'' # a # b # x # y # t) = Some r"
    using assms by (simp add: getu4_def)
  show ?thesis
    by (subst unquote.simps) (auto simp: unquote_elem_def g partner_def split: option.splits)
qed

text \<open>Printing a raw message escapes characters of its literals and never changes what they denote.\<close>

theorem unquote_html_escape: "str_lit t \<Longrightarrow> unquote (html_escape t) = unquote t"
proof (induction "length t" arbitrary: t rule: less_induct)
  case less
  show ?case
  proof (cases t)
    case (Cons c cs)
    from less.prems [unfolded Cons] show ?thesis
    proof (cases rule: str_lit_cases)
      case (unicode a b x y u)
      have IH: "unquote (html_escape u) = unquote u" using less.hyps [of u] unicode Cons by simp
      have "unquote (drop 6 (html_escape u)) = unquote (drop 6 u)" if "partner r u = Some p" for r p
      proof -
        obtain a' b' x' y' v where v: "u = CHR 0x5C # CHR ''u'' # a' # b' # x' # y' # v"
          "list_all (\<lambda>h. hex_digit h \<noteq> None) [a', b', x', y']"
          using \<open>partner r u = Some p\<close> by (auto simp: partner_def getu4_def split: option.splits list.splits if_splits)
        then have "str_lit v" using unicode(4) by (simp add: str_lit_unicode)
        then show ?thesis
          using less.hyps [of v] unicode Cons v by (simp add: html_escape_unicode [OF v(2)])
      qed
      then show ?thesis
        unfolding Cons unicode(1,2) html_escape_unicode [OF unicode(3)] unquote_unicode_elem [OF unicode(3)]
          partner_html [OF unicode(4)]
        using IH by (auto split: option.splits)
    next
      case (escape e u)
      then show ?thesis using less.hyps [of u] Cons by (auto simp: html_escape_escape unquote_simple)
    next
      case plain
      consider "html_char c" | "line_sep t" | "\<not> html_char c" "\<not> line_sep t" by blast
      then show ?thesis
      proof cases
        case 1
        then have "ord c < 0x80" by (auto simp: html_char_def)
        then show ?thesis using less.hyps [of cs] 1 Cons plain
          by (simp add: html_escape_html unquote_u00 unquote_ascii)
      next
        case 2
        then obtain d r where d: "t = CHR 0xE2 # CHR 0x80 # d # r" "d = CHR 0xA8 \<or> d = CHR 0xA9" by (rule line_sepE)
        have "utf8_len t = 3" using d by (auto simp: utf8_len_def utf8_lead_def is_cont_def second_ok_def)
        then have "unquote t = CHR 0xE2 # CHR 0x80 # d # unquote r" using d by (simp add: unquote_bytes)
        moreover have "str_lit r" using less.prems d by (auto simp: str_lit_plain)
        ultimately show ?thesis using less.hyps [of r] d by (simp add: html_escape_sep unquote_u202)
      next
        case 3
        define n where "n = utf8_len (c # cs)"
        have h: "html_escape t = c # html_escape cs" using 3 Cons by (simp add: html_escape_plain)
        note l = utf8_len_html [OF n_def]
        have "str_lit cs" "str_lit (drop n (c # cs))"
          using plain(4) str_lit_rune [of c cs] less.prems Cons plain(2) by (simp_all add: n_def)
        then have "unquote (html_escape cs) = unquote cs"
          "0 < n \<Longrightarrow> unquote (html_escape (drop n (c # cs))) = unquote (drop n (c # cs))"
          using less.hyps Cons by simp_all
        then show ?thesis unfolding Cons h [unfolded Cons] unquote_bytes [OF plain(2)] Let_def using l n_def by auto
      qed
    qed
  qed simp
qed

section \<open>Printing a Go string\<close>

lemma utf8_len_append:
  assumes "0 < utf8_len s" "take (utf8_len s) s = t"
  shows "utf8_len (t @ r) = utf8_len s" "length t = utf8_len s" "t \<noteq> []" "hd t = hd s"
proof -
  obtain a q k where k: "s = a # q" "utf8_lead a = Some k" "k \<le> length q" "list_all is_cont (take k q)"
    "k = 0 \<or> second_ok a (hd q)" "utf8_len s = Suc k"
    using assms(1) by (auto simp: utf8_len_def split: list.splits option.splits if_splits)
  have t: "t = a # take k q" using assms(2) k by simp
  have "k = 0 \<or> hd (take k q @ r) = hd q" using k(3) by (cases k; cases q) auto
  then show "utf8_len (t @ r) = utf8_len s" using k t by (auto simp: utf8_len_def)
  show "length t = utf8_len s" "t \<noteq> []" "hd t = hd s" using k t by simp_all
qed

lemma utf8_coerce_rune:
  assumes "utf8_len (t @ r) = length t" "t \<noteq> []"
  shows "utf8_coerce (t @ r) = t @ utf8_coerce r"
  using assms by (simp add: utf8_coerce.simps [of "t @ r"])

lemma utf8_len_ascii: "ord c < 0x80 \<Longrightarrow> utf8_len (c # r) = 1"
  by (simp add: utf8_len_def utf8_lead_def)

lemma utf8_coerce_ascii: "ord c < 0x80 \<Longrightarrow> utf8_coerce (c # r) = c # utf8_coerce r"
  using utf8_coerce_rune [of "[c]" r] by (simp add: utf8_len_ascii)

lemma utf8_coerce_Nil [simp]: "utf8_coerce [] = []" by (simp add: utf8_coerce.simps)

lemma quote_string_Nil [simp]: "quote_string [] = []" by (simp add: quote_string.simps)

lemma quote_step: "s \<noteq> [] \<Longrightarrow> quote_elem s = (t, n) \<Longrightarrow> quote_string s = t @ quote_string (drop n s)"
  by (simp add: quote_string.simps [of s])

lemma rune_error_literal:
  "unquote (CHR 0x5C # CHR ''u'' # CHR ''f'' # CHR ''f'' # CHR ''f'' # CHR ''d'' # r) = RuneError @ unquote r"
proof -
  have "utf8_encode 0xFFFD = RuneError" by (simp add: utf8_encode_def RuneError_def char_of_def bit_0)
  then show ?thesis
    by (subst unquote_unicode [of _ "0xFFFD"]) (simp_all add: getu4_def hex_digit_def hex4_def is_surrogate_def)
qed

text \<open>Every element of the printed literal decodes to the element it stands for, whatever follows.\<close>

lemma quote_elem_decodes:
  assumes "s \<noteq> []" "quote_elem s = (t, n)"
  shows "\<exists>e. (\<forall>r. unquote (t @ r) = e @ unquote r) \<and> (\<forall>r. str_lit (t @ r) \<longleftrightarrow> str_lit r)
    \<and> utf8_coerce s = e @ utf8_coerce (drop n s)"
proof -
  obtain c cs where s: "s = c # cs" using assms(1) by (cases s) auto
  consider (quot) "c = CHR 0x22 \<or> c = CHR 0x5C" | (short) "c \<in> {CHR 0x08, CHR 0x0C, CHR 0x0A, CHR 0x0D, CHR 0x09}"
    | (ctl) "ord c < 0x80" "c \<notin> {CHR 0x22, CHR 0x5C, CHR 0x08, CHR 0x0C, CHR 0x0A, CHR 0x0D, CHR 0x09}" "ord c < 32 \<or> html_char c"
    | (ascii) "ord c < 0x80" "c \<notin> {CHR 0x22, CHR 0x5C, CHR 0x08, CHR 0x0C, CHR 0x0A, CHR 0x0D, CHR 0x09}" "\<not> ord c < 32" "\<not> html_char c"
    | (bad) "\<not> ord c < 0x80" "utf8_len s = 0"
    | (sepr) "\<not> ord c < 0x80" "utf8_len s \<noteq> 0" "line_sep s" | (rune) "\<not> ord c < 0x80" "utf8_len s \<noteq> 0" "\<not> line_sep s"
    by blast
  then show ?thesis
  proof cases
    case quot
    then have "t = [CHR 0x5C, c]" "n = 1" using assms(2) s by (auto simp: quote_elem_def)
    moreover have "simple_escape c = Some c" "c \<noteq> CHR ''u''" "ord c < 0x80" using quot by (auto simp: simple_escape_def)
    ultimately show ?thesis using s
      by (intro exI [of _ "[c]"]) (simp add: unquote_simple str_lit_escape utf8_coerce_ascii)
  next
    case short
    then obtain e where "t = [CHR 0x5C, e]" "n = 1" "simple_escape e = Some c" "e \<noteq> CHR ''u''" "ord c < 0x80"
      using assms(2) s by (auto simp: quote_elem_def simple_escape_def)
    then show ?thesis using s
      by (intro exI [of _ "[c]"]) (simp add: unquote_simple str_lit_escape utf8_coerce_ascii)
  next
    case ctl
    then have "t = u00 c" "n = 1" using assms(2) s by (auto simp: quote_elem_def)
    then show ?thesis using s ctl
      by (intro exI [of _ "[c]"]) (simp add: unquote_u00 str_lit_u00 utf8_coerce_ascii)
  next
    case ascii
    then have "t = [c]" "n = 1" using assms(2) s by (auto simp: quote_elem_def)
    then show ?thesis using s ascii
      by (intro exI [of _ "[c]"]) (simp add: unquote_ascii str_lit_plain utf8_coerce_ascii)
  next
    case bad
    then have "t = [CHR 0x5C, CHR ''u'', CHR ''f'', CHR ''f'', CHR ''f'', CHR ''d'']" "n = 1"
      using assms(2) s by (auto simp: quote_elem_def)
    moreover have "utf8_coerce s = RuneError @ utf8_coerce cs" using bad s by (simp add: utf8_coerce.simps [of "c # cs"])
    ultimately show ?thesis using s
      by (intro exI [of _ RuneError]) (simp add: rune_error_literal str_lit_unicode hex_digit_def)
  next
    case sepr
    then obtain d r where d: "s = CHR 0xE2 # CHR 0x80 # d # r" "d = CHR 0xA8 \<or> d = CHR 0xA9" by (blast elim: line_sepE)
    then have "t = u202 d" "n = 3" using assms(2) sepr s by (auto simp: quote_elem_def)
    moreover have "utf8_len ([CHR 0xE2, CHR 0x80, d] @ r) = 3"
      using d by (auto simp: utf8_len_def utf8_lead_def is_cont_def second_ok_def)
    ultimately show ?thesis using d utf8_coerce_rune [of "[CHR 0xE2, CHR 0x80, d]" r]
      by (intro exI [of _ "[CHR 0xE2, CHR 0x80, d]"]) (simp add: unquote_u202 str_lit_u202)
  next
    case rune
    then have t: "t = take (utf8_len s) s" "n = utf8_len s" using assms(2) s by (auto simp: quote_elem_def)
    note l = utf8_len_append [OF _ t(1) [symmetric]]
    have c: "hd t = c" "c \<noteq> CHR 0x5C" using l rune s by auto
    have u: "unquote (t @ r) = t @ unquote r" for r
    proof -
      have len: "length t = utf8_len s" "t \<noteq> []" "utf8_len (t @ r) = utf8_len s" using l rune(2) by auto
      then have e: "c # tl t @ r = t @ r" using c(1) by (cases t) auto
      show ?thesis
        using unquote_bytes [OF c(2), of "tl t @ r"] rune(2) unfolding e len(3) Let_def len(1) [symmetric] by simp
    qed
    have "list_all (\<lambda>b. 0x80 \<le> ord b) t"
      using rune s t by (auto simp: utf8_len_def is_cont_def list_all_iff dest: in_set_takeD split: option.splits if_splits)
    then have p: "str_lit (t @ r) \<longleftrightarrow> str_lit r" for r
      by (induction t) (auto simp: str_lit_high)
    have "utf8_coerce s = t @ utf8_coerce (drop n s)"
      using rune t assms(1) by (simp add: utf8_coerce.simps [of s] Let_def)
    then show ?thesis using u p by blast
  qed
qed

text \<open>The literal \<open>Marshal\<close> prints for a string decodes to that string, with ill-formed UTF-8 replaced.\<close>

theorem unquote_quote_string: "unquote (quote_string s) = utf8_coerce s \<and> str_lit (quote_string s)"
proof (induction "length s" arbitrary: s rule: less_induct)
  case less
  show ?case
  proof (cases "s = []")
    case False
    obtain t n where q: "quote_elem s = (t, n)" by (cases "quote_elem s")
    then have n: "0 < n" using quote_elem_pos [OF False] by simp
    obtain e where e: "\<forall>r. unquote (t @ r) = e @ unquote r" "\<forall>r. str_lit (t @ r) \<longleftrightarrow> str_lit r"
      "utf8_coerce s = e @ utf8_coerce (drop n s)"
      using quote_elem_decodes [OF False q] by blast
    have "length (drop n s) < length s" using n False by (cases s) auto
    from less [OF this] show ?thesis using e quote_step [OF False q] by simp
  qed simp
qed

text \<open>A decoded string is well-formed.\<close>

lemma utf8_len_runes:
  "0xC2 \<le> x \<Longrightarrow> x \<le> 0xDF \<Longrightarrow> m < 64 \<Longrightarrow> utf8_len (char_of x # char_of (0x80 + m) # r) = 2"
  "0xE0 \<le> x \<Longrightarrow> x \<le> 0xEF \<Longrightarrow> m < 64 \<Longrightarrow> m' < 64 \<Longrightarrow> (x = 0xE0 \<longrightarrow> 0x20 \<le> m) \<Longrightarrow> (x = 0xED \<longrightarrow> m < 0x20)
     \<Longrightarrow> utf8_len (char_of x # char_of (0x80 + m) # char_of (0x80 + m') # r) = 3"
  "0xF0 \<le> x \<Longrightarrow> x \<le> 0xF4 \<Longrightarrow> m < 64 \<Longrightarrow> m' < 64 \<Longrightarrow> m'' < 64 \<Longrightarrow> (x = 0xF0 \<longrightarrow> 0x10 \<le> m) \<Longrightarrow> (x = 0xF4 \<longrightarrow> m < 0x10)
     \<Longrightarrow> utf8_len (char_of x # char_of (0x80 + m) # char_of (0x80 + m') # char_of (0x80 + m'') # r) = 4"
  for x m m' m'' :: nat
  by (auto simp: utf8_len_def utf8_lead_def is_cont_def second_ok_def)

lemma utf8_len_encode:
  assumes "p < 0x110000" "\<not> is_surrogate p"
  shows "utf8_len (utf8_encode p @ r) = length (utf8_encode p)" "utf8_encode p \<noteq> []"
proof -
  define q where "q = p div 64"
  define k where "k = q div 64"
  define j where "j = k div 64"
  have p: "p = 64 * q + p mod 64" "p mod 64 < 64" by (simp_all add: q_def)
  have q: "q = 64 * k + q mod 64" "q mod 64 < 64" by (simp_all add: k_def)
  have k: "k = 64 * j + k mod 64" "k mod 64 < 64" by (simp_all add: j_def)
  have d: "p div 4096 = k" "p div 262144 = j" by (simp_all add: q_def k_def j_def flip: div_mult2_eq)
  consider "p < 0x80" | "0x80 \<le> p" "p < 0x800" | "0x800 \<le> p" "p < 0x10000" | "0x10000 \<le> p" by linarith
  then show "utf8_len (utf8_encode p @ r) = length (utf8_encode p)"
  proof cases
    case 1
    then show ?thesis by (simp add: utf8_encode_def utf8_len_ascii)
  next
    case 2
    then have "2 \<le> q" "q < 32" using p by linarith+
    then show ?thesis using 2 p(2) by (simp add: utf8_encode_def utf8_len_runes flip: q_def)
  next
    case 3
    then have "k < 16" "k = 0 \<longrightarrow> 0x20 \<le> q mod 64" using p q by linarith+
    moreover have "k = 13 \<longrightarrow> q mod 64 < 0x20"
      using assms(2) p q unfolding is_surrogate_def by linarith
    ultimately show ?thesis
      using 3 p(2) q(2) by (simp add: utf8_encode_def utf8_len_runes d flip: q_def)
  next
    case 4
    then have "j \<le> 4" "j = 0 \<longrightarrow> 0x10 \<le> k mod 64" "j = 4 \<longrightarrow> k mod 64 < 0x10"
      using assms(1) p q k by linarith+
    then show ?thesis
      using 4 p(2) q(2) k(2) by (simp add: utf8_encode_def utf8_len_runes d flip: q_def)
  qed
  show "utf8_encode p \<noteq> []" by (simp add: utf8_encode_def)
qed

lemma hex4_less: "list_all (\<lambda>h. hex_digit h \<noteq> None) [a, b, x, y] \<Longrightarrow> hex4 [a, b, x, y] < 0x10000"
proof -
  have d: "hex_digit h = Some n \<Longrightarrow> n < 16" for h n by (auto simp: hex_digit_def Let_def split: if_splits)
  assume "list_all (\<lambda>h. hex_digit h \<noteq> None) [a, b, x, y]"
  then obtain p q u v where "hex_digit a = Some p" "hex_digit b = Some q" "hex_digit x = Some u" "hex_digit y = Some v"
    by auto
  moreover from this have "p < 16" "q < 16" "u < 16" "v < 16" using d by auto
  ultimately show ?thesis by (simp add: hex4_def)
qed

lemma RuneError_rune: "utf8_len (RuneError @ r) = 3"
  by (simp add: RuneError_def utf8_len_def utf8_lead_def is_cont_def second_ok_def)

lemma getu4_less: "getu4 s = Some r \<Longrightarrow> r < 0x10000"
  by (auto simp: getu4_def hex4_less split: list.splits if_splits)

lemma unquote_elem_rune:
  assumes "s \<noteq> []" "unquote_elem s = (t, n)"
  shows "utf8_coerce (t @ r) = t @ utf8_coerce r"
proof -
  obtain c cs where s: "s = c # cs" using assms(1) by (cases s) auto
  have err: "utf8_coerce (RuneError @ r) = RuneError @ utf8_coerce r"
    using utf8_coerce_rune [of RuneError r] RuneError_rune by (simp add: RuneError_def)
  have enc: "utf8_coerce (utf8_encode p @ r) = utf8_encode p @ utf8_coerce r" if "p < 0x110000" "\<not> is_surrogate p" for p
    using utf8_coerce_rune utf8_len_encode [OF that] by simp
  have esc: "simple_escape e = Some x \<Longrightarrow> ord x < 0x80" for e x by (auto simp: simple_escape_def split: if_splits)
  have pair: "utf16_pair a b = Some p \<Longrightarrow> p < 0x110000 \<and> \<not> is_surrogate p" for a b p
    by (auto simp: utf16_pair_def is_surrogate_def split: if_splits)
  show ?thesis
  proof (cases "c = CHR 0x5C")
    case True
    show ?thesis
    proof (cases "getu4 s")
      case None
      then show ?thesis using assms s True esc
        by (auto simp: unquote_elem_def utf8_coerce_ascii split: list.splits option.splits)
    next
      case (Some q)
      then have "q < 0x110000" using getu4_less [OF Some] by simp
      then show ?thesis using assms s True Some err enc pair
        by (auto simp: unquote_elem_def split: if_splits option.splits)
    qed
  next
    case False
    show ?thesis
    proof (cases "utf8_len s = 0")
      case True
      then show ?thesis using assms s False err by (auto simp: unquote_elem_def)
    next
      case len: False
      then have t: "t = take (utf8_len s) s" using assms(2) s False by (auto simp: unquote_elem_def Let_def)
      show ?thesis using utf8_len_append [OF _ t [symmetric]] len utf8_coerce_rune by simp
    qed
  qed
qed

lemma unquote_wellformed: "utf8_coerce (unquote t) = unquote t"
proof (induction t rule: unquote.induct)
  case (1 s)
  show ?case
  proof (cases "s = []")
    case False
    obtain t n where q: "unquote_elem s = (t, n)" by (cases "unquote_elem s")
    then show ?thesis
      using 1 [OF False q [symmetric]] unquote_step [OF False q] unquote_elem_rune [OF False q] by simp
  qed simp
qed

text \<open>Decoding a key and printing it again gives a literal of the same string.\<close>

theorem unquote_requote: "unquote (quote_string (unquote t)) = unquote t"
  using unquote_quote_string unquote_wellformed by simp

end
