(* ===== verification/Go_Regexp.thy ===== *)
theory Go_Regexp
  imports Go_Json_Strings
begin

text \<open>
  Regular expressions of Go's \<open>regexp\<close> package, as far as the detectors use them.  The text is
  a list of runes, each the bytes it is written with; an ill-formed byte is a rune of its own,
  as for Go.  \<open>rmatch\<close> lists the ways an expression matches at a point in the order a
  backtracking matcher tries them, the order that defines which match Go reports.
\<close>

section \<open>Runes\<close>

function utf8_runes :: "string \<Rightarrow> string list" where
  "utf8_runes s =
     (if s = [] then []
      else let n = (if utf8_len s = 0 then 1 else utf8_len s) in take n s # utf8_runes (drop n s))"
  by pat_completeness auto
termination by (relation "measure length") auto

declare utf8_runes.simps [simp del]

text \<open>Single bytes below 128 are runes wherever they stand.\<close>

lemma utf8_len_ascii_tail:
  assumes "s \<noteq> []" "ord c < 128" shows "utf8_len (s @ c # t) = utf8_len s"
proof (cases s)
  case (Cons a r)
  show ?thesis
  proof (cases "utf8_lead a")
    case (Some k)
    have nc: "\<not> is_cont c" using assms(2) by (simp add: is_cont_def)
    show ?thesis
    proof (cases "k \<le> length r")
      case True
      then have "take k (r @ c # t) = take k r" "k = 0 \<or> hd (r @ c # t) = hd r" using True by (auto simp: hd_append)
      then show ?thesis using Cons Some True by (auto simp: utf8_len_def)
    next
      case False
      then obtain m where "k - length r = Suc m" by (cases "k - length r") auto
      then have "\<not> list_all is_cont (take k (r @ c # t))" using nc by simp
      then show ?thesis using Cons Some False by (auto simp: utf8_len_def)
    qed
  qed (use Cons in \<open>simp add: utf8_len_def\<close>)
qed (use assms in simp)

lemma utf8_len_le: "utf8_len s \<le> length s"
  by (auto simp: utf8_len_def split: list.splits option.splits)

lemma utf8_runes_ascii: "ord c < 128 \<Longrightarrow> utf8_runes (c # s) = [c] # utf8_runes s"
  by (subst utf8_runes.simps) (simp add: utf8_len_def utf8_lead_def)

lemma utf8_runes_append_ascii:
  "ord c < 128 \<Longrightarrow> utf8_runes (s @ c # t) = utf8_runes s @ utf8_runes (c # t)"
proof (induction s rule: utf8_runes.induct)
  case (1 s)
  show ?case
  proof (cases "s = []")
    case False
    define n where "n = (if utf8_len s = 0 then 1 else utf8_len s)"
    have n: "n \<le> length s" using utf8_len_le [of s] False by (cases s) (auto simp: n_def)
    have e: "utf8_runes s = take n s # utf8_runes (drop n s)"
      using False by (subst utf8_runes.simps) (simp add: n_def Let_def)
    have "utf8_runes (s @ c # t) = take n (s @ c # t) # utf8_runes (drop n (s @ c # t))"
      using False utf8_len_ascii_tail [OF False \<open>ord c < 128\<close>, of t] by (subst utf8_runes.simps) (simp add: n_def Let_def)
    then show ?thesis using 1 False e n by (simp add: n_def)
  qed (simp add: utf8_runes.simps)
qed

lemma utf8_runes_ascii_block:
  "list_all (\<lambda>c. ord c < 128) a \<Longrightarrow> utf8_runes (a @ t) = map (\<lambda>c. [c]) a @ utf8_runes t"
  by (induction a) (auto simp: utf8_runes_ascii)

lemma utf8_runes_middle:
  assumes "list_all (\<lambda>c. ord c < 128) a" "a \<noteq> []"
  shows "utf8_runes (s @ a @ t) = utf8_runes s @ map (\<lambda>c. [c]) a @ utf8_runes t"
  using assms utf8_runes_append_ascii [of "hd a" s "tl a @ t"] utf8_runes_ascii_block [OF assms(1)]
  by (cases a) auto

section \<open>Expressions and their matches\<close>

datatype regex = Eps | Cls "string \<Rightarrow> bool" | WordB | Seq regex regex | Alt regex regex | Star regex

definition word_rune :: "string \<Rightarrow> bool" where
  "word_rune r = (case r of
     [c] \<Rightarrow> (let n = ord c in 48 \<le> n \<and> n \<le> 57 \<or> 65 \<le> n \<and> n \<le> 90 \<or> 97 \<le> n \<and> n \<le> 122 \<or> n = 95)
   | _ \<Rightarrow> False)"

type_synonym point = "string option \<times> string list"

definition word_boundary :: "point \<Rightarrow> bool" where
  "word_boundary st \<longleftrightarrow>
     (case fst st of None \<Rightarrow> False | Some r \<Rightarrow> word_rune r) \<noteq> (case snd st of [] \<Rightarrow> False | r # _ \<Rightarrow> word_rune r)"

function rmatch :: "regex \<Rightarrow> point \<Rightarrow> point list" where
  "rmatch Eps st = [st]"
| "rmatch (Cls f) st = (case snd st of [] \<Rightarrow> [] | c # cs \<Rightarrow> if f c then [(Some c, cs)] else [])"
| "rmatch WordB st = (if word_boundary st then [st] else [])"
| "rmatch (Seq a b) st = concat (map (rmatch b) (rmatch a st))"
| "rmatch (Alt a b) st = rmatch a st @ rmatch b st"
| "rmatch (Star a) st =
     concat (map (\<lambda>st'. if length (snd st') < length (snd st) then rmatch (Star a) st' else []) (rmatch a st)) @ [st]"
  by pat_completeness auto
termination by (relation "measures [\<lambda>(r, st). size r, \<lambda>(r, st). length (snd st)]") auto

declare rmatch.simps(6) [simp del]

text \<open>The leftmost match: where it starts and where it ends.\<close>

fun find_from :: "regex \<Rightarrow> string option \<Rightarrow> string list \<Rightarrow> (string list \<times> point) option" where
  "find_from r p s =
     (case rmatch r (p, s) of
        st # _ \<Rightarrow> Some (s, st)
      | [] \<Rightarrow> (case s of [] \<Rightarrow> None | c # cs \<Rightarrow> find_from r (Some c) cs))"

declare find_from.simps [simp del]

definition MatchString :: "regex \<Rightarrow> string \<Rightarrow> bool" where
  "MatchString r s \<longleftrightarrow> find_from r None (utf8_runes s) \<noteq> None"

lemma find_from_ends: "find_from r p s = Some (start, st) \<Longrightarrow> length start \<le> length s"
proof (induction r p s rule: find_from.induct)
  case (1 r p s)
  show ?case
  proof (cases "rmatch r (p, s)")
    case Nil
    then obtain c cs where s: "s = c # cs" "find_from r (Some c) cs = Some (start, st)"
      using 1(2) by (subst (asm) find_from.simps) (auto split: list.splits)
    then show ?thesis using 1(1) [OF Nil s(1)] by simp
  next
    case (Cons st' rest)
    then show ?thesis using 1(2) by (subst (asm) find_from.simps) simp
  qed
qed

text \<open>\<open>FindAllString\<close> for expressions that match no empty text: the texts of the successive leftmost
  matches.\<close>

function find_all :: "regex \<Rightarrow> string option \<Rightarrow> string list \<Rightarrow> string list" where
  "find_all r p s =
     (case find_from r p s of
        None \<Rightarrow> []
      | Some (start, (p', rest)) \<Rightarrow>
          concat (take (length start - length rest) start)
          # (if length rest < length s then find_all r p' rest else []))"
  by pat_completeness auto
termination by (relation "measure (\<lambda>(r, p, s). length s)") auto

declare find_all.simps [simp del]

definition FindAllString :: "regex \<Rightarrow> string \<Rightarrow> string list" where
  "FindAllString r s = find_all r None (utf8_runes s)"

section \<open>Building expressions\<close>

definition plus :: "regex \<Rightarrow> regex" where "plus r = Seq r (Star r)"
definition opt :: "regex \<Rightarrow> regex" where "opt r = Alt r Eps"

primrec seqs :: "regex list \<Rightarrow> regex" where
  "seqs [] = Eps"
| "seqs (r # rs) = Seq r (seqs rs)"

fun alts :: "regex list \<Rightarrow> regex" where
  "alts [] = Cls (\<lambda>_. False)"
| "alts [r] = r"
| "alts (r # rs) = Alt r (alts rs)"

primrec rep_opt :: "nat \<Rightarrow> regex \<Rightarrow> regex" where
  "rep_opt 0 r = Eps"
| "rep_opt (Suc n) r = opt (Seq r (rep_opt n r))"

primrec rep :: "nat \<Rightarrow> regex \<Rightarrow> regex \<Rightarrow> regex" where
  "rep 0 r k = k"
| "rep (Suc n) r k = Seq r (rep n r k)"

text \<open>\<open>r{m}\<close>, \<open>r{m,}\<close> and \<open>r{m,n}\<close>.\<close>

definition exactly :: "nat \<Rightarrow> regex \<Rightarrow> regex" where "exactly m r = rep m r Eps"
definition at_least :: "nat \<Rightarrow> regex \<Rightarrow> regex" where "at_least m r = rep m r (Star r)"
definition between :: "nat \<Rightarrow> nat \<Rightarrow> regex \<Rightarrow> regex" where "between m n r = rep m r (rep_opt (n - m) r)"

definition one_of :: "string \<Rightarrow> string \<Rightarrow> bool" where
  "one_of cs r = (case r of [c] \<Rightarrow> c \<in> set cs | _ \<Rightarrow> False)"

definition range_of :: "char \<Rightarrow> char \<Rightarrow> string \<Rightarrow> bool" where
  "range_of a b r = (case r of [c] \<Rightarrow> ord a \<le> ord c \<and> ord c \<le> ord b | _ \<Rightarrow> False)"

text \<open>Case-insensitive letters: Unicode folding adds the long s and the Kelvin sign.\<close>

definition long_s :: string where "long_s = [CHR 0xC5, CHR 0xBF]"
definition kelvin :: string where "kelvin = [CHR 0xE2, CHR 0x84, CHR 0xAA]"

definition any_letter :: "string \<Rightarrow> bool" where
  "any_letter r \<longleftrightarrow> range_of (CHR ''a'') (CHR ''z'') r \<or> range_of (CHR ''A'') (CHR ''Z'') r \<or> r = long_s \<or> r = kelvin"

definition fold_rune :: "char \<Rightarrow> string \<Rightarrow> bool" where
  "fold_rune c r \<longleftrightarrow> map ascii_lower r = [ascii_lower c]
     \<or> ascii_lower c = CHR ''s'' \<and> r = long_s \<or> ascii_lower c = CHR ''k'' \<and> r = kelvin"

definition lit :: "string \<Rightarrow> regex" where "lit s = seqs (map (\<lambda>c. Cls (\<lambda>r. r = [c])) s)"
definition lit_fold :: "string \<Rightarrow> regex" where "lit_fold s = seqs (map (\<lambda>c. Cls (fold_rune c)) s)"

definition digit :: regex where "digit = Cls (range_of (CHR ''0'') (CHR ''9''))"

text \<open>\<open>\\s\<close> and \<open>[[:space:]]\<close>, which has the vertical tab as well.\<close>

definition perl_space :: "string \<Rightarrow> bool" where
  "perl_space = one_of [CHR 0x09, CHR 0x0A, CHR 0x0C, CHR 0x0D, CHR '' '']"
definition posix_space :: "string \<Rightarrow> bool" where
  "posix_space = one_of [CHR 0x09, CHR 0x0A, CHR 0x0B, CHR 0x0C, CHR 0x0D, CHR '' '']"

section \<open>Existence of matches\<close>

lemma rmatch_Seq: "st1 \<in> set (rmatch a st) \<Longrightarrow> st2 \<in> set (rmatch b st1) \<Longrightarrow> st2 \<in> set (rmatch (Seq a b) st)"
  by auto

lemma rmatch_Star_self: "st \<in> set (rmatch (Star a) st)"
  by (subst rmatch.simps(6)) simp

lemma rmatch_Star_Cls:
  "list_all f xs \<Longrightarrow> (if xs = [] then p else Some (last xs), rest) \<in> set (rmatch (Star (Cls f)) (p, xs @ rest))"
proof (induction xs arbitrary: p)
  case Nil
  show ?case by (subst rmatch.simps(6)) simp
next
  case (Cons x xs)
  have "(if xs = [] then Some x else Some (last xs), rest) \<in> set (rmatch (Star (Cls f)) (Some x, xs @ rest))"
    using Cons by simp
  then show ?case using Cons.prems
    by (cases "xs = []") (simp_all add: rmatch.simps(6) [of "Cls f" "(p, x # xs @ rest)"] rmatch.simps(6) [of "Cls f" "(p, x # rest)"])
qed

lemma rmatch_plus_Cls:
  "list_all f xs \<Longrightarrow> xs \<noteq> [] \<Longrightarrow> (Some (last xs), rest) \<in> set (rmatch (plus (Cls f)) (p, xs @ rest))"
  using rmatch_Star_Cls [of f "tl xs" "Some (hd xs)" rest] unfolding plus_def
  by (cases xs) (auto intro!: rmatch_Seq [of "(Some (hd xs), tl xs @ rest)"] split: if_splits)

lemma find_from_exists:
  "rmatch r (if xs = [] then p else Some (last xs), s) \<noteq> [] \<Longrightarrow> find_from r p (xs @ s) \<noteq> None"
proof (induction xs arbitrary: p)
  case Nil
  then show ?case by (subst find_from.simps) (auto split: list.splits)
next
  case (Cons x xs)
  have "find_from r (Some x) (xs @ s) \<noteq> None" using Cons.IH [of "Some x"] Cons.prems by (auto split: if_splits)
  then show ?case by (subst find_from.simps) (auto split: list.splits)
qed

end
