(* ===== verification/Go_Float_Text.thy ===== *)
theory Go_Float_Text
  imports Go_Float Go_Json
begin

text \<open>
  Number literals and float64 values: the value \<open>strconv.ParseFloat\<close> gives a JSON
  number literal, and the text \<open>json.Marshal\<close> prints for a finite float64, which is
  the shortest decimal that parses back to it.  A float is a sign and a
  magnitude, so that the negative zero keeps its sign.
\<close>

section \<open>Digit strings\<close>

definition dig_val :: "char \<Rightarrow> nat" where "dig_val c = of_char c - 48"

definition dig_char :: "nat \<Rightarrow> char" where "dig_char n = char_of (48 + n)"

definition digits_val :: "string \<Rightarrow> nat" where
  "digits_val s = foldl (\<lambda>n c. 10 * n + dig_val c) 0 s"

fun nat_digits :: "nat \<Rightarrow> string" where
  "nat_digits n = (if n < 10 then [dig_char n] else nat_digits (n div 10) @ [dig_char (n mod 10)])"

declare nat_digits.simps [simp del]

lemma dig_char_facts: "n < 10 \<Longrightarrow> is_dig (dig_char n) \<and> dig_val (dig_char n) = n"
  by (auto simp: is_dig_def dig_char_def dig_val_def Let_def of_char_of)

lemma dig_char_zero: "n < 10 \<Longrightarrow> dig_char n = CHR ''0'' \<longleftrightarrow> n = 0"
proof -
  assume n: "n < 10"
  have "dig_val (CHR ''0'') = 0" by (simp add: dig_val_def)
  moreover have "dig_char 0 = CHR ''0''" using char_of_char [of "CHR ''0''", where 'a = nat] by (simp add: dig_char_def)
  ultimately show ?thesis using dig_char_facts [OF n] by auto
qed

lemma digits_val_Nil [simp]: "digits_val [] = 0" by (simp add: digits_val_def)

lemma digits_val_snoc: "digits_val (s @ [c]) = 10 * digits_val s + dig_val c"
  by (simp add: digits_val_def)

lemma digits_val_append: "digits_val (s @ t) = digits_val s * 10 ^ length t + digits_val t"
proof (induction t rule: rev_induct)
  case (snoc c t)
  then show ?case using digits_val_snoc [of "s @ t" c] digits_val_snoc [of t c] by (simp add: algebra_simps)
qed simp

lemma digits_val_zeros: "digits_val (replicate n (CHR ''0'')) = 0"
proof (induction n)
  case (Suc n)
  then show ?case using digits_val_snoc [of "replicate n (CHR ''0'')"]
    by (simp add: replicate_append_same [symmetric] dig_val_def)
qed simp

lemma nat_digits_facts:
  "digits_val (nat_digits n) = n \<and> nat_digits n \<noteq> [] \<and> list_all is_dig (nat_digits n)
   \<and> (0 < n \<longrightarrow> hd (nat_digits n) \<noteq> CHR ''0'')
   \<and> n < 10 ^ length (nat_digits n) \<and> (0 < n \<longrightarrow> 10 ^ (length (nat_digits n) - 1) \<le> n)"
proof (induction n rule: nat_digits.induct)
  case (1 n)
  show ?case
  proof (cases "n < 10")
    case True
    then show ?thesis using dig_char_facts [OF True] dig_char_zero [OF True] digits_val_snoc [of "[]"]
      by (simp add: nat_digits.simps)
  next
    case False
    define p where "p = n div 10"
    note IH = 1 [OF False, folded p_def]
    have n: "n = 10 * p + n mod 10" "n mod 10 < 10" "0 < p" using False by (simp_all add: p_def)
    have e: "nat_digits n = nat_digits p @ [dig_char (n mod 10)]" using False by (simp add: nat_digits.simps p_def)
    obtain l where l: "length (nat_digits p) = Suc l" using IH by (cases "nat_digits p") auto
    have "n < 10 ^ length (nat_digits n)" using IH n unfolding e by (simp, linarith)
    moreover have "10 ^ (length (nat_digits n) - 1) \<le> n" using IH n l unfolding e by simp
    moreover have "digits_val (nat_digits n) = n"
      using IH n(1) dig_char_facts [OF n(2)] unfolding e by (simp add: digits_val_snoc)
    moreover have "nat_digits n \<noteq> []" "list_all is_dig (nat_digits n)" "hd (nat_digits n) \<noteq> CHR ''0''"
      using IH n(3) dig_char_facts [OF n(2)] unfolding e by auto
    ultimately show ?thesis by blast
  qed
qed

section \<open>The value of a number literal\<close>

text \<open>The exponent stops growing once it has reached 10000, as in \<open>readFloat\<close>.\<close>

definition exp_digits :: "string \<Rightarrow> int" where
  "exp_digits s = foldl (\<lambda>e c. if e < 10000 then 10 * e + int (dig_val c) else e) 0 s"

definition exp_of :: "string \<Rightarrow> int" where
  "exp_of x = (case x of
     e # p # d \<Rightarrow> if p = CHR ''-'' then - exp_digits d else if p = CHR ''+'' then exp_digits d else exp_digits (p # d)
   | _ \<Rightarrow> 0)"

definition num_parts :: "string \<Rightarrow> bool \<times> string \<times> string \<times> string" where
  "num_parts t =
     (let neg = HasPrefix t ''-''; r0 = (if neg then drop 1 t else t)
      in case lex_int r0 of
           None \<Rightarrow> (neg, [], [], [])
         | Some (i, r1) \<Rightarrow> (case lex_frac r1 of None \<Rightarrow> (neg, i, [], []) | Some (f, r2) \<Rightarrow> (neg, i, drop 1 f, r2)))"

definition lit_value :: "string \<Rightarrow> bool \<times> rat" where
  "lit_value t =
     (case num_parts t of
        (neg, i, f, x) \<Rightarrow> (neg, of_nat (digits_val (i @ f)) * 10 powi (exp_of x - int (length f))))"

text \<open>\<open>ParseFloat\<close> fails exactly when the value rounds to something no double has.\<close>

definition ParseFloat :: "string \<Rightarrow> (bool \<times> rat) option" where
  "ParseFloat t =
     (case lit_value t of
        (neg, v) \<Rightarrow> if f64_round v < 2 ^ 1024 then Some (neg, f64_round v) else None)"

lemma lex_digits_all:
  assumes "list_all is_dig d" "d \<noteq> []" "r = [] \<or> \<not> is_dig (hd r)"
  shows "lex_digits (d @ r) = Some (d, r)"
proof -
  have "takeWhile is_dig (d @ r) = d" "dropWhile is_dig (d @ r) = r"
    using assms by (cases r; simp add: takeWhile_append2 dropWhile_append2 list_all_iff)+
  then show ?thesis using assms(2) by (simp add: lex_digits_def)
qed

lemma literal_shape:
  assumes i: "i = ''0'' \<or> i \<noteq> [] \<and> list_all is_dig i \<and> hd i \<noteq> CHR ''0''"
    and f: "list_all is_dig f"
    and x: "x = [] \<or> (\<exists>p d. x = CHR ''e'' # p # d \<and> (p = CHR ''+'' \<or> p = CHR ''-'') \<and> d \<noteq> [] \<and> list_all is_dig d)"
    and t: "t = (if neg then ''-'' else []) @ i @ (if f = [] then [] else CHR ''.'' # f) @ x"
  shows "num_lit t \<and> num_parts t = (neg, i, f, x)"
proof -
  define q where "q = (if f = [] then [] else CHR ''.'' # f)"
  have hx: "x = [] \<or> \<not> is_dig (hd x) \<and> hd x = CHR ''e''" using x by (auto simp: is_dig_def)
  have hq: "q @ x = [] \<or> \<not> is_dig (hd (q @ x))" using hx by (auto simp: q_def is_dig_def)
  have "lex_int (i @ q @ x) = Some (i, q @ x)"
    using i lex_digits_all [OF _ _ hq, of i] by (cases i) (auto simp: lex_int_def HasPrefix_def)
  moreover have "lex_frac (q @ x) = Some (q, x)"
    using hx lex_digits_all [OF f, of x] by (cases x) (auto simp: lex_frac_def HasPrefix_def q_def)
  moreover have "lex_exp x = Some (x, [])"
    using x lex_digits_all [of _ "[]"] by (auto simp: lex_exp_def)
  moreover have "\<not> HasPrefix (i @ q @ x) ''-''" using i by (cases i) (auto simp: HasPrefix_def is_dig_def)
  moreover have "drop 1 q = f" by (simp add: q_def)
  ultimately show ?thesis unfolding t q_def [symmetric]
    by (cases neg) (simp_all add: num_lit_def lex_number_def num_parts_def HasPrefix_def Let_def)
qed

section \<open>The shortest decimal\<close>

definition floor_log10 :: "rat \<Rightarrow> int" where
  "floor_log10 x =
     (if 1 \<le> x then int (length (nat_digits (nat \<lfloor>x\<rfloor>))) - 1
      else - int (length (nat_digits (nat (\<lceil>1 / x\<rceil> - 1)))))"

text \<open>The decimals with \<open>n\<close> digits next to \<open>x\<close>, on the grid \<open>10 powi k\<close>: the nearer one that
  reads back as \<open>x\<close>.\<close>

definition dec_at :: "rat \<Rightarrow> int \<Rightarrow> nat option" where
  "dec_at x k =
     (let u = 10 powi k; q = \<lfloor>x / u\<rfloor>; lo = of_int q * u; hi = (of_int q + 1) * u;
          okl = (f64_round lo = x); okh = (f64_round hi = x)
      in if okl \<and> (okh \<longrightarrow> x - lo \<le> hi - x) then Some (nat q)
         else if okh then Some (nat (q + 1)) else None)"

fun trim_zeros :: "nat \<Rightarrow> int \<Rightarrow> nat \<times> int" where
  "trim_zeros m k = (if 0 < m \<and> m mod 10 = 0 then trim_zeros (m div 10) (k + 1) else (m, k))"

declare trim_zeros.simps [simp del]

text \<open>Seventeen digits always suffice; the search goes as far as the exact expansion.\<close>

definition shortest :: "rat \<Rightarrow> nat \<times> int" where
  "shortest x =
     (let e = floor_log10 x
      in case find (\<lambda>n. dec_at x (e - int n) \<noteq> None) [0..<1400] of
           None \<Rightarrow> (0, 0)
         | Some n \<Rightarrow> trim_zeros (the (dec_at x (e - int n))) (e - int n))"

definition fmt_f :: "string \<Rightarrow> int \<Rightarrow> string" where
  "fmt_f ds dp =
     (if dp \<le> 0 then ''0'' else take (nat dp) ds @ replicate (nat dp - length ds) (CHR ''0''))
     @ (if int (length ds) \<le> dp then []
        else CHR ''.'' # replicate (nat (- dp)) (CHR ''0'') @ drop (nat dp) ds)"

definition fmt_e :: "string \<Rightarrow> int \<Rightarrow> string" where
  "fmt_e ds dp =
     take 1 ds @ (if length ds \<le> 1 then [] else CHR ''.'' # drop 1 ds)
     @ (if dp - 1 < 0 then ''e-'' @ nat_digits (nat (1 - dp))
        else ''e+'' @ (if dp - 1 < 10 then ''0'' else []) @ nat_digits (nat (dp - 1)))"

text \<open>The float encoder of \<open>encoding/json\<close>, with its exponent without a leading zero.\<close>

definition FormatFloat :: "bool \<times> rat \<Rightarrow> string" where
  "FormatFloat nx =
     (case nx of
        (neg, x) \<Rightarrow>
          (if neg then ''-'' else [])
          @ (if x = 0 then ''0''
             else case shortest x of
                    (m, k) \<Rightarrow>
                      (let ds = nat_digits m; dp = int (length ds) + k
                       in if x < 1 / 10 ^ 6 \<or> 10 ^ 21 \<le> x then fmt_e ds dp else fmt_f ds dp)))"

section \<open>Printed floats read back\<close>

lemma powi10_pos [simp]: "0 < (10::rat) powi n" by simp

lemma powi10_nat: "0 \<le> k \<Longrightarrow> (10::rat) powi k = 10 ^ nat k"
  by (simp add: power_int_def)

lemma powi10_mono: "a \<le> b \<Longrightarrow> (10::rat) powi a \<le> 10 powi b"
  by (rule power_int_increasing) simp_all

lemma powi10_less: "(10::rat) powi a < 10 powi b \<Longrightarrow> a < b"
  using powi10_mono [of b a] by force

lemma floor_log10_bounds:
  assumes "0 < x" shows "10 powi floor_log10 x \<le> x \<and> x < 10 powi (floor_log10 x + 1)"
proof (cases "1 \<le> x")
  case True
  define n where "n = nat \<lfloor>x\<rfloor>"
  have n: "0 < n" "of_nat n \<le> x" "x < of_nat n + 1" using True by (simp_all add: n_def) linarith+
  obtain l where l: "length (nat_digits n) = Suc l" using nat_digits_facts [of n] by (cases "nat_digits n") auto
  then have e: "floor_log10 x = int l" using True by (simp add: floor_log10_def n_def)
  have "10 ^ l \<le> n" "Suc n \<le> 10 ^ Suc l" using nat_digits_facts [of n] n(1) l by simp_all
  then have d: "(10::rat) ^ l \<le> of_nat n" "(of_nat n + 1 :: rat) \<le> 10 ^ Suc l"
    by (metis of_nat_le_iff of_nat_numeral of_nat_power of_nat_Suc add.commute)+
  have p: "(10::rat) powi int l = 10 ^ l" "(10::rat) powi (int l + 1) = 10 ^ Suc l"
    by (simp_all add: powi10_nat nat_add_distrib)
  show ?thesis unfolding e p using n d by linarith
next
  case False
  define n where "n = nat (\<lceil>1 / x\<rceil> - 1)"
  have "1 < 1 / x" using False assms by simp
  then have c: "1 < \<lceil>1 / x\<rceil>" by linarith
  have n: "0 < n" "of_nat n < 1 / x" "1 / x \<le> of_nat n + 1" using c by (simp_all add: n_def) linarith+
  obtain l where l: "length (nat_digits n) = Suc l" using nat_digits_facts [of n] by (cases "nat_digits n") auto
  then have e: "floor_log10 x = - int (Suc l)" using False by (simp add: floor_log10_def n_def)
  have "10 ^ l \<le> n" "Suc n \<le> 10 ^ Suc l" using nat_digits_facts [of n] n(1) l by simp_all
  then have "(10::rat) ^ l \<le> of_nat n" "(of_nat n + 1 :: rat) \<le> 10 ^ Suc l"
    by (metis of_nat_le_iff of_nat_numeral of_nat_power of_nat_Suc add.commute)+
  then have b: "10 ^ l < 1 / x" "1 / x \<le> 10 ^ Suc l" using n by linarith+
  have "x < 1 / 10 ^ l" using b(1) assms by (simp add: field_simps)
  moreover have "1 / 10 ^ Suc l \<le> x" using b(2) assms by (simp add: field_simps)
  moreover have "(10::rat) powi (- int (Suc l)) = 1 / 10 ^ Suc l" "(10::rat) powi (- int (Suc l) + 1) = 1 / 10 ^ l"
    by (simp_all add: power_int_def field_simps nat_add_distrib)
  ultimately show ?thesis unfolding e by simp
qed

definition is_f64 :: "rat \<Rightarrow> bool" where
  "is_f64 x \<longleftrightarrow> 0 \<le> x \<and> f64_round x = x \<and> x < 2 ^ 1024"

lemma is_f64_grid:
  assumes "is_f64 x" "0 < x" shows "\<exists>m. 0 < m \<and> x = of_int m * 2 powi f64_scale x" "-1074 \<le> f64_scale x"
proof -
  have x: "x = of_int (rne (x / 2 powi f64_scale x)) * 2 powi f64_scale x"
    using assms f64_round_pos [OF assms(2)] by (simp add: is_f64_def)
  moreover have "0 < rne (x / 2 powi f64_scale x)"
  proof (rule ccontr)
    assume "\<not> ?thesis"
    then have "x \<le> 0" by (subst x) (simp add: mult_le_0_iff)
    then show False using assms(2) by simp
  qed
  ultimately show "\<exists>m. 0 < m \<and> x = of_int m * 2 powi f64_scale x" by blast
  show "-1074 \<le> f64_scale x" by (simp add: f64_scale_def)
qed

lemma is_f64_exponent:
  assumes "is_f64 x" "0 < x" shows "-324 \<le> floor_log10 x" "floor_log10 x \<le> 308"
proof -
  obtain m where m: "0 < m" "x = of_int m * 2 powi f64_scale x" using is_f64_grid(1) [OF assms] by blast
  have "(2::rat) powi (-1074) \<le> 2 powi f64_scale x" using is_f64_grid(2) [OF assms] by (rule powi2_mono)
  also have "\<dots> \<le> of_int m * 2 powi f64_scale x" 
    using m(1) mult_right_mono [of 1 "of_int m" "(2::rat) powi f64_scale x"] by simp
  finally have "(2::rat) powi (-1074) \<le> x" using m(2) by simp
  moreover have "(10::rat) powi (-324) < 2 powi (-1074)" by (simp add: power_int_minus field_simps)
  ultimately have "(10::rat) powi (-324) < 10 powi (floor_log10 x + 1)"
    using floor_log10_bounds [OF assms(2)] by linarith
  then show "-324 \<le> floor_log10 x" using powi10_less by fastforce
  have "(2::rat) ^ 1024 < 10 powi 309" by (simp add: power_int_def)
  then have "10 powi (floor_log10 x) < (10::rat) powi 309"
    using floor_log10_bounds [OF assms(2)] assms(1) unfolding is_f64_def by linarith
  then show "floor_log10 x \<le> 308" using powi10_less by fastforce
qed

lemma dec_at_value:
  assumes "dec_at x k = Some m" "0 < x"
  shows "f64_round (of_nat m * 10 powi k) = x \<and> \<lfloor>x / 10 powi k\<rfloor> \<le> int m \<and> int m \<le> \<lfloor>x / 10 powi k\<rfloor> + 1"
proof -
  have "0 \<le> \<lfloor>x / 10 powi k\<rfloor>" using assms(2) by simp
  then show ?thesis using assms(1) by (auto simp: dec_at_def Let_def split: if_splits)
qed

lemma dec_at_exact:
  assumes "0 < x" "x = of_int q * 10 powi k" "f64_round x = x" shows "dec_at x k \<noteq> None"
proof -
  have "x / 10 powi k = of_int q" by (subst assms(2)) simp
  then show ?thesis using assms(2,3) by (simp add: dec_at_def Let_def)
qed

lemma trim_zeros_value:
  "trim_zeros m k = (m', k') \<Longrightarrow> of_nat m' * (10::rat) powi k' = of_nat m * 10 powi k"
  "trim_zeros m k = (m', k') \<Longrightarrow> 0 < m \<Longrightarrow> 0 < m'
     \<and> int (length (nat_digits m')) + k' = int (length (nat_digits m)) + k"
proof (induction m k rule: trim_zeros.induct)
  case (1 m k)
  {
    case 1
    show ?case
    proof (cases "0 < m \<and> m mod 10 = 0")
      case True
      then have m: "m = 10 * (m div 10)" by presburger
      have "of_nat m' * (10::rat) powi k' = of_nat (m div 10) * 10 powi (k + 1)"
        using "1.IH"(1) [OF True] 1 True by (simp add: trim_zeros.simps [of m])
      also have "\<dots> = of_nat (10 * (m div 10)) * 10 powi k" by (simp add: power_int_add)
      finally show ?thesis using m by simp
    next
      case False
      then have "trim_zeros m k = (m, k)" unfolding trim_zeros.simps [of m k] by (rule if_not_P)
      then show ?thesis using 1 by simp
    qed
  next
    case 2
    show ?case
    proof (cases "0 < m \<and> m mod 10 = 0")
      case True
      then have "\<not> m < 10" "0 < m div 10" by auto
      then show ?thesis
        using "1.IH"(2) [OF True] 2 True by (simp add: trim_zeros.simps [of m] nat_digits.simps [of m])
    next
      case False
      then have "trim_zeros m k = (m, k)" unfolding trim_zeros.simps [of m k] by (rule if_not_P)
      then show ?thesis using 2 by simp
    qed
  }
qed


lemma dec_at_length:
  assumes "dec_at x (e - int n) = Some m" "0 < x" "e = floor_log10 x"
  shows "e + 1 \<le> int (length (nat_digits m)) + (e - int n)" "int (length (nat_digits m)) + (e - int n) \<le> e + 2" "0 < m"
proof -
  let ?q = "\<lfloor>x / 10 powi (e - int n)\<rfloor>"
  have b: "10 powi e \<le> x" "x < 10 powi (e + 1)" using floor_log10_bounds [OF assms(2)] assms(3) by simp_all
  have s: "(10::rat) powi e / 10 powi (e - int n) = 10 ^ n" "(10::rat) powi (e + 1) / 10 powi (e - int n) = 10 ^ Suc n"
    by (simp_all add: power_int_diff power_int_add)
  have "10 ^ n \<le> x / 10 powi (e - int n)" "x / 10 powi (e - int n) < 10 ^ Suc n"
    using divide_right_mono [OF b(1), of "10 powi (e - int n)"] divide_strict_right_mono [OF b(2), of "10 powi (e - int n)"]
    unfolding s by simp_all
  then have "of_int (10 ^ n) \<le> x / 10 powi (e - int n)" "x / 10 powi (e - int n) < of_int (10 ^ Suc n)" by simp_all
  then have "10 ^ n \<le> ?q" "?q < 10 ^ Suc n" by (simp_all only: le_floor_iff floor_less_iff)
  then have "(10::int) ^ n \<le> int m" "int m \<le> 10 ^ Suc n"
    using dec_at_value [OF assms(1,2)] by linarith+
  then have m: "10 ^ n \<le> m" "m \<le> 10 ^ Suc n" by (metis of_nat_le_iff of_nat_power of_nat_numeral)+
  show p: "0 < m" by (rule less_le_trans [OF _ m(1)]) simp
  have "(10::nat) ^ n < 10 ^ length (nat_digits m)" using m(1) nat_digits_facts [of m] by linarith
  then show "e + 1 \<le> int (length (nat_digits m)) + (e - int n)" by simp
  have "(10::nat) ^ (length (nat_digits m) - 1) \<le> 10 ^ Suc n" using m(2) nat_digits_facts [of m] p by (meson order_trans)
  then have "length (nat_digits m) - 1 \<le> Suc n" by (rule power_le_imp_le_exp [rotated]) simp
  then show "int (length (nat_digits m)) + (e - int n) \<le> e + 2" by linarith
qed

lemma powi2_decimal: "(2::rat) powi (- int n) = 5 ^ n * 10 powi (- int n)"
proof -
  have "(10::rat) ^ n = 2 ^ n * 5 ^ n" by (simp add: power_mult_distrib [symmetric])
  then show ?thesis by (simp add: power_int_minus field_simps)
qed

lemma shortest_facts:
  assumes "is_f64 x" "0 < x" "shortest x = (m, k)"
  shows "f64_round (of_nat m * 10 powi k) = x" "0 < m" "-400 \<le> int (length (nat_digits m)) + k"
    "int (length (nat_digits m)) + k \<le> 400"
proof -
  define e where "e = floor_log10 x"
  have eb: "-324 \<le> e" "e \<le> 308" using is_f64_exponent [OF assms(1,2)] by (simp_all add: e_def)
  obtain j where j: "x = of_int j * 2 powi f64_scale x" using is_f64_grid(1) [OF assms(1,2)] by blast
  define s where "s = nat (f64_scale x + 1074)"
  have sc: "f64_scale x = int s + (-1074)" using is_f64_grid(2) [OF assms(1,2)] by (simp add: s_def)
  note j
  also have "(2::rat) powi f64_scale x = 2 ^ s * 2 powi (-1074)"
    unfolding sc by (subst power_int_add, simp, simp only: power_int_of_nat)
  also have "(2::rat) powi (-1074) = 5 ^ 1074 * 10 powi (-1074)"
    using powi2_decimal [of 1074] by (simp only: of_nat_numeral)
  finally have x: "x = of_int (j * 2 ^ s * 5 ^ 1074) * 10 powi (-1074)" by (simp only: of_int_mult of_int_power of_int_numeral mult.assoc)
  define n where "n = nat (e + 1074)"
  have n: "e - int n = -1074" "n < 1400" using eb by (simp_all add: n_def)
  have "dec_at x (e - int n) \<noteq> None"
    unfolding n(1) using assms(1,2) x by (intro dec_at_exact [where q = "j * 2 ^ s * 5 ^ 1074"]) (simp_all only: is_f64_def)
  then have "find (\<lambda>n. dec_at x (e - int n) \<noteq> None) [0..<1400] \<noteq> None"
    using n(2) by (auto simp: find_None_iff)
  then obtain i where i: "find (\<lambda>n. dec_at x (e - int n) \<noteq> None) [0..<1400] = Some i" by blast
  then obtain m0 where m0: "dec_at x (e - int i) = Some m0" by (auto simp: find_Some_iff)
  have t: "trim_zeros m0 (e - int i) = (m, k)" using assms(3) i m0 by (simp add: shortest_def e_def [symmetric])
  note l = dec_at_length [OF m0 assms(2) e_def]
  show "f64_round (of_nat m * 10 powi k) = x"
    using dec_at_value [OF m0 assms(2)] trim_zeros_value(1) [OF t] by simp
  show "0 < m" "-400 \<le> int (length (nat_digits m)) + k" "int (length (nat_digits m)) + k \<le> 400"
    using trim_zeros_value(2) [OF t l(3)] l eb by auto
qed

lemma exp_digits_nat: "n < 100000 \<Longrightarrow> exp_digits (nat_digits n) = int n"
proof (induction n rule: nat_digits.induct)
  case (1 n)
  show ?case
  proof (cases "n < 10")
    case True
    then show ?thesis using dig_char_facts [OF True] by (simp add: nat_digits.simps exp_digits_def)
  next
    case False
    have "exp_digits (nat_digits (n div 10)) = int (n div 10)" using 1 False by simp
    moreover have "int (n div 10) < 10000" using 1(2) by simp
    moreover have "10 * int (n div 10) + int (n mod 10) = int n" by presburger
    ultimately show ?thesis using dig_char_facts [of "n mod 10"] False
      by (simp add: nat_digits.simps [of n] exp_digits_def)
  qed
qed

lemma exp_digits_zero: "exp_digits (CHR ''0'' # s) = exp_digits s"
  by (simp add: exp_digits_def dig_val_def)

lemma fmt_f_shape:
  assumes "ds \<noteq> []" "list_all is_dig ds" "hd ds \<noteq> CHR ''0''"
  shows "\<exists>i f. fmt_f ds dp = i @ (if f = [] then [] else CHR ''.'' # f) \<and> list_all is_dig f
     \<and> (i = ''0'' \<or> i \<noteq> [] \<and> list_all is_dig i \<and> hd i \<noteq> CHR ''0'')
     \<and> of_nat (digits_val (i @ f)) * (10::rat) powi (- int (length f))
       = of_nat (digits_val ds) * 10 powi (dp - int (length ds))"
proof -
  have z: "list_all is_dig (replicate n (CHR ''0''))" for n by (simp add: list_all_length is_dig_def)
  consider "dp \<le> 0" | "0 < dp" "dp < int (length ds)" | "0 < dp" "int (length ds) \<le> dp" by linarith
  then show ?thesis
  proof cases
    case 1
    let ?f = "replicate (nat (- dp)) (CHR ''0'') @ ds"
    have "fmt_f ds dp = ''0'' @ (if ?f = [] then [] else CHR ''.'' # ?f)"
      using 1 assms(1) by (cases ds) (auto simp: fmt_f_def)
    moreover have "digits_val (''0'' @ ?f) = digits_val ds"
      using digits_val_append [of "''0''" ?f] digits_val_append [of "replicate (nat (- dp)) (CHR ''0'')" ds]
        digits_val_snoc [of "[]" "CHR ''0''"] by (simp add: digits_val_zeros dig_val_def)
    moreover have "- int (length ?f) = dp - int (length ds)" using 1 by simp
    moreover have "list_all is_dig ?f" using z assms(2) by simp
    ultimately show ?thesis by - (rule exI [of _ "''0''"], rule exI [of _ ?f], simp only: simp_thms)
  next
    case 2
    let ?i = "take (nat dp) ds" and ?f = "drop (nat dp) ds"
    have n: "0 < nat dp" "nat dp < length ds" "length ?f \<noteq> 0" using 2 by auto
    have f: "fmt_f ds dp = ?i @ (if ?f = [] then [] else CHR ''.'' # ?f)"
      using 2 n by (simp add: fmt_f_def)
    have l: "- int (length ?f) = dp - int (length ds)" using 2 by simp
    have d: "list_all is_dig ?f" "?i \<noteq> []" "list_all is_dig ?i" "hd ?i \<noteq> CHR ''0''"
      using n assms by (auto simp: list_all_iff dest: in_set_takeD in_set_dropD)
    show ?thesis
      by - (rule exI [of _ ?i], rule exI [of _ ?f], simp only: f l d append_take_drop_id simp_thms)
  next
    case 3
    let ?i = "ds @ replicate (nat dp - length ds) (CHR ''0'')"
    have f: "fmt_f ds dp = ?i" using 3 by (simp add: fmt_f_def)
    have d: "?i \<noteq> []" "list_all is_dig ?i" "hd ?i \<noteq> CHR ''0''" using assms z by auto
    have "of_nat (digits_val ?i) = of_nat (digits_val ds) * (10::rat) powi (dp - int (length ds))"
      using 3 by (simp add: digits_val_append digits_val_zeros powi10_nat nat_diff_distrib)
    then show ?thesis using f d by - (rule exI [of _ ?i], rule exI [of _ "[]"], simp)
  qed
qed

lemma fmt_e_shape:
  assumes "ds \<noteq> []" "list_all is_dig ds" "hd ds \<noteq> CHR ''0''" "-400 \<le> dp" "dp \<le> 400"
  shows "\<exists>p d. fmt_e ds dp = take 1 ds @ (if drop 1 ds = [] then [] else CHR ''.'' # drop 1 ds) @ CHR ''e'' # p # d
     \<and> (p = CHR ''+'' \<or> p = CHR ''-'') \<and> d \<noteq> [] \<and> list_all is_dig d
     \<and> exp_of (CHR ''e'' # p # d) = dp - 1"
proof (cases "dp - 1 < 0")
  case True
  have "exp_digits (nat_digits (nat (1 - dp))) = 1 - dp" using exp_digits_nat [of "nat (1 - dp)"] assms(4) True by simp
  then show ?thesis using True nat_digits_facts [of "nat (1 - dp)"] assms(1)
    by - (rule exI [of _ "CHR ''-''"], rule exI [of _ "nat_digits (nat (1 - dp))"], simp add: fmt_e_def exp_of_def)
next
  case False
  let ?d = "(if dp - 1 < 10 then ''0'' else []) @ nat_digits (nat (dp - 1))"
  have "exp_digits ?d = dp - 1"
    using exp_digits_nat [of "nat (dp - 1)"] assms(5) False by (simp add: exp_digits_zero)
  moreover have "list_all is_dig ?d" using nat_digits_facts [of "nat (dp - 1)"] by (simp add: is_dig_def)
  moreover have "?d \<noteq> []" using nat_digits_facts [of "nat (dp - 1)"] by simp
  ultimately show ?thesis using False assms(1)
    by - (rule exI [of _ "CHR ''+''"], rule exI [of _ ?d], simp add: fmt_e_def exp_of_def)
qed

theorem FormatFloat_round_trip:
  assumes "is_f64 x"
  shows "num_lit (FormatFloat (neg, x)) \<and> ParseFloat (FormatFloat (neg, x)) = Some (neg, x)"
proof (cases "x = 0")
  case True
  have "FormatFloat (neg, x) = (if neg then ''-'' else []) @ ''0'' @ (if [] = [] then [] else CHR ''.'' # []) @ []"
    using True by (simp add: FormatFloat_def)
  from literal_shape [OF _ _ _ this] have "num_lit (FormatFloat (neg, x))" "num_parts (FormatFloat (neg, x)) = (neg, ''0'', [], [])"
    by simp_all
  then show ?thesis using True digits_val_snoc [of "[]" "CHR ''0''"]
    by (simp add: ParseFloat_def lit_value_def dig_val_def)
next
  case False
  then have x: "0 < x" "x < 2 ^ 1024" using assms by (auto simp: is_f64_def)
  obtain m k where s: "shortest x = (m, k)" by (cases "shortest x")
  note sf = shortest_facts [OF assms x(1) s]
  define ds where "ds = nat_digits m"
  define dp where "dp = int (length ds) + k"
  have ds: "ds \<noteq> []" "list_all is_dig ds" "hd ds \<noteq> CHR ''0''" "digits_val ds = m"
    using nat_digits_facts [of m] sf(2) by (auto simp: ds_def)
  have k: "dp - int (length ds) = k" by (simp add: dp_def)
  have "\<exists>i f x'. FormatFloat (neg, x) = (if neg then ''-'' else []) @ i @ (if f = [] then [] else CHR ''.'' # f) @ x'
     \<and> (i = ''0'' \<or> i \<noteq> [] \<and> list_all is_dig i \<and> hd i \<noteq> CHR ''0'') \<and> list_all is_dig f
     \<and> (x' = [] \<or> (\<exists>p d. x' = CHR ''e'' # p # d \<and> (p = CHR ''+'' \<or> p = CHR ''-'') \<and> d \<noteq> [] \<and> list_all is_dig d))
     \<and> of_nat (digits_val (i @ f)) * (10::rat) powi (exp_of x' - int (length f)) = of_nat m * 10 powi k"
  proof (cases "x < 1 / 10 ^ 6 \<or> 10 ^ 21 \<le> x")
    case True
    obtain p d where e: "fmt_e ds dp = take 1 ds @ (if drop 1 ds = [] then [] else CHR ''.'' # drop 1 ds) @ CHR ''e'' # p # d"
      "p = CHR ''+'' \<or> p = CHR ''-''" "d \<noteq> []" "list_all is_dig d" "exp_of (CHR ''e'' # p # d) = dp - 1"
      using fmt_e_shape [OF ds(1-3) sf(3,4) [folded ds_def, folded dp_def]] by blast
    have "FormatFloat (neg, x) = (if neg then ''-'' else []) @ fmt_e ds dp"
      using True False s by (simp add: FormatFloat_def ds_def dp_def Let_def)
    moreover have "dp - 1 - int (length (drop 1 ds)) = k" using ds(1) by (cases ds) (auto simp: dp_def)
    moreover have "take 1 ds \<noteq> []" "list_all is_dig (take 1 ds)" "hd (take 1 ds) \<noteq> CHR ''0''" "list_all is_dig (drop 1 ds)"
      using ds(1-3) by (cases ds; simp)+
    ultimately show ?thesis using e ds(4)
      by - (rule exI [of _ "take 1 ds"], rule exI [of _ "drop 1 ds"], rule exI [of _ "CHR ''e'' # p # d"], simp only: append_take_drop_id, blast)
  next
    case F: False
    obtain i f where i: "fmt_f ds dp = i @ (if f = [] then [] else CHR ''.'' # f)" "list_all is_dig f"
      "i = ''0'' \<or> i \<noteq> [] \<and> list_all is_dig i \<and> hd i \<noteq> CHR ''0''"
      "of_nat (digits_val (i @ f)) * (10::rat) powi (- int (length f)) = of_nat m * 10 powi k"
      using fmt_f_shape [OF ds(1-3), of dp] unfolding ds(4) k by blast
    have "FormatFloat (neg, x) = (if neg then ''-'' else []) @ fmt_f ds dp"
      using F False s by (simp add: FormatFloat_def ds_def dp_def Let_def)
    moreover have "exp_of [] - int (length f) = - int (length f)" by (simp add: exp_of_def)
    ultimately show ?thesis using i
      by - (rule exI [of _ i], rule exI [of _ f], rule exI [of _ "[]"], simp only: append_Nil2 simp_thms)
  qed
  then obtain i f x' where t: "FormatFloat (neg, x) = (if neg then ''-'' else []) @ i @ (if f = [] then [] else CHR ''.'' # f) @ x'"
     "i = ''0'' \<or> i \<noteq> [] \<and> list_all is_dig i \<and> hd i \<noteq> CHR ''0''" "list_all is_dig f"
     "x' = [] \<or> (\<exists>p d. x' = CHR ''e'' # p # d \<and> (p = CHR ''+'' \<or> p = CHR ''-'') \<and> d \<noteq> [] \<and> list_all is_dig d)"
     "of_nat (digits_val (i @ f)) * (10::rat) powi (exp_of x' - int (length f)) = of_nat m * 10 powi k" by blast
  note sh = literal_shape [OF t(2-4) t(1)]
  have "lit_value (FormatFloat (neg, x)) = (neg, of_nat m * 10 powi k)"
    using sh t(5) by (simp only: lit_value_def prod.case)
  then show ?thesis using sh sf(1) x(2) by (simp add: ParseFloat_def)
qed

text \<open>Rounding a rounded value changes nothing, so every parsed number is a float64.\<close>

lemma ParseFloat_is_f64: "ParseFloat t = Some (neg, x) \<Longrightarrow> is_f64 x"
proof -
  assume p: "ParseFloat t = Some (neg, x)"
  obtain v where v: "lit_value t = (neg, v)" "x = f64_round v" "x < 2 ^ 1024"
    using p by (auto simp: ParseFloat_def split: prod.splits if_splits)
  have "0 \<le> v" using v(1) by (auto simp: lit_value_def split: prod.splits)
  then show ?thesis using v(2,3) f64_round_idem f64_round_nonneg by (simp add: is_f64_def)
qed

end
