(* ===== verification/Go_Json_Any.thy ===== *)
theory Go_Json_Any
  imports Go_Float_Text Go_Json_Strings "HOL-Library.Char_ord" "HOL-Library.List_Lexorder"
begin

text \<open>
  JSON through Go's \<open>any\<close>: decoding turns every number into a float64 and every
  object into a map, printing sorts the keys and prints the shortest decimal.
  A map is the association list in increasing key order, so equal maps are
  equal lists.  \<open>AInt\<close> and \<open>AOther\<close> are what only a YAML file supplies: an integer, and a value
  \<open>json.Marshal\<close> refuses.
\<close>

datatype any = ANil | ABool bool | AFloat bool rat | AInt int | AStr string | AArr "any list"
  | AMap "(string \<times> any) list" | AOther

fun map_put :: "string \<Rightarrow> 'v \<Rightarrow> (string \<times> 'v) list \<Rightarrow> (string \<times> 'v) list" where
  "map_put k v [] = [(k, v)]"
| "map_put k v ((l, w) # m) =
     (if k = l then (k, v) # m else if k < l then (k, v) # (l, w) # m else (l, w) # map_put k v m)"

definition map_from :: "(string \<times> 'v) list \<Rightarrow> (string \<times> 'v) list" where
  "map_from ms = foldl (\<lambda>m (k, v). map_put k v m) [] ms"

primrec decode_any :: "json \<Rightarrow> any" where
  "decode_any JNull = ANil"
| "decode_any (JBool b) = ABool b"
| "decode_any (JNum t) = (case ParseFloat t of Some (neg, x) \<Rightarrow> AFloat neg x | None \<Rightarrow> AOther)"
| "decode_any (JStr t) = AStr (unquote t)"
| "decode_any (JArr vs) = AArr (map decode_any vs)"
| "decode_any (JObj ms) = AMap (map_from (map (map_prod unquote id) (map (map_prod id decode_any) ms)))"

text \<open>Decoding fails exactly when some number is out of the range of a float64.\<close>

primrec floats_ok :: "json \<Rightarrow> bool" where
  "floats_ok JNull = True"
| "floats_ok (JBool b) = True"
| "floats_ok (JNum t) = (ParseFloat t \<noteq> None)"
| "floats_ok (JStr t) = True"
| "floats_ok (JArr vs) = list_all (\<lambda>b. b) (map floats_ok vs)"
| "floats_ok (JObj ms) = list_all (\<lambda>(k, b). b) (map (map_prod id floats_ok) ms)"

primrec marshals :: "any \<Rightarrow> bool" where
  "marshals ANil = True"
| "marshals (ABool b) = True"
| "marshals (AFloat neg x) = is_f64 x"
| "marshals (AInt n) = True"
| "marshals (AStr s) = True"
| "marshals (AArr vs) = list_all (\<lambda>b. b) (map marshals vs)"
| "marshals (AMap ms) = list_all (\<lambda>(k, b). b) (map (map_prod id marshals) ms)"
| "marshals AOther = False"

definition int_text :: "int \<Rightarrow> string" where
  "int_text n = (if n < 0 then CHR ''-'' # nat_digits (nat (- n)) else nat_digits (nat n))"

primrec encode_any :: "any \<Rightarrow> json" where
  "encode_any ANil = JNull"
| "encode_any (ABool b) = JBool b"
| "encode_any (AFloat neg x) = JNum (FormatFloat (neg, x))"
| "encode_any (AInt n) = JNum (int_text n)"
| "encode_any (AStr s) = JStr (quote_string s)"
| "encode_any (AArr vs) = JArr (map encode_any vs)"
| "encode_any (AMap ms) = JObj (map (map_prod quote_string id) (map (map_prod id encode_any) ms))"
| "encode_any AOther = JNull"

lemma any_induct [case_names ANil ABool AFloat AInt AStr AArr AMap AOther]:
  assumes "P ANil" "\<And>b. P (ABool b)" "\<And>n x. P (AFloat n x)" "\<And>n. P (AInt n)" "\<And>s. P (AStr s)"
    "\<And>vs. (\<And>v. v \<in> set vs \<Longrightarrow> P v) \<Longrightarrow> P (AArr vs)"
    "\<And>ms. (\<And>kv. kv \<in> set ms \<Longrightarrow> P (snd kv)) \<Longrightarrow> P (AMap ms)" "P AOther"
  shows "P a"
proof (induction a)
  case (AArr vs)
  then show ?case using assms(6) by blast
next
  case (AMap ms)
  then show ?case using assms(7) by (metis snds.intros)
qed (use assms in auto)

text \<open>The values decoding produces: float64 numbers, valid UTF-8, keys in strictly increasing order.\<close>

primrec any_ok :: "any \<Rightarrow> bool" where
  "any_ok ANil = True"
| "any_ok (ABool b) = True"
| "any_ok (AFloat neg x) = is_f64 x"
| "any_ok (AInt n) = False"
| "any_ok (AStr s) = (utf8_coerce s = s)"
| "any_ok (AArr vs) = list_all (\<lambda>b. b) (map any_ok vs)"
| "any_ok (AMap ms) = (sorted_wrt (<) (map fst ms)
     \<and> list_all (\<lambda>(k, b). utf8_coerce k = k \<and> b) (map (map_prod id any_ok) ms))"
| "any_ok AOther = False"

lemma any_containers [simp]:
  "floats_ok (JArr vs) \<longleftrightarrow> (\<forall>v \<in> set vs. floats_ok v)"
  "floats_ok (JObj ms) \<longleftrightarrow> (\<forall>kv \<in> set ms. floats_ok (snd kv))"
  "marshals (AArr as) \<longleftrightarrow> (\<forall>v \<in> set as. marshals v)"
  "marshals (AMap am) \<longleftrightarrow> (\<forall>kv \<in> set am. marshals (snd kv))"
  "any_ok (AArr as) \<longleftrightarrow> (\<forall>v \<in> set as. any_ok v)"
  "any_ok (AMap am) \<longleftrightarrow> sorted_wrt (<) (map fst am) \<and> (\<forall>kv \<in> set am. utf8_coerce (fst kv) = fst kv \<and> any_ok (snd kv))"
  "decode_any (JObj ms) = AMap (map_from (map (map_prod unquote decode_any) ms))"
  "encode_any (AMap am) = JObj (map (map_prod quote_string encode_any) am)"
  by (auto simp: list_all_iff map_prod_def split_def comp_def)

declare floats_ok.simps(5,6) [simp del] marshals.simps(6,7) [simp del] any_ok.simps(6,7) [simp del]
  decode_any.simps(6) [simp del] encode_any.simps(7) [simp del]

section \<open>Maps\<close>

lemma map_of_map_put: "sorted_wrt (<) (map fst m) \<Longrightarrow> map_of (map_put k v m) = (map_of m)(k \<mapsto> v)"
  by (induction k v m rule: map_put.induct) (auto simp: fun_eq_iff)

lemma set_map_put: "set (map_put k v m) \<subseteq> insert (k, v) (set m)"
  by (induction k v m rule: map_put.induct) auto

lemma keys_map_put: "fst ` set (map_put k v m) = insert k (fst ` set m)"
  by (induction k v m rule: map_put.induct) auto

lemma sorted_map_put: "sorted_wrt (<) (map fst m) \<Longrightarrow> sorted_wrt (<) (map fst (map_put k v m))"
proof (induction k v m rule: map_put.induct)
  case (2 k v l w m)
  then show ?case using keys_map_put [of k v m] by (auto simp: image_iff) 
qed simp

lemma map_from_snoc: "map_from (ms @ [(k, v)]) = map_put k v (map_from ms)"
  by (simp add: map_from_def)

lemma map_from_facts:
  "sorted_wrt (<) (map fst (map_from ms))" "set (map_from ms) \<subseteq> set ms" "map_of (map_from ms) = map_of (rev ms)"
proof -
  have "sorted_wrt (<) (map fst (map_from ms)) \<and> set (map_from ms) \<subseteq> set ms \<and> map_of (map_from ms) = map_of (rev ms)"
  proof (induction ms rule: rev_induct)
    case (snoc kv ms)
    obtain k v where kv: "kv = (k, v)" by (cases kv)
    show ?case using snoc sorted_map_put [of "map_from ms" k v] set_map_put [of k v "map_from ms"]
        map_of_map_put [of "map_from ms" k v]
      unfolding kv map_from_snoc by auto
  qed (simp add: map_from_def)
  then show "sorted_wrt (<) (map fst (map_from ms))" "set (map_from ms) \<subseteq> set ms" "map_of (map_from ms) = map_of (rev ms)"
    by simp_all
qed

lemma map_put_last: "\<forall>l \<in> fst ` set m. l < k \<Longrightarrow> map_put k v m = m @ [(k, v)]"
  by (induction k v m rule: map_put.induct) auto

lemma map_from_sorted: "sorted_wrt (<) (map fst ms) \<Longrightarrow> map_from ms = ms"
proof (induction ms rule: rev_induct)
  case (snoc kv ms)
  obtain k v where kv: "kv = (k, v)" by (cases kv)
  show ?case using snoc unfolding kv map_from_snoc by (simp add: sorted_wrt_append map_put_last)
qed (simp add: map_from_def)

section \<open>The round trip\<close>

lemma int_text_lit: "num_lit (int_text n)"
proof -
  define m where "m = nat \<bar>n\<bar>"
  let ?i = "if m = 0 then ''0'' else nat_digits m"
  have "nat_digits 0 = ''0''" using dig_char_zero [of 0] by (simp add: nat_digits.simps)
  then have t: "int_text n = (if n < 0 then ''-'' else []) @ ?i @ (if [] = [] then [] else CHR ''.'' # []) @ []"
    by (auto simp: int_text_def m_def)
  show ?thesis using literal_shape [OF _ _ _ t] nat_digits_facts [of m] by simp
qed

lemma encode_any_ok: "marshals a \<Longrightarrow> json_ok (encode_any a)"
  by (induction a rule: any_induct)
    (auto simp: FormatFloat_round_trip int_text_lit unquote_quote_string)

lemma any_ok_marshals: "any_ok a \<Longrightarrow> marshals a"
  by (induction a rule: any_induct) auto

theorem decode_encode_any: "any_ok a \<Longrightarrow> decode_any (encode_any a) = a \<and> floats_ok (encode_any a)"
proof (induction a rule: any_induct)
  case (AArr vs)
  then show ?case by (auto simp: map_idI)
next
  case (AMap ms)
  have "map_prod unquote decode_any (map_prod quote_string encode_any kv) = kv" if "kv \<in> set ms" for kv
    using AMap that by (cases kv) (force simp: unquote_quote_string)
  then have "map (map_prod unquote decode_any) (map (map_prod quote_string encode_any) ms) = ms"
    by (simp add: map_idI)
  then show ?case using AMap by (auto simp: map_from_sorted simp del: map_map)
qed (auto simp: FormatFloat_round_trip unquote_quote_string)

lemma decode_any_ok: "json_ok v \<Longrightarrow> floats_ok v \<Longrightarrow> any_ok (decode_any v)"
proof (induction v rule: json_induct)
  case (JNum t)
  then show ?case by (auto simp: ParseFloat_is_f64)
next
  case (JObj ms)
  let ?us = "map (map_prod unquote decode_any) ms"
  have "utf8_coerce (fst kv) = fst kv \<and> any_ok (snd kv)" if "kv \<in> set ?us" for kv
    using that JObj by (auto simp: unquote_wellformed)
  then have "\<forall>kv \<in> set (map_from ?us). utf8_coerce (fst kv) = fst kv \<and> any_ok (snd kv)"
    using map_from_facts(2) [of ?us] by blast
  then show ?case using map_from_facts(1) [of ?us] by simp
qed (auto simp: unquote_wellformed)

text \<open>Reading and printing again nests no deeper.\<close>

lemma reencode_depth: "json_depth (encode_any (decode_any v)) \<le> json_depth v"
proof (induction v rule: json_induct)
  case (JNum t)
  then show ?case by (simp split: option.splits prod.splits)
next
  case (JArr vs)
  have "json_depth (JArr (map (encode_any \<circ> decode_any) vs)) \<le> Suc (json_depth (JArr vs) - 1)"
  proof (rule depth_le(1))
    fix w assume "w \<in> set (map (encode_any \<circ> decode_any) vs)"
    then obtain v where v: "v \<in> set vs" "w = encode_any (decode_any v)" by auto
    show "json_depth w \<le> json_depth (JArr vs) - 1"
      using JArr [OF v(1)] depth_member(1) [OF v(1)] unfolding v(2) by linarith
  qed
  then show ?case by (simp add: comp_def)
next
  case (JObj ms)
  let ?us = "map (map_prod unquote decode_any) ms"
  have "json_depth (JObj (map (map_prod quote_string encode_any) (map_from ?us))) \<le> Suc (json_depth (JObj ms) - 1)"
  proof (rule depth_le(2))
    fix kv assume "kv \<in> set (map (map_prod quote_string encode_any) (map_from ?us))"
    then obtain ku where u: "ku \<in> set (map_from ?us)" "snd kv = encode_any (snd ku)" by auto
    then obtain km where m: "km \<in> set ms" "snd ku = decode_any (snd km)" using map_from_facts(2) [of ?us] by auto
    show "json_depth (snd kv) \<le> json_depth (JObj ms) - 1"
      using JObj [OF m(1)] depth_member(2) [OF m(1)] u(2) m(2) by simp
  qed
  then show ?case by simp
qed simp_all

end
