(* ===== verification/Pii_Route.thy ===== *)
theory Pii_Route
  imports Go_Regexp Go_Json_Any Node_Select
begin

text \<open>
  The detector of personal payloads, \<open>internal/piiroute/piiroute.go\<close>: its expressions, the two
  checksums that confirm a card or tax file number, and the second pass over the strings of a
  JSON body.  The rule's arming and the selection predicate are in \<open>Node_Select\<close>.
\<close>

section \<open>The expressions\<close>

definition phone_sep :: regex where "phone_sep = opt (Cls (\<lambda>r. perl_space r \<or> one_of ''.-'' r))"

definition email_local :: "string \<Rightarrow> bool" where
  "email_local r \<longleftrightarrow> any_letter r \<or> range_of (CHR ''0'') (CHR ''9'') r \<or> one_of [CHR ''.'', CHR ''_'', CHR ''%'', CHR ''+'', CHR ''-'', CHR 0x22] r"
definition email_domain :: "string \<Rightarrow> bool" where
  "email_domain r \<longleftrightarrow> any_letter r \<or> range_of (CHR ''0'') (CHR ''9'') r \<or> one_of ''.-'' r"

definition emailRe :: regex where
  "emailRe = Seq (plus (Cls email_local)) (Seq (Cls (\<lambda>r. r = ''@'')) (Seq (plus (Cls email_domain))
     (Seq (Cls (\<lambda>r. r = ''.'')) (at_least 2 (Cls any_letter)))))"

definition auPhoneRe :: regex where
  "auPhoneRe = alts
     [seqs [lit ''+61'', phone_sep, lit ''4'', exactly 2 digit, phone_sep, exactly 3 digit, phone_sep, exactly 3 digit],
      seqs [WordB, lit ''04'', exactly 2 digit, phone_sep, exactly 3 digit, phone_sep, exactly 3 digit],
      seqs [alts [seqs [lit ''+61'', phone_sep],
                  seqs [lit ''(0'', Cls (range_of (CHR ''2'') (CHR ''8'')), lit '')'', phone_sep],
                  seqs [WordB, lit ''0'', Cls (one_of ''2378''), phone_sep]],
            exactly 4 digit, phone_sep, exactly 4 digit]]"

definition cardCandidateRe :: regex where
  "cardCandidateRe =
     (let sp = opt (Cls perl_space)
      in alts [seqs [WordB, between 12 19 (Seq digit phone_sep), WordB],
               seqs [WordB, exactly 3 digit, sp, exactly 3 digit, sp, exactly 3 digit, WordB],
               seqs [WordB, exactly 2 digit, sp, exactly 3 digit, sp, exactly 3 digit, WordB]])"

definition keyword :: "regex list \<Rightarrow> regex" where "keyword ws = seqs [WordB, alts ws, WordB]"

definition cardKeywordRe :: regex where
  "cardKeywordRe = keyword (map lit_fold [''card'', ''visa'', ''mastercard'', ''amex'', ''pan'', ''payment''])"

definition tfnKeywordRe :: regex where
  "tfnKeywordRe = keyword [lit_fold ''tfn'', seqs [lit_fold ''tax'', plus (Cls posix_space), lit_fold ''file'']]"

definition addressRe :: regex where
  "addressRe = seqs [WordB, between 1 4 digit, plus (Cls perl_space), Cls any_letter, plus (Cls any_letter), Cls perl_space,
     alts (map lit_fold [''st'', ''street'', ''rd'', ''road'', ''ave'', ''avenue'', ''dr'', ''drive'', ''ln'', ''lane'', ''ct'',
       ''court'', ''blvd'', ''parade'', ''pde'']), WordB]"

definition postcodeRe :: regex where
  "postcodeRe = seqs [WordB, alts (map lit_fold [''NSW'', ''VIC'', ''QLD'', ''WA'', ''SA'', ''TAS'', ''NT'', ''ACT'']),
     plus (Cls perl_space), exactly 4 digit, WordB]"

definition order_token :: "string \<Rightarrow> bool" where
  "order_token r \<longleftrightarrow> range_of (CHR ''A'') (CHR ''Z'') r \<or> range_of (CHR ''0'') (CHR ''9'') r"

definition orderRe :: regex where
  "orderRe = seqs [lit_fold ''order'', Star (Cls (\<lambda>r. perl_space r \<or> one_of ''#:-'' r)),
     alts [alts (map lit_fold [''id'', ''no'', ''number'']), lit ''#''], Star (Cls perl_space), opt (Cls (one_of '':#-'')),
     Star (Cls perl_space), Cls order_token, at_least 3 (Cls (\<lambda>r. order_token r \<or> r = ''-''))]"

definition enquiryRe :: regex where
  "enquiryRe = seqs [WordB, alts (map lit_fold [''dear'', ''hi'', ''hello'', ''to whom'']), WordB,
     between 0 60 (Cls (\<lambda>r. r \<noteq> ''.'')), WordB, lit_fold ''my '',
     alts (map lit_fold [''name'', ''address'', ''phone'', ''email'']), lit_fold '' is'', WordB]"

section \<open>Checksums\<close>

text \<open>\<open>digits[i] - '0'\<close> is a subtraction of bytes.\<close>

definition digit_int :: "char \<Rightarrow> int" where "digit_int c = (of_char c - 48) mod 256"

definition keepDigits :: "string \<Rightarrow> string" where
  "keepDigits s = filter (\<lambda>c. CHR ''0'' \<le> c \<and> c \<le> CHR ''9'') s"

text \<open>The loop runs from the last digit to the first; \<open>luhn_sum\<close> takes the digits in that order.\<close>

definition luhn_digit :: "bool \<Rightarrow> int \<Rightarrow> int" where
  "luhn_digit alt d = (if alt then (if 9 < d * 2 then d * 2 - 9 else d * 2) else d)"

fun luhn_sum :: "bool \<Rightarrow> string \<Rightarrow> int" where
  "luhn_sum alt [] = 0"
| "luhn_sum alt (c # cs) = luhn_digit alt (digit_int c) + luhn_sum (\<not> alt) cs"

definition luhnValid :: "string \<Rightarrow> bool" where
  "luhnValid digits \<longleftrightarrow> go_rem (luhn_sum False (rev digits)) 10 = 0"

definition tfn_weights :: "int list" where "tfn_weights = [1, 4, 3, 7, 5, 8, 6, 9, 2]"

definition tfn_sum :: "string \<Rightarrow> int" where
  "tfn_sum digits = sum_list (map2 (*) (map digit_int digits) tfn_weights)"

definition tfnValid :: "string \<Rightarrow> bool" where
  "tfnValid digits \<longleftrightarrow> length digits = 9 \<and> go_rem (tfn_sum digits) 11 = 0"

definition confirmed :: "bool \<Rightarrow> bool \<Rightarrow> string \<Rightarrow> bool" where
  "confirmed cardCtx tfnCtx m =
     (let digits = keepDigits m; grouped = list_ex (\<lambda>c. c \<in> set '' .-'') m
      in if length digits = 9 \<and> tfnValid digits then tfnCtx \<or> grouped
         else if 13 \<le> length digits \<and> luhnValid digits then cardCtx \<or> grouped
         else False)"

definition panOrTFN :: "string \<Rightarrow> bool" where
  "panOrTFN s =
     (let cardCtx = MatchString cardKeywordRe s; tfnCtx = MatchString tfnKeywordRe s
      in list_ex (confirmed cardCtx tfnCtx) (FindAllString cardCandidateRe s))"

section \<open>Detection\<close>

definition matchesAny :: "string \<Rightarrow> bool" where
  "matchesAny s =
     (if MatchString emailRe s \<or> MatchString auPhoneRe s \<or> MatchString addressRe s \<or> MatchString postcodeRe s
         \<or> MatchString orderRe s \<or> MatchString enquiryRe s
      then True else panOrTFN s)"

text \<open>The strings of a decoded value; the order in which a map is walked does not matter.\<close>

primrec any_strings :: "any \<Rightarrow> string list" where
  "any_strings ANil = []"
| "any_strings (ABool b) = []"
| "any_strings (AFloat neg x) = []"
| "any_strings (AInt n) = []"
| "any_strings (AStr s) = [s]"
| "any_strings (AArr vs) = concat (map any_strings vs)"
| "any_strings (AMap ms) = concat (map snd (map (map_prod id any_strings) ms))"
| "any_strings AOther = []"

definition decodeJSONStrings :: "string \<Rightarrow> string list" where
  "decodeJSONStrings body =
     (case json_parse body of
        None \<Rightarrow> []
      | Some v \<Rightarrow> if floats_ok v then any_strings (decode_any v) else [])"

definition DetectPersonal :: "string \<Rightarrow> bool" where
  "DetectPersonal body =
     (if matchesAny body then True else list_ex matchesAny (decodeJSONStrings body))"

section \<open>Lemmas\<close>

definition decimal :: "string \<Rightarrow> bool" where
  "decimal s \<longleftrightarrow> list_all (\<lambda>c. 0 \<le> digit_int c \<and> digit_int c \<le> 9) s"

lemma luhn_digit_inj:
  assumes "0 \<le> a" "a \<le> 9" "0 \<le> b" "b \<le> 9" "a \<noteq> b"
  shows "luhn_digit alt a mod 10 \<noteq> luhn_digit alt b mod 10"
proof -
  have "0 \<le> luhn_digit alt d \<and> luhn_digit alt d \<le> 9" if "0 \<le> d" "d \<le> 9" for d
    using that by (auto simp: luhn_digit_def)
  then have "luhn_digit alt d mod 10 = luhn_digit alt d" if "0 \<le> d" "d \<le> 9" for d
    using that by (simp add: mod_pos_pos_trivial order.strict_trans1 [of _ 9])
  then have "luhn_digit alt a mod 10 = luhn_digit alt a" "luhn_digit alt b mod 10 = luhn_digit alt b"
    using assms by blast+
  moreover have "luhn_digit alt a \<noteq> luhn_digit alt b" using assms by (cases alt) (simp add: luhn_digit_def, presburger, simp add: luhn_digit_def)
  ultimately show ?thesis by simp
qed

lemma digit_int_inj: "digit_int a = digit_int b \<Longrightarrow> a = b"
proof -
  assume e: "digit_int a = digit_int b"
  have "of_char c mod 256 = (of_char c :: int)" for c using of_char_mod_256 [of c] by simp
  then have "(of_char c :: int) = (digit_int c + 48) mod 256" for c by (simp add: digit_int_def mod_simps)
  then have "(of_char a :: int) = of_char b" using e by metis
  then show ?thesis by simp
qed

lemma luhn_sum_nonneg: "decimal s \<Longrightarrow> 0 \<le> luhn_sum alt s"
  by (induction s arbitrary: alt) (auto simp: decimal_def luhn_digit_def)

lemma luhn_sum_update:
  "decimal s \<Longrightarrow> decimal [d] \<Longrightarrow> i < length s \<Longrightarrow> d \<noteq> s ! i \<Longrightarrow> luhn_sum alt (s[i := d]) mod 10 \<noteq> luhn_sum alt s mod 10"
proof (induction s arbitrary: i alt)
  case (Cons c s)
  show ?case
  proof (cases i)
    case 0
    then have "luhn_digit alt (digit_int d) mod 10 \<noteq> luhn_digit alt (digit_int c) mod 10"
      using Cons.prems digit_int_inj by (intro luhn_digit_inj) (auto simp: decimal_def)
    then show ?thesis using 0 by (auto simp: mod_eq_dvd_iff)
  next
    case (Suc j)
    then show ?thesis using Cons.IH [of j "\<not> alt"] Cons.prems by (auto simp: decimal_def mod_eq_dvd_iff)
  qed
qed simp

lemma tfn_weights_update:
  assumes "length ws = length ds" "i < length ds"
  shows "sum_list (map2 (*) (ds[i := d]) ws) - sum_list (map2 (*) ds ws) = (d - ds ! i) * (ws ! i :: int)"
  using assms
proof (induction ds arbitrary: ws i)
  case (Cons a ds)
  then obtain w vs where ws: "ws = w # vs" by (cases ws) auto
  show ?case
  proof (cases i)
    case 0
    then show ?thesis by (simp add: ws left_diff_distrib)
  next
    case (Suc j)
    then show ?thesis using Cons.IH [of vs j] Cons.prems ws by simp
  qed
qed simp

lemma tfn_sum_update:
  assumes "decimal s" "decimal [d]" "i < length s" "d \<noteq> s ! i" "length s = 9"
  shows "tfn_sum (s[i := d]) mod 11 \<noteq> tfn_sum s mod 11"
proof
  assume "tfn_sum (s[i := d]) mod 11 = tfn_sum s mod 11"
  then have "11 dvd tfn_sum (s[i := d]) - tfn_sum s" by (simp add: mod_eq_dvd_iff)
  also have "tfn_sum (s[i := d]) - tfn_sum s = (digit_int d - digit_int (s ! i)) * tfn_weights ! i"
    unfolding tfn_sum_def map_update using assms tfn_weights_update [of tfn_weights "map digit_int s" i "digit_int d"]
    by (simp add: tfn_weights_def)
  finally have dvd: "11 dvd (digit_int d - digit_int (s ! i)) * tfn_weights ! i" .
  have zero: "x = 0" if "11 dvd x * w" "w \<in> set tfn_weights" "- 9 \<le> x" "x \<le> 9" for x w :: int
    using that unfolding tfn_weights_def list.set insert_iff by (elim disjE emptyE; simp; presburger)
  have "tfn_weights ! i \<in> set tfn_weights" using assms(3,5) by (intro nth_mem) (simp add: tfn_weights_def)
  moreover have "- 9 \<le> digit_int d - digit_int (s ! i)" "digit_int d - digit_int (s ! i) \<le> 9"
    using assms(1-3) by (auto simp: decimal_def list_all_length)
  ultimately have "digit_int d = digit_int (s ! i)" using zero [OF dvd] by simp
  then show False using digit_int_inj assms(4) by blast
qed

lemma tfn_sum_nonneg:
  assumes "decimal s" shows "0 \<le> tfn_sum s"
proof -
  have "0 \<le> x * w" if "(x, w) \<in> set (zip (map digit_int s) tfn_weights)" for x w
  proof -
    have "x \<in> digit_int ` set s" "w \<in> set tfn_weights" using that by (auto dest: set_zip_leftD set_zip_rightD)
    then have "0 \<le> x" "0 \<le> w" using assms by (auto simp: decimal_def list_all_iff tfn_weights_def)
    then show ?thesis by simp
  qed
  then show ?thesis unfolding tfn_sum_def by (intro sum_list_nonneg) auto
qed

lemma decimal_update: "decimal s \<Longrightarrow> decimal [d] \<Longrightarrow> decimal (s[i := d])"
  using set_update_subset_insert [of s i d] unfolding decimal_def list_all_iff by auto

section \<open>E-mail addresses\<close>

definition ascii_letter :: "char \<Rightarrow> bool" where
  "ascii_letter c \<longleftrightarrow> 65 \<le> ord c \<and> ord c \<le> 90 \<or> 97 \<le> ord c \<and> ord c \<le> 122"

definition domain_char :: "char \<Rightarrow> bool" where
  "domain_char c \<longleftrightarrow> ascii_letter c \<or> 48 \<le> ord c \<and> ord c \<le> 57 \<or> c \<in> set ''.-''"

definition local_char :: "char \<Rightarrow> bool" where
  "local_char c \<longleftrightarrow> ascii_letter c \<or> 48 \<le> ord c \<and> ord c \<le> 57 \<or> c \<in> set [CHR ''.'', CHR ''_'', CHR ''%'', CHR ''+'', CHR ''-'', CHR 0x22]"

definition email :: "string \<Rightarrow> string \<Rightarrow> string \<Rightarrow> string" where
  "email who site tld = who @ ''@'' @ site @ ''.'' @ tld"

definition email_ok :: "string \<Rightarrow> string \<Rightarrow> string \<Rightarrow> bool" where
  "email_ok who site tld \<longleftrightarrow> who \<noteq> [] \<and> list_all local_char who \<and> site \<noteq> [] \<and> list_all domain_char site
     \<and> 2 \<le> length tld \<and> list_all ascii_letter tld"

lemma char_classes:
  "ascii_letter c \<Longrightarrow> any_letter [c]" "domain_char c \<Longrightarrow> email_domain [c]" "local_char c \<Longrightarrow> email_local [c]"
  by (auto simp: ascii_letter_def any_letter_def range_of_def domain_char_def email_domain_def one_of_def local_char_def email_local_def)

lemma char_ascii:
  "ascii_letter c \<Longrightarrow> ord c < 128" "domain_char c \<Longrightarrow> ord c < 128" "local_char c \<Longrightarrow> ord c < 128"
  by (auto simp: ascii_letter_def domain_char_def local_char_def)

lemma emailRe_matches:
  assumes "email_ok who site tld"
  shows "rmatch emailRe (p, map (\<lambda>c. [c]) (email who site tld) @ rest) \<noteq> []"
proof -
  let ?r = "\<lambda>s. map (\<lambda>c. [c]) s :: string list"
  have f: "list_all email_local (?r who)" "list_all email_domain (?r site)" "list_all any_letter (?r tld)"
    using assms char_classes by (auto simp: email_ok_def list_all_iff)
  obtain a b tl where t: "tld = a # b # tl" using assms by (cases tld; cases "List.tl tld") (auto simp: email_ok_def)
  let ?s1 = "?r (''@'' @ site @ ''.'' @ tld) @ rest" and ?s2 = "?r (site @ ''.'' @ tld) @ rest"
    and ?s3 = "?r (''.'' @ tld) @ rest" and ?s4 = "?r tld @ rest"
  have "(Some (last (?r who)), ?s1) \<in> set (rmatch (plus (Cls email_local)) (p, ?r who @ ?s1))"
    using f(1) assms by (intro rmatch_plus_Cls) (simp_all add: email_ok_def)
  moreover have "(Some ''@'', ?s2) \<in> set (rmatch (Cls (\<lambda>r. r = ''@'')) (q, ?s1))" for q by simp
  moreover have "(Some (last (?r site)), ?s3) \<in> set (rmatch (plus (Cls email_domain)) (q, ?r site @ ?s3))" for q
    using f(2) assms by (intro rmatch_plus_Cls) (simp_all add: email_ok_def)
  moreover have "(Some ''.'', ?s4) \<in> set (rmatch (Cls (\<lambda>r. r = ''.'')) (q, ?s3))" for q by simp
  moreover have "(Some [b], map (\<lambda>c. [c]) tl @ rest) \<in> set (rmatch (at_least 2 (Cls any_letter)) (q, ?s4))" for q
    using f(3) t rmatch_Star_self [of _ "Cls any_letter"] by (simp add: at_least_def numeral_2_eq_2)
  ultimately have "\<exists>st. st \<in> set (rmatch emailRe (p, ?r who @ ?s1))"
    unfolding emailRe_def by (intro exI rmatch_Seq) (assumption | simp only: map_append append_assoc)+
  then show ?thesis by (auto simp: email_def)
qed

lemma email_found:
  assumes "email_ok who site tld" shows "MatchString emailRe (pre @ email who site tld @ post)"
proof -
  have "list_all (\<lambda>c. ord c < 128) (email who site tld)"
    using assms char_ascii by (auto simp: email_def email_ok_def list_all_iff)
  then have "utf8_runes (pre @ email who site tld @ post) = utf8_runes pre @ map (\<lambda>c. [c]) (email who site tld) @ utf8_runes post"
    by (intro utf8_runes_middle) (auto simp: email_def)
  then show ?thesis unfolding MatchString_def
    using find_from_exists [of emailRe "utf8_runes pre" None] emailRe_matches [OF assms] by simp
qed

text \<open>A string occurs in a decoded value: as the value itself, or in an element of an array or map.\<close>

inductive string_in :: "string \<Rightarrow> any \<Rightarrow> bool" for s where
  itself: "string_in s (AStr s)"
| element: "v \<in> set vs \<Longrightarrow> string_in s v \<Longrightarrow> string_in s (AArr vs)"
| member: "(k, v) \<in> set ms \<Longrightarrow> string_in s v \<Longrightarrow> string_in s (AMap ms)"

lemma any_strings_complete: "string_in s v \<Longrightarrow> s \<in> set (any_strings v)"
  by (induction rule: string_in.induct) force+

section \<open>Properties\<close>

text \<open>C10: An e-mail address is always found.  A body that contains one in plain, at any place and
  between any bytes, is personal; and so is a JSON body in which a string value at any depth
  contains one once its escapes are decoded, as long as every number of the body is a float64.\<close>

theorem email_addresses_detected:
  assumes "email_ok who site tld"
  shows "DetectPersonal (pre @ email who site tld @ post)
    \<and> (json_parse body = Some v \<and> floats_ok v \<and> string_in (pre @ email who site tld @ post) (decode_any v) \<longrightarrow>
      DetectPersonal body)"
proof -
  have m: "matchesAny (pre @ email who site tld @ post)" using email_found [OF assms] by (simp add: matchesAny_def)
  have "DetectPersonal body"
    if v: "json_parse body = Some v" "floats_ok v" "string_in (pre @ email who site tld @ post) (decode_any v)"
  proof -
    have "pre @ email who site tld @ post \<in> set (decodeJSONStrings body)"
      using any_strings_complete [OF v(3)] v(1,2) by (simp add: decodeJSONStrings_def)
    then show ?thesis using m by (auto simp: DetectPersonal_def list_ex_iff)
  qed
  then show ?thesis using m by (auto simp: DetectPersonal_def)
qed

text \<open>C11: The checksums catch every mistyped digit: changing one digit of a number that passes the
  card check, or the tax file number check, gives a number that fails it.\<close>

theorem checksums_catch_one_digit:
  assumes "decimal digits" "decimal [d]" "i < length digits" "d \<noteq> digits ! i"
  shows "(luhnValid digits \<longrightarrow> \<not> luhnValid (digits[i := d])) \<and> (tfnValid digits \<longrightarrow> \<not> tfnValid (digits[i := d]))"
proof -
  let ?s = "digits[i := d]"
  have dec: "decimal (rev digits)" "decimal (rev ?s)" "decimal ?s"
    using assms(1) decimal_update [OF assms(1,2)] by (auto simp: decimal_def list_all_iff)
  have r: "rev ?s = (rev digits)[length digits - 1 - i := d]" using assms(3) by (simp add: rev_update)
  have "luhn_sum False (rev ?s) mod 10 \<noteq> luhn_sum False (rev digits) mod 10"
    unfolding r using assms dec(1) by (intro luhn_sum_update) (auto simp: rev_nth)
  then have "luhnValid digits \<Longrightarrow> \<not> luhnValid ?s"
    using luhn_sum_nonneg [OF dec(1)] luhn_sum_nonneg [OF dec(2)] by (simp add: luhnValid_def go_rem_nonneg)
  moreover have "tfnValid digits \<Longrightarrow> \<not> tfnValid ?s"
    using tfn_sum_update [OF assms] tfn_sum_nonneg [OF assms(1)] tfn_sum_nonneg [OF dec(3)]
    by (auto simp: tfnValid_def go_rem_nonneg)
  ultimately show ?thesis by blast
qed

theorem email_addresses_detected_witness:
  "DetectPersonal (''mail ann'' @ ''@'' @ ''example.org please'')"
  using email_addresses_detected [of "''ann''" "''example''" "''org''" "''mail ''" "'' please''"]
  by (simp add: email_ok_def email_def local_char_def domain_char_def ascii_letter_def)

theorem checksums_catch_one_digit_witness:
  "luhnValid ''4111111111111111'' \<and> \<not> luhnValid ''4111111111111112'' \<and> tfnValid ''487161275'' \<and> \<not> tfnValid ''487161273''"
proof -
  have v: "luhnValid ''4111111111111111''" "tfnValid ''487161275''" by code_simp+
  have d: "decimal ''4111111111111111''" "decimal ''487161275''" "decimal ''2''" "decimal ''3''" by code_simp+
  show ?thesis
    using v checksums_catch_one_digit [OF d(1,3), of 15] checksums_catch_one_digit [OF d(2,4), of 8] by simp
qed

text \<open>The published weights of a tax file number end in 10 where the code has 2, so a number that is valid
  under them is rejected.\<close>

lemma published_weights_differ:
  "\<not> tfnValid ''123456782''
   \<and> sum_list (map2 (*) (map digit_int ''123456782'') [1, 4, 3, 7, 5, 8, 6, 9, 10]) mod 11 = 0"
  by code_simp

text \<open>The bound on numbers matters: one number no float64 holds makes the second pass see nothing, and
  an address written with an escape goes undetected.\<close>

definition hidden_address :: "string \<Rightarrow> string" where
  "hidden_address number =
     (let q = [CHR 0x22] in ''{'' @ q @ ''n'' @ q @ '':'' @ number @ '','' @ q @ ''c'' @ q @ '':'' @ q @ ''ann'' @ [CHR 0x5C]
        @ ''u0040example.org'' @ q @ ''}'')"

lemma ParseFloat_1e999: "ParseFloat ''1e999'' = None"
proof -
  have p: "num_parts ''1e999'' = (False, ''1'', [], ''e999'')" "exp_of ''e999'' = 999" by code_simp+
  have "digits_val ''1'' = 1" by (simp add: digits_val_def dig_val_def)
  moreover have "exp_of ''e999'' - int (length ([] :: string)) = 999" using p(2) by simp
  ultimately have v: "lit_value ''1e999'' = (False, 10 powi 999)"
    unfolding lit_value_def p(1) prod.case append_Nil2 by (simp only: of_nat_1 mult_1)
  have "(2::rat) ^ 1024 = (2 ^ 4) ^ 256" unfolding power_mult [symmetric] by simp
  also have "\<dots> \<le> (10 ^ 2) ^ 256" by (intro power_mono) simp_all
  also have "\<dots> = (10::rat) ^ 512" unfolding power_mult [symmetric] by simp
  also have "\<dots> \<le> 10 ^ 999" by (intro power_increasing) simp_all
  finally have "(2::rat) powi 1024 \<le> 10 powi 999" unfolding power_int_numeral .
  then have "f64_round (2 powi 1024) \<le> f64_round (10 powi 999)" by (intro f64_round_mono less_imp_le [OF powi2_pos])
  then have "(2::rat) powi 1024 \<le> f64_round (10 powi 999)" by (simp only: f64_round_powi2 [of 1024])
  then have "\<not> f64_round (10 powi 999) < 2 ^ 1024" unfolding power_int_numeral not_less .
  then show ?thesis unfolding ParseFloat_def v prod.case by (rule if_not_P)
qed

lemma overflowing_number_hides_escape:
  "DetectPersonal (hidden_address ''1'')" "\<not> DetectPersonal (hidden_address ''1e999'')"
proof -
  let ?v = "\<lambda>n. JObj [(''n'', JNum n), (''c'', JStr (''ann'' @ [CHR 0x5C] @ ''u0040example.org''))]"
  have "\<not> matchesAny (hidden_address ''1e999'')" by code_simp
  moreover have "json_parse (hidden_address ''1e999'') = Some (?v ''1e999'')" by code_simp
  then have "decodeJSONStrings (hidden_address ''1e999'') = []" by (simp add: decodeJSONStrings_def ParseFloat_1e999)
  ultimately show "\<not> DetectPersonal (hidden_address ''1e999'')" by (simp add: DetectPersonal_def)
  have "unquote (''ann'' @ [CHR 0x5C] @ ''u0040example.org'') = [] @ email ''ann'' ''example'' ''org'' @ []"
  proof -
    have "ord CHR 0x40 < 0x80" "u00 CHR 0x40 = [CHR 0x5C] @ ''u0040''" by code_simp+
    then have "unquote ([CHR 0x5C] @ ''u0040'' @ ''example.org'') = CHR 0x40 # unquote ''example.org''"
      using unquote_u00 [of "CHR 0x40" "''example.org''"] by simp
    then show ?thesis by (simp add: unquote_ascii email_def)
  qed
  then have "matchesAny (unquote (''ann'' @ [CHR 0x5C] @ ''u0040example.org''))"
    using email_found [of "''ann''" "''example''" "''org''" "[]" "[]"]
    by (simp add: matchesAny_def email_ok_def local_char_def domain_char_def ascii_letter_def)
  moreover have p: "json_parse (hidden_address ''1'') = Some (?v ''1'')" by code_simp
  moreover have "map_option floats_ok (json_parse (hidden_address ''1'')) = Some True" by code_simp
  moreover have "(''c'', AStr (unquote (''ann'' @ [CHR 0x5C] @ ''u0040example.org'')))
      \<in> set (map_from [(unquote ''n'', decode_any (JNum ''1'')), (unquote ''c'', AStr (unquote (''ann'' @ [CHR 0x5C] @ ''u0040example.org'')))])"
  proof -
    have "unquote ''n'' = ''n''" "unquote ''c'' = ''c''" by code_simp+
    then show ?thesis by (simp add: map_from_def)
  qed
  ultimately show "DetectPersonal (hidden_address ''1'')"
    by (auto simp: DetectPersonal_def decodeJSONStrings_def list_ex_iff intro!: bexI)
qed
end
