(* ===== verification/Go_Duration.thy ===== *)
theory Go_Duration
  imports Go_Float_Text
begin

text \<open>
  \<open>time.ParseDuration\<close> of the standard library, with its 64-bit overflow checks and the
  float64 arithmetic of fractions.  The configuration files and the health endpoint read
  durations through it.
\<close>

fun leadingInt :: "nat \<Rightarrow> string \<Rightarrow> (nat \<times> string) option" where
  "leadingInt x [] = Some (x, [])"
| "leadingInt x (c # s) =
     (if \<not> is_dig c then Some (x, c # s)
      else if 2 ^ 63 div 10 < x then None
      else let x' = x * 10 + dig_val c in if 2 ^ 63 < x' then None else leadingInt x' s)"

fun leadingFraction :: "bool \<Rightarrow> nat \<Rightarrow> rat \<Rightarrow> string \<Rightarrow> nat \<times> rat \<times> string" where
  "leadingFraction over x scale [] = (x, scale, [])"
| "leadingFraction over x scale (c # s) =
     (if \<not> is_dig c then (x, scale, c # s)
      else if over \<or> (2 ^ 63 - 1) div 10 < x then leadingFraction True x scale s
      else let y = x * 10 + dig_val c
           in if 2 ^ 63 < y then leadingFraction True x scale s
              else leadingFraction False y (f64_mul scale 10) s)"

definition unitMap :: "(string \<times> nat) list" where
  "unitMap = [(''ns'', 1), (''us'', 1000), ([char_of (0xC2::nat), char_of (0xB5::nat), CHR ''s''], 1000),
     ([char_of (0xCE::nat), char_of (0xBC::nat), CHR ''s''], 1000), (''ms'', 1000000), (''s'', 1000000000),
     (''m'', 60000000000), (''h'', 3600000000000)]"

definition unit_char :: "char \<Rightarrow> bool" where "unit_char c \<longleftrightarrow> c \<noteq> CHR ''.'' \<and> \<not> is_dig c"

text \<open>One round of the loop: the digits before and after a point with the scale of the latter and
  the rest, then the unit.\<close>

definition duration_fraction :: "string \<Rightarrow> nat \<times> rat \<times> string" where
  "duration_fraction s =
     (if s \<noteq> [] \<and> hd s = CHR ''.'' then leadingFraction False 0 1 (tl s) else (0, 1, s))"

definition duration_number :: "string \<Rightarrow> (nat \<times> nat \<times> rat \<times> string) option" where
  "duration_number s =
     (if s = [] \<or> \<not> (hd s = CHR ''.'' \<or> is_dig (hd s)) then None
      else case leadingInt 0 s of
        None \<Rightarrow> None
      | Some (v, s1) \<Rightarrow>
          (case duration_fraction s1 of
             (f, scale, s2) \<Rightarrow>
               if length s = length s1 \<and> \<not> (s1 \<noteq> [] \<and> hd s1 = CHR ''.'' \<and> length (tl s1) \<noteq> length s2) then None
               else Some (v, f, scale, s2)))"

definition duration_value :: "nat \<Rightarrow> nat \<Rightarrow> rat \<Rightarrow> nat \<Rightarrow> nat option" where
  "duration_value v f scale unit =
     (if 2 ^ 63 div unit < v then None
      else let w = v * unit
                 + (if 0 < f then nat \<lfloor>f64_mul (f64_of_int (int f)) (f64_div (f64_of_int (int unit)) scale)\<rfloor> else 0)
           in if 0 < f \<and> 2 ^ 63 < w then None else Some w)"

definition duration_item :: "string \<Rightarrow> (nat \<times> string) option" where
  "duration_item s =
     (case duration_number s of
        None \<Rightarrow> None
      | Some (v, f, scale, s2) \<Rightarrow>
          let u = takeWhile unit_char s2; rest = dropWhile unit_char s2
          in if u = [] then None
             else case map_of unitMap u of
               None \<Rightarrow> None
             | Some unit \<Rightarrow> map_option (\<lambda>w. (w, rest)) (duration_value v f scale unit))"

lemma leadingInt_length: "leadingInt x s = Some (y, t) \<Longrightarrow> length t \<le> length s"
  by (induction x s rule: leadingInt.induct) (auto simp: Let_def split: if_splits)

lemma leadingFraction_length: "length (snd (snd (leadingFraction ov x sc s))) \<le> length s"
  by (induction ov x sc s rule: leadingFraction.induct) (auto simp: Let_def)

lemma duration_fraction_length: "length (snd (snd (duration_fraction s))) \<le> length s"
  using leadingFraction_length [of False 0 1 "tl s"] by (auto simp: duration_fraction_def)

lemma duration_number_length:
  assumes "duration_number s = Some (v, f, scale, s2)" shows "length s2 \<le> length s"
proof -
  obtain w s1 where l: "leadingInt 0 s = Some (w, s1)"
    using assms by (auto simp: duration_number_def split: if_splits option.splits)
  have "s2 = snd (snd (duration_fraction s1))"
    using assms by (auto simp: duration_number_def l split: if_splits prod.splits)
  then show ?thesis using leadingInt_length [OF l] duration_fraction_length [of s1] by simp
qed

lemma duration_item_shorter:
  assumes "duration_item s = Some (w, rest)" shows "length rest < length s"
proof -
  obtain v f scale s2 where n: "duration_number s = Some (v, f, scale, s2)"
    using assms by (auto simp: duration_item_def split: option.splits)
  then have "takeWhile unit_char s2 \<noteq> []" "rest = dropWhile unit_char s2"
    using assms by (auto simp: duration_item_def Let_def split: if_splits option.splits)
  then have "length rest < length s2"
    using takeWhile_dropWhile_id [of unit_char s2] by (metis length_append length_greater_0_conv less_add_same_cancel2)
  then show ?thesis using duration_number_length [OF n] by simp
qed

function duration_loop :: "nat \<Rightarrow> string \<Rightarrow> nat option" where
  "duration_loop d s =
     (if s = [] then Some d
      else case duration_item s of
        None \<Rightarrow> None
      | Some (v, rest) \<Rightarrow> let d' = (d + v) mod 2 ^ 64 in if 2 ^ 63 < d' then None else duration_loop d' rest)"
  by auto
termination by (relation "measure (length \<circ> snd)") (auto dest: duration_item_shorter)

declare duration_loop.simps [simp del]

definition ParseDuration :: "string \<Rightarrow> duration option" where
  "ParseDuration s =
     (let neg = (s \<noteq> [] \<and> hd s = CHR ''-'');
          s1 = (if s \<noteq> [] \<and> hd s \<in> {CHR ''-'', CHR ''+''} then tl s else s)
      in if s1 = ''0'' then Some 0
         else if s1 = [] then None
         else case duration_loop 0 s1 of
           None \<Rightarrow> None
         | Some d \<Rightarrow> if neg then Some (wrap64 (- wrap64 (int d)))
                     else if 2 ^ 63 - 1 < d then None else Some (int d))"

section \<open>What it reads\<close>

lemma leadingInt_digits:
  "list_all is_dig s \<Longrightarrow> \<not> (t \<noteq> [] \<and> is_dig (hd t)) \<Longrightarrow> x * 10 ^ length s + digits_val s \<le> 2 ^ 63 \<Longrightarrow>
   leadingInt x (s @ t) = Some (x * 10 ^ length s + digits_val s, t)"
proof (induction s arbitrary: x)
  case Nil
  then show ?case by (cases t) auto
next
  case (Cons c s)
  have e: "digits_val (c # s) = dig_val c * 10 ^ length s + digits_val s"
    using digits_val_append [of "[c]" s] digits_val_snoc [of "[]" c] by simp
  have le: "(x * 10 + dig_val c) * 10 ^ length s + digits_val s \<le> 2 ^ 63"
    using Cons.prems(3) unfolding e by (simp add: algebra_simps)
  have "x * 10 + dig_val c \<le> (x * 10 + dig_val c) * 10 ^ length s" by simp
  then have b: "x * 10 + dig_val c \<le> 2 ^ 63" using le by linarith
  then have "\<not> 2 ^ 63 div 10 < x" by simp
  moreover have "leadingInt (x * 10 + dig_val c) (s @ t)
      = Some ((x * 10 + dig_val c) * 10 ^ length s + digits_val s, t)"
    using Cons.prems(1,2) le by (intro Cons.IH) simp_all
  moreover have "(x * 10 + dig_val c) * 10 ^ length s + digits_val s = x * 10 ^ length (c # s) + digits_val (c # s)"
    unfolding e by (simp add: add_mult_distrib)
  ultimately show ?case using Cons.prems(1) b unfolding append_Cons leadingInt.simps Let_def by simp
qed

text \<open>A whole number of a unit is read exactly, as long as it fits.\<close>

lemma ParseDuration_whole:
  assumes "map_of unitMap u = Some n" "u \<noteq> []" "list_all unit_char u" "k * n < 2 ^ 63" "0 < n"
  shows "ParseDuration (nat_digits k @ u) = Some (int (k * n))"
proof -
  let ?s = "nat_digits k @ u"
  note nf = nat_digits_facts [of k]
  obtain c cs where c: "nat_digits k = c # cs" "is_dig c" using nf by (cases "nat_digits k") auto
  have hd_u: "\<not> is_dig (hd u)" "hd u \<noteq> CHR ''.''" using assms(2,3) by (cases u; simp add: unit_char_def)+
  have "k \<le> k * n" using assms(5) by simp
  then have k: "k \<le> 2 ^ 63" using assms(4) by linarith
  have l: "leadingInt 0 ?s = Some (k, u)" using leadingInt_digits [of "nat_digits k" u 0] nf k hd_u by simp
  have tw: "takeWhile unit_char u = u" "dropWhile unit_char u = []"
    using assms(3) unfolding list_all_iff by (simp_all add: takeWhile_eq_all_conv)
  have kn: "\<not> 2 ^ 63 div n < k"
    using assms(4,5) by (metis div_le_mono less_imp_le nonzero_mult_div_cancel_right not_less not_gr_zero)
  have fr: "duration_fraction u = (0, 1, u)" using hd_u by (simp add: duration_fraction_def)
  have nr: "duration_number ?s = Some (k, 0, 1, u)" unfolding duration_number_def l option.case prod.case fr using c by simp
  have "duration_value k 0 1 n = Some (k * n)" unfolding duration_value_def if_not_P [OF kn] by simp
  then have i: "duration_item ?s = Some (k * n, [])"
    unfolding duration_item_def nr option.case prod.case Let_def tw using assms(1,2) by simp
  have lp: "duration_loop 0 ?s = Some (k * n)"
    using i assms(4) c by (subst duration_loop.simps) (simp add: Let_def duration_loop.simps)
  have h: "hd ?s \<notin> {CHR ''-'', CHR ''+''}" using c by (auto simp: is_dig_def)
  have z: "?s \<noteq> ''0''" using c hd_u assms(2) by (cases u) (auto simp: append_eq_Cons_conv is_dig_def)
  show ?thesis unfolding ParseDuration_def Let_def using h z c lp assms(2,4) by simp
qed

end
