(* ===== verification/Router_Auth.thy ===== *)
theory Router_Auth
  imports Gateway_Auth Node_Select
begin

text \<open>
  The router's HTTP surface: the bearer middlewares and workload classes of
  \<open>internal/proxy/helpers.go\<close>, the route table of \<open>serveMux\<close> in \<open>main.go\<close>, the credential
  an upstream request leaves with (\<open>copyHeaders\<close> followed by \<open>setUpstreamAuth\<close>), and the
  per-agent attribution of \<open>internal/proxy/attribution.go\<close>.  A middleware is the decision it
  takes: the class it puts into the request context for the wrapped handler, or the refusal.
\<close>

section \<open>Bearer tokens and workload classes\<close>

datatype auth_result = Next "WorkloadClass option" | Unauthorized

definition BearerAuth :: "string \<Rightarrow> Header \<Rightarrow> auth_result" where
  "BearerAuth token h =
     (if token = [] then Next None
      else if Header_Get h ''Authorization'' \<noteq> ''Bearer '' @ token then Unauthorized else Next None)"

text \<open>\<open>onReject\<close> is the list of paths the hook was called with; no hook is installed until
  \<open>SetAuthRejectHook\<close>, and \<open>None\<close> clears it.\<close>

definition SetAuthRejectHook :: "(string list) option \<Rightarrow> (string list) option \<Rightarrow> (string list) option" where
  "SetAuthRejectHook fn onReject = fn"

definition reject :: "string \<Rightarrow> (string list) option \<Rightarrow> auth_result \<times> (string list) option" where
  "reject path onReject = (Unauthorized, map_option (\<lambda>ps. ps @ [path]) onReject)"

definition BearerAuthFunc :: "string \<Rightarrow> string \<Rightarrow> Header \<Rightarrow> (string list) option \<Rightarrow> auth_result \<times> (string list) option" where
  "BearerAuthFunc token path h onReject =
     (if token = [] then (Next None, onReject)
      else if Header_Get h ''Authorization'' \<noteq> ''Bearer '' @ token then reject path onReject
      else (Next None, onReject))"

definition ClassBearerAuthFunc ::
  "string \<Rightarrow> string list \<Rightarrow> string \<Rightarrow> Header \<Rightarrow> (string list) option \<Rightarrow> auth_result \<times> (string list) option" where
  "ClassBearerAuthFunc internal customerTokens path h onReject =
     (let auth = Header_Get h ''Authorization''
      in if internal = [] \<and> customerTokens = [] then (Next None, onReject)
         else if internal \<noteq> [] \<and> auth = ''Bearer '' @ internal then (Next (Some ClassInternal), onReject)
         else if list_ex (\<lambda>t. t \<noteq> [] \<and> auth = ''Bearer '' @ t) customerTokens
         then (Next (Some ClassCustomer), onReject)
         else reject path onReject)"

definition ClassFromRequest :: "WorkloadClass option \<Rightarrow> WorkloadClass" where
  "ClassFromRequest ctx = (case ctx of Some c \<Rightarrow> c | None \<Rightarrow> ClassInternal)"

section \<open>The route table\<close>

datatype endpoint = HandleHealth | HandleReadyz | HandleModels | HandleProxy | Metrics

text \<open>Every pattern is an exact path, so a handler runs only for the path it is registered
  under; the flag says whether it stands behind \<open>authWrap\<close>.\<close>

definition serveMux :: "(string \<times> bool \<times> endpoint) list" where
  "serveMux =
     [(''/healthz'', False, HandleHealth), (''/health'', False, HandleHealth), (''/readyz'', False, HandleReadyz),
      (''/v1/models'', True, HandleModels), (''/v1/chat/completions'', True, HandleProxy),
      (''/v1/completions'', True, HandleProxy), (''/v1/embeddings'', True, HandleProxy), (''/metrics'', False, Metrics)]"

definition serve_request ::
  "string \<Rightarrow> string list \<Rightarrow> string \<Rightarrow> Header \<Rightarrow> (string list) option \<Rightarrow>
   (endpoint \<times> WorkloadClass) option \<times> (string list) option" where
  "serve_request internal customerTokens path h onReject =
     (case map_of serveMux path of
        None \<Rightarrow> (None, onReject)
      | Some (authed, e) \<Rightarrow>
          if \<not> authed then (Some (e, ClassFromRequest None), onReject)
          else case ClassBearerAuthFunc internal customerTokens path h onReject of
                 (Next ctx, rej) \<Rightarrow> (Some (e, ClassFromRequest ctx), rej)
               | (Unauthorized, rej) \<Rightarrow> (None, rej))"

section \<open>The credential of an upstream request\<close>

definition CopyHeaders :: "Header \<Rightarrow> Header \<Rightarrow> Header" where
  "CopyHeaders dst src = fold (\<lambda>(k, vs) out. fold (\<lambda>v out. Header_Add out k v) vs out) src dst"

definition setUpstreamAuth :: "string \<Rightarrow> string \<Rightarrow> Header \<Rightarrow> Header" where
  "setUpstreamAuth authHeader key h =
     (if authHeader = []
      then (if key \<noteq> [] then Header_Set h ''Authorization'' (''Bearer '' @ key) else h)
      else let h1 = Header_Del (Header_Del h ''Authorization'') authHeader
           in if key \<noteq> [] then Header_Set h1 authHeader key else h1)"

text \<open>The \<open>build\<close> closure of \<open>doUpstream\<close>: the headers of the request it sends.\<close>

definition upstream_headers :: "string \<Rightarrow> string \<Rightarrow> Header \<Rightarrow> Header" where
  "upstream_headers authHeader key src = setUpstreamAuth authHeader key (CopyHeaders [] src)"

section \<open>Attribution\<close>

definition AgentHeader :: string where "AgentHeader = ''X-Helixon-Agent''"
definition maxAgentLabel :: nat where "maxAgentLabel = 64"

definition agent_char :: "char \<Rightarrow> bool" where
  "agent_char c =
     (let n = of_char c :: int
      in 97 \<le> n \<and> n \<le> 122 \<or> 65 \<le> n \<and> n \<le> 90 \<or> 48 \<le> n \<and> n \<le> 57 \<or> c \<in> set ''_-.'')"

definition AgentFromHeader :: "Header \<Rightarrow> string" where
  "AgentFromHeader h =
     (let agent = TrimSpace (Header_Get h AgentHeader)
      in if agent = [] then []
         else if maxAgentLabel < length agent then ''unknown''
         else if list_all agent_char agent then agent else ''unknown'')"

record Attribution =
  at_capacity :: nat
  at_events :: "(string \<times> duration) list"
  at_sink :: "(string \<times> duration) list"

definition NewAttribution :: "int \<Rightarrow> Attribution" where
  "NewAttribution buffer = \<lparr>at_capacity = (if buffer \<le> 0 then 1024 else nat buffer), at_events = [], at_sink = []\<rparr>"

text \<open>\<open>Record\<close> offers an event to the buffered channel and drops it when the buffer is full; one
  turn of the drainer moves the oldest event to the sink.\<close>

definition Record :: "string \<Rightarrow> time \<Rightarrow> time \<Rightarrow> Attribution option \<Rightarrow> Attribution option" where
  "Record agent start now ao =
     (case ao of
        None \<Rightarrow> None
      | Some a \<Rightarrow>
          if agent = [] then Some a
          else if length (at_events a) < at_capacity a
          then Some (a\<lparr>at_events := at_events a @ [(agent, time_sub now start)]\<rparr>)
          else Some a)"

definition drain :: "Attribution \<Rightarrow> Attribution" where
  "drain a = (case at_events a of [] \<Rightarrow> a | ev # evs \<Rightarrow> a\<lparr>at_events := evs, at_sink := at_sink a @ [ev]\<rparr>)"

text \<open>\<open>Close\<close> closes the channel and waits for the drainer, which empties it first.\<close>

definition Attribution_Close :: "Attribution \<Rightarrow> Attribution" where
  "Attribution_Close a = a\<lparr>at_events := [], at_sink := at_sink a @ at_events a\<rparr>"

section \<open>Which listener the router opens\<close>

definition helixChannelEnabledFromEnv :: "(string \<Rightarrow> string) \<Rightarrow> string \<Rightarrow> bool" where
  "helixChannelEnabledFromEnv uni value =
     (let v = ToLower uni (TrimSpace value)
      in if v \<in> set [[], ''true'', ''1'', ''yes'', ''on''] then True
         else if v \<in> set [''false'', ''0'', ''no'', ''off''] then False
         else True)"

datatype ListenerFactory = AESMTLSFactory | PlainHTTPFactory

definition SelectListenerFactory :: "bool \<Rightarrow> ListenerFactory" where
  "SelectListenerFactory enabled = (if enabled then AESMTLSFactory else PlainHTTPFactory)"

definition Channel :: "ListenerFactory \<Rightarrow> string" where
  "Channel f = (case f of AESMTLSFactory \<Rightarrow> ''aes-mtls'' | PlainHTTPFactory \<Rightarrow> ''plain-http'')"

definition HelixChannelVersion :: string where "HelixChannelVersion = ''v18712-1''"
definition HelixChannelHeader :: string where "HelixChannelHeader = ''HelixChannel-Version''"

text \<open>The middleware stamps the response headers before the wrapped handler runs on them.\<close>

definition WithHelixChannelHeader :: "(Header \<Rightarrow> Header) \<Rightarrow> Header \<Rightarrow> Header" where
  "WithHelixChannelHeader handler w = handler (Header_Set w HelixChannelHeader HelixChannelVersion)"

section \<open>Lemmas\<close>

lemma header_values_CopyHeaders:
  assumes "canonical_header src"
  shows "header_values (CopyHeaders dst src) k = header_values dst k @ header_values src k"
  using assms unfolding CopyHeaders_def
proof (induction src arbitrary: dst)
  case (Cons e src)
  obtain k0 vs where e: "e = (k0, vs)" by (cases e)
  from Cons.prems e have ch: "canonical_header src" "CanonicalHeaderKey k0 = k0" "k0 \<notin> set (map fst src)"
    by (auto simp: canonical_header_def)
  have hv: "header_values (e # src) k = (if k = k0 then vs else header_values src k)"
    by (auto simp: e header_values_def)
  show ?case using header_values_absent [OF ch(3)]
    by (auto simp: e Cons.IH [OF ch(1)] hv [unfolded e] header_values_add_all ch(2))
qed simp

text \<open>Only the order of arrival and the capacity decide what is recorded: nothing is invented,
  reordered or recorded twice, and the buffer never exceeds its capacity.\<close>

lemma attribution_queue:
  assumes "length (at_events a) \<le> at_capacity a"
  shows "length (at_events (drain a)) \<le> at_capacity (drain a)"
    and "at_sink (drain a) @ at_events (drain a) = at_sink a @ at_events a"
    and "Record agent start now (Some a) = Some b \<Longrightarrow>
      length (at_events b) \<le> at_capacity b
      \<and> (\<exists>new. at_sink b @ at_events b = (at_sink a @ at_events a) @ new
          \<and> set new \<subseteq> {(agent, time_sub now start)} \<and> length new \<le> 1 \<and> (agent = [] \<longrightarrow> new = []))"
proof -
  show "length (at_events (drain a)) \<le> at_capacity (drain a)"
    "at_sink (drain a) @ at_events (drain a) = at_sink a @ at_events a"
    using assms by (auto simp: drain_def split: list.splits)
  assume r: "Record agent start now (Some a) = Some b"
  show "length (at_events b) \<le> at_capacity b
      \<and> (\<exists>new. at_sink b @ at_events b = (at_sink a @ at_events a) @ new
          \<and> set new \<subseteq> {(agent, time_sub now start)} \<and> length new \<le> 1 \<and> (agent = [] \<longrightarrow> new = []))"
  proof (cases "agent \<noteq> [] \<and> length (at_events a) < at_capacity a")
    case True
    then have "b = a\<lparr>at_events := at_events a @ [(agent, time_sub now start)]\<rparr>" using r by (auto simp: Record_def)
    then show ?thesis using True by (intro conjI exI [of _ "[(agent, time_sub now start)]"]) auto
  next
    case False
    then have "b = a" using r by (auto simp: Record_def split: if_splits)
    then show ?thesis using assms by (intro conjI exI [of _ "[]"]) auto
  qed
qed

lemma agent_label_bounded:
  "AgentFromHeader h = l \<Longrightarrow> length l \<le> maxAgentLabel \<and> list_all agent_char l"
  by (auto simp: AgentFromHeader_def Let_def maxAgentLabel_def agent_char_def)

section \<open>Properties\<close>





end
