(* ===== verification/Router_Config.thy ===== *)
theory Router_Config
  imports Go_Duration Router_Auth
begin

text \<open>
  The router's configuration, \<open>internal/config/config.go\<close> and \<open>diagaddr.go\<close>, with the
  quota detector of \<open>internal/quota\<close> and the tunnel settings of \<open>internal/tunnel\<close> it
  configures.  The YAML library, the file system, the environment, the URL parser and the
  regular expressions are arguments; what is done with what they return is here.
\<close>

section \<open>The structs\<close>

record CircuitConfig =
  cc_Threshold :: int
  cc_Cooldown :: duration

record Defaults =
  df_MaxQueueDepth :: int
  df_MaxConcurrency :: int
  df_RequestTimeout :: duration
  df_KeyCooldown :: duration
  df_MaxBodySize :: int
  df_BodyReadTimeout :: duration
  df_Circuit :: CircuitConfig

record LiveProbeConfig =
  lp_Interval :: duration
  lp_Burst :: int

record HealthConfig = healthConfig +
  hc_Interval :: duration
  hc_Timeout :: duration
  hc_Path :: string
  hc_LiveProbe :: LiveProbeConfig

record FairShareConfig =
  fs_Enabled :: bool
  fs_MaxRequestsPerUser :: int
  fs_Window :: duration
  fs_Burst :: int

record SmartRouteConfig =
  src_Enabled :: bool
  src_PolicyFile :: string

record TunnelConfig =
  tc_Enabled :: bool
  tc_Host :: string
  tc_Port :: int
  tc_User :: string
  tc_IdentityFile :: string
  tc_LocalPort :: int
  tc_ConnectTimeout :: duration

text \<open>The fields selection and dispatch read are the record \<open>nodeConfig\<close> of
  \<open>Node_Select\<close>; these are the others.\<close>

record NodeConfig = nodeConfig +
  nc_URL :: string
  nc_Enabled :: string
  nc_Vendor :: string
  nc_APIKeyEnv :: string
  nc_EnabledVendor :: string
  nc_ModelRewrite :: "(string \<times> string) list"
  nc_RequestDefaults :: "(string \<times> string) list"
  nc_QuotaDetectRegex :: string
  nc_Circuit :: CircuitConfig
  nc_Tunnel :: TunnelConfig

record RouterConfig =
  rc_Listen :: string
  rc_PIILocalRule :: string
  rc_MetricsAddr :: string
  rc_DebugAddr :: string
  rc_LogLevel :: string
  rc_AuthToken :: string
  rc_CustomerTokens :: "string list"
  rc_SlackWebhookURL :: string
  rc_SlackChannel :: string
  rc_Defaults :: Defaults
  rc_HealthCheck :: HealthConfig
  rc_FairShare :: FairShareConfig
  rc_Nodes :: "NodeConfig list"
  rc_SmartRoute :: SmartRouteConfig

definition DefaultCircuitThreshold :: int where "DefaultCircuitThreshold = 5"
definition DefaultCircuitCooldown :: duration where "DefaultCircuitCooldown = 30 * Second"
definition DefaultBodyReadTimeout :: duration where "DefaultBodyReadTimeout = 15 * Second"

section \<open>Decoding single values\<close>

text \<open>What the YAML library makes of a node as a string, or its error, is an argument.\<close>

datatype 'e yaml_error = NodeDecode 'e | BadDuration string | NotMapping | DefaultDecode string 'e | DefaultMarshal string 'e

definition DurationValue_UnmarshalYAML :: "'e + string \<Rightarrow> 'e yaml_error + duration" where
  "DurationValue_UnmarshalYAML decoded =
     (case decoded of
        Inl e \<Rightarrow> Inl (NodeDecode e)
      | Inr value \<Rightarrow> (case ParseDuration value of None \<Rightarrow> Inl (BadDuration value) | Some d \<Rightarrow> Inr d))"

text \<open>The content of a mapping node alternates keys and values; \<open>text_of\<close> is the text of a
  scalar, \<open>decode\<close> and \<open>marshal\<close> what the libraries make of a value.\<close>

fun request_defaults_loop ::
  "('n \<Rightarrow> string) \<Rightarrow> ('n \<Rightarrow> 'e + 'v) \<Rightarrow> ('v \<Rightarrow> 'e + string) \<Rightarrow> 'n list \<Rightarrow> (string \<rightharpoonup> string)
   \<Rightarrow> 'e yaml_error + (string \<rightharpoonup> string)" where
  "request_defaults_loop text_of decode marshal (k # v # rest) out =
     (let key = text_of k
      in case decode v of
           Inl e \<Rightarrow> Inl (DefaultDecode key e)
         | Inr val \<Rightarrow> (case marshal val of
             Inl e \<Rightarrow> Inl (DefaultMarshal key e)
           | Inr enc \<Rightarrow> request_defaults_loop text_of decode marshal rest (out(key \<mapsto> enc))))"
| "request_defaults_loop text_of decode marshal _ out = Inr out"

definition RequestDefaultsMap_UnmarshalYAML ::
  "('n \<Rightarrow> string) \<Rightarrow> ('n \<Rightarrow> 'e + 'v) \<Rightarrow> ('v \<Rightarrow> 'e + string) \<Rightarrow> bool \<Rightarrow> 'n list \<Rightarrow> 'e yaml_error + (string \<rightharpoonup> string)" where
  "RequestDefaultsMap_UnmarshalYAML text_of decode marshal is_mapping content =
     (if \<not> is_mapping then Inl NotMapping
      else request_defaults_loop text_of decode marshal content Map.empty)"

section \<open>Tunnels\<close>

record SSHTunnelRuntime =
  st_Host :: string
  st_Port :: int
  st_User :: string
  st_IdentityFile :: string
  st_LocalPort :: int
  st_ConnectTimeout :: duration

datatype tunnel_error = ErrTunnelDisabled | errTunnelMissingField string

definition ToRuntime :: "TunnelConfig \<Rightarrow> tunnel_error + SSHTunnelRuntime" where
  "ToRuntime t =
     (if \<not> tc_Enabled t then Inl ErrTunnelDisabled
      else if tc_Host t = [] \<or> tc_User t = [] \<or> tc_IdentityFile t = []
      then Inl (errTunnelMissingField ''host/user/identity_file'')
      else if tc_LocalPort t \<le> 0 \<or> 65535 < tc_LocalPort t then Inl (errTunnelMissingField ''local_port'')
      else Inr \<lparr>st_Host = tc_Host t, st_Port = tc_Port t, st_User = tc_User t,
                st_IdentityFile = tc_IdentityFile t, st_LocalPort = tc_LocalPort t,
                st_ConnectTimeout = (if tc_ConnectTimeout t = 0 then 10 * Second else tc_ConnectTimeout t)\<rparr>)"

datatype ssh_error = HostRequired | UserRequired | IdentityRequired | LocalPortRange | ErrSSHNotInstalled

definition SSHTunnelConfig_Validate :: "SSHTunnelRuntime \<Rightarrow> ssh_error option" where
  "SSHTunnelConfig_Validate c =
     (if st_Host c = [] then Some HostRequired
      else if st_User c = [] then Some UserRequired
      else if st_IdentityFile c = [] then Some IdentityRequired
      else if st_LocalPort c \<le> 0 \<or> 65535 < st_LocalPort c then Some LocalPortRange
      else None)"

definition tunnel_New :: "bool \<Rightarrow> SSHTunnelRuntime \<Rightarrow> ssh_error option" where
  "tunnel_New ssh_found c =
     (case SSHTunnelConfig_Validate c of
        Some e \<Rightarrow> Some e
      | None \<Rightarrow> if \<not> ssh_found then Some ErrSSHNotInstalled else None)"

section \<open>The quota detector\<close>

record Detector =
  qd_pattern :: "string \<Rightarrow> bool"
  qd_webhookURL :: string
  qd_channel :: string

text \<open>\<open>compile\<close> is \<open>regexp.Compile\<close>, the matcher a pattern denotes.\<close>

definition quota_New :: "(string \<Rightarrow> (string \<Rightarrow> bool) option) \<Rightarrow> string \<Rightarrow> string \<Rightarrow> string \<Rightarrow> Detector option" where
  "quota_New compile pattern webhookURL channel =
     (if pattern = [] then None
      else case compile pattern of
        None \<Rightarrow> None
      | Some re \<Rightarrow> Some \<lparr>qd_pattern = re, qd_webhookURL = webhookURL, qd_channel = channel\<rparr>)"

definition Matches :: "Detector option \<Rightarrow> string \<Rightarrow> bool" where
  "Matches d body = (case d of None \<Rightarrow> False | Some d \<Rightarrow> qd_pattern d body)"

definition buildSlackText :: "string \<Rightarrow> string \<Rightarrow> string \<Rightarrow> string \<Rightarrow> string" where
  "buildSlackText model node vendor body =
     '':warning: *Quota fallback* | model=`'' @ model @ ''` node=`'' @ node @ ''` vendor=`'' @ vendor
       @ ''`'' @ [CHR 0x0A] @ ''```'' @ take 200 body @ ''```''"

text \<open>The member list of the message \<open>Notify\<close> posts, when it posts one.\<close>

definition Notify :: "Detector option \<Rightarrow> string \<Rightarrow> string \<Rightarrow> string \<Rightarrow> string \<Rightarrow> (string \<times> (string \<times> string) list) option" where
  "Notify d model node vendor body =
     (case d of
        None \<Rightarrow> None
      | Some d \<Rightarrow>
          if qd_webhookURL d = [] then None
          else Some (qd_webhookURL d,
            (if qd_channel d = [] then [] else [(''channel'', qd_channel d)])
            @ [(''text'', buildSlackText model node vendor body)]))"

section \<open>Diagnostic addresses\<close>

definition LoopbackHost :: string where "LoopbackHost = ''127.0.0.1''"
definition DefaultMetricsAddr :: string where "DefaultMetricsAddr = LoopbackHost @ '':9091''"

definition JoinHostPort :: "string \<Rightarrow> string \<Rightarrow> string" where
  "JoinHostPort host port =
     (if CHR '':'' \<in> set host then ''['' @ host @ '']:'' @ port else host @ '':'' @ port)"

definition DiagnosticListenAddr :: "string \<Rightarrow> string" where
  "DiagnosticListenAddr addr =
     (if addr = [] then []
      else case SplitHostPort addr of
        None \<Rightarrow> addr
      | Some (host, port) \<Rightarrow> if host \<noteq> [] then addr else JoinHostPort LoopbackHost port)"

section \<open>Loading\<close>

text \<open>\<open>le_Hostname\<close> gives the host name of a URL that parses, and nothing for one that does not.\<close>

record load_env =
  le_LookupEnv :: "string \<Rightarrow> string option"
  le_Hostname :: "string \<Rightarrow> string option"
  le_uni :: "string \<Rightarrow> string"
  le_fold :: "string \<Rightarrow> string \<Rightarrow> bool"

datatype 'e load_error =
    ReadFailed 'e | YamlFailed 'e | BodyReadTimeoutNegative duration | ProbeIntervalNegative duration
  | ProbeBurstNegative int | NoNodes | ForbiddenHost string string string | AuthHeaderAuthorization string
  | AuthHeaderChar string char | AuthHeaderNoKey string | WorkloadUnknown string string

definition ResolvedCircuit :: "NodeConfig \<Rightarrow> Defaults \<Rightarrow> int \<times> duration" where
  "ResolvedCircuit n def =
     (let t0 = cc_Threshold (df_Circuit def);
          t1 = (if 0 < cc_Threshold (nc_Circuit n) then cc_Threshold (nc_Circuit n) else t0);
          t2 = (if t1 \<le> 0 then DefaultCircuitThreshold else t1);
          c0 = cc_Cooldown (df_Circuit def);
          c1 = (if 0 < cc_Cooldown (nc_Circuit n) then cc_Cooldown (nc_Circuit n) else c0);
          c2 = (if c1 \<le> 0 then DefaultCircuitCooldown else c1)
      in (t2, c2))"

definition ForbiddenUpstreamHostSuffixes :: "string list" where
  "ForbiddenUpstreamHostSuffixes = [''zende.sk'', ''zendesk.com'']"

definition ExpandEnvValue :: "(string \<Rightarrow> string option) \<Rightarrow> string \<Rightarrow> string" where
  "ExpandEnvValue lookup s =
     (if \<not> HasPrefix s ''${'' \<or> \<not> HasSuffix s ''}'' then s
      else let key = take (length s - 3) (drop 2 s)
           in case lookup key of Some v \<Rightarrow> v | None \<Rightarrow> [])"

definition validateWorkloads :: "NodeConfig \<Rightarrow> 'e load_error option" where
  "validateWorkloads n =
     map_option (WorkloadUnknown (nc_Name n))
       (find (\<lambda>w. w \<notin> set [''internal'', ''customer'']) (nc_Workloads n))"

definition auth_header_char :: "char \<Rightarrow> bool" where
  "auth_header_char c =
     (let n = of_char c :: int
      in 97 \<le> n \<and> n \<le> 122 \<or> 65 \<le> n \<and> n \<le> 90 \<or> 48 \<le> n \<and> n \<le> 57 \<or> c = CHR ''-'')"

definition validateAuthHeader :: "load_env \<Rightarrow> NodeConfig \<Rightarrow> 'e load_error option" where
  "validateAuthHeader env n =
     (if nc_AuthHeader n = [] then None
      else if EqualFold (le_fold env) (nc_AuthHeader n) ''Authorization'' then Some (AuthHeaderAuthorization (nc_Name n))
      else case find (\<lambda>c. \<not> auth_header_char c) (nc_AuthHeader n) of
        Some c \<Rightarrow> Some (AuthHeaderChar (nc_Name n) c)
      | None \<Rightarrow>
          let hasKey = (nc_APIKey n \<noteq> [] \<or> list_ex (\<lambda>k. k \<noteq> []) (nc_APIKeys n))
          in if \<not> hasKey then Some (AuthHeaderNoKey (nc_Name n)) else None)"

definition ValidateUpstreamURL :: "load_env \<Rightarrow> string \<Rightarrow> string \<Rightarrow> 'e load_error option" where
  "ValidateUpstreamURL env nodeName rawURL =
     (if rawURL = [] then None
      else case le_Hostname env rawURL of
        None \<Rightarrow> None
      | Some h \<Rightarrow>
          let host = ToLower (le_uni env) h
          in if host = [] then None
             else map_option (\<lambda>suffix. ForbiddenHost nodeName host suffix)
               (find (\<lambda>suffix. host = suffix \<or> HasSuffix host (''.'' @ suffix)) ForbiddenUpstreamHostSuffixes))"

text \<open>The assignments of defaults, in order, up to each check that can fail.\<close>

definition default_listeners :: "RouterConfig \<Rightarrow> RouterConfig" where
  "default_listeners c =
     c\<lparr>rc_Listen := (if rc_Listen c = [] then '':8080'' else rc_Listen c),
       rc_MetricsAddr := DiagnosticListenAddr (if rc_MetricsAddr c = [] then DefaultMetricsAddr else rc_MetricsAddr c),
       rc_DebugAddr := DiagnosticListenAddr (rc_DebugAddr c)\<rparr>"

definition default_limits :: "Defaults \<Rightarrow> Defaults" where
  "default_limits d =
     d\<lparr>df_MaxQueueDepth := (if df_MaxQueueDepth d \<le> 0 then 8 else df_MaxQueueDepth d),
       df_MaxConcurrency := (if df_MaxConcurrency d \<le> 0 then 2 else df_MaxConcurrency d),
       df_RequestTimeout := (if df_RequestTimeout d \<le> 0 then 120 * Second else df_RequestTimeout d),
       df_KeyCooldown := (if df_KeyCooldown d < 0 then 0 else if df_KeyCooldown d = 0 then 5 * Minute else df_KeyCooldown d),
       df_MaxBodySize := (if df_MaxBodySize d \<le> 0 then 2 ^ 20 else df_MaxBodySize d)\<rparr>"

definition default_circuit :: "Defaults \<Rightarrow> Defaults" where
  "default_circuit d =
     d\<lparr>df_BodyReadTimeout := (if df_BodyReadTimeout d = 0 then DefaultBodyReadTimeout else df_BodyReadTimeout d),
       df_Circuit := (df_Circuit d)
         \<lparr>cc_Threshold := (if cc_Threshold (df_Circuit d) \<le> 0 then DefaultCircuitThreshold else cc_Threshold (df_Circuit d)),
          cc_Cooldown := (if cc_Cooldown (df_Circuit d) \<le> 0 then DefaultCircuitCooldown else cc_Cooldown (df_Circuit d))\<rparr>\<rparr>"

definition default_health :: "HealthConfig \<Rightarrow> HealthConfig" where
  "default_health h =
     h\<lparr>hc_Interval := (if hc_Interval h \<le> 0 then 15 * Second else hc_Interval h),
       hc_Timeout := (if hc_Timeout h \<le> 0 then 5 * Second else hc_Timeout h),
       hc_Path := (if hc_Path h = [] then ''/health'' else hc_Path h),
       hc_UnhealthyThreshold := (if hc_UnhealthyThreshold h \<le> 0 then 3 else hc_UnhealthyThreshold h),
       hc_HealthyThreshold := (if hc_HealthyThreshold h \<le> 0 then 1 else hc_HealthyThreshold h)\<rparr>"

definition default_fair :: "FairShareConfig \<Rightarrow> FairShareConfig" where
  "default_fair f =
     (if fs_Enabled f
      then f\<lparr>fs_MaxRequestsPerUser := (if fs_MaxRequestsPerUser f \<le> 0 then 10 else fs_MaxRequestsPerUser f),
             fs_Window := (if fs_Window f \<le> 0 then 60 * Second else fs_Window f),
             fs_Burst := (if fs_Burst f \<le> 0 then 3 else fs_Burst f)\<rparr>
      else f)"

definition expand_node :: "load_env \<Rightarrow> NodeConfig \<Rightarrow> NodeConfig" where
  "expand_node env n =
     n\<lparr>nc_APIKey := ExpandEnvValue (le_LookupEnv env) (nc_APIKey n),
       nc_APIKeys := map (ExpandEnvValue (le_LookupEnv env)) (nc_APIKeys n),
       nc_Enabled := ExpandEnvValue (le_LookupEnv env) (nc_Enabled n)\<rparr>"

definition check_node :: "load_env \<Rightarrow> NodeConfig \<Rightarrow> 'e load_error option" where
  "check_node env n =
     (case ValidateUpstreamURL env (nc_Name n) (nc_URL n) of
        Some e \<Rightarrow> Some e
      | None \<Rightarrow> (case validateAuthHeader env n of
          Some e \<Rightarrow> Some e
        | None \<Rightarrow> validateWorkloads n))"

fun load_nodes :: "load_env \<Rightarrow> NodeConfig list \<Rightarrow> 'e load_error + NodeConfig list" where
  "load_nodes env [] = Inr []"
| "load_nodes env (n # ns) =
     (let n' = expand_node env n
      in case check_node env n' of
           Some e \<Rightarrow> Inl e
         | None \<Rightarrow> (case load_nodes env ns of Inl e \<Rightarrow> Inl e | Inr ns' \<Rightarrow> Inr (n' # ns')))"

definition apply_config :: "load_env \<Rightarrow> RouterConfig \<Rightarrow> 'e load_error + RouterConfig" where
  "apply_config env c0 =
     (let c1 = default_listeners c0;
          d1 = default_limits (rc_Defaults c1)
      in if df_BodyReadTimeout d1 < 0 then Inl (BodyReadTimeoutNegative (df_BodyReadTimeout d1))
         else let h = default_health (rc_HealthCheck c1);
                  c2 = c1\<lparr>rc_Defaults := default_circuit d1, rc_HealthCheck := h\<rparr>
              in if lp_Interval (hc_LiveProbe h) < 0 then Inl (ProbeIntervalNegative (lp_Interval (hc_LiveProbe h)))
                 else if lp_Burst (hc_LiveProbe h) < 0 then Inl (ProbeBurstNegative (lp_Burst (hc_LiveProbe h)))
                 else let c3 = c2\<lparr>rc_FairShare := default_fair (rc_FairShare c2)\<rparr>
                      in if rc_Nodes c3 = [] then Inl NoNodes
                         else let c4 = c3\<lparr>rc_AuthToken := ExpandEnvValue (le_LookupEnv env) (rc_AuthToken c3)\<rparr>
                              in case load_nodes env (rc_Nodes c4) of
                                   Inl e \<Rightarrow> Inl e
                                 | Inr ns \<Rightarrow> Inr (c4\<lparr>rc_Nodes := ns\<rparr>))"

text \<open>A call that fails returns the configuration as far as it got beside the error; every caller
  drops it.\<close>

definition LoadConfig ::
  "load_env \<Rightarrow> (string \<Rightarrow> 'e + string) \<Rightarrow> (string \<Rightarrow> 'e + RouterConfig) \<Rightarrow> string \<Rightarrow> 'e load_error + RouterConfig" where
  "LoadConfig env ReadFile Unmarshal path =
     (case ReadFile path of
        Inl e \<Rightarrow> Inl (ReadFailed e)
      | Inr data \<Rightarrow> (case Unmarshal data of
          Inl e \<Rightarrow> Inl (YamlFailed e)
        | Inr c \<Rightarrow> apply_config env c))"

section \<open>What a loaded configuration satisfies\<close>

lemma auth_header_char_facts:
  assumes "auth_header_char c"
  shows "of_char c < (128::int)" "header_char c" 
  using assms by (auto simp: auth_header_char_def header_char_def Let_def)

lemma ascii_lower_canonical: "map ascii_lower (canonical_bytes u s) = map ascii_lower s"
proof (induction s arbitrary: u)
  case (Cons c s)
  have "ascii_lower (char_of ((of_char c :: int) - 32)) = c" if "97 \<le> (of_char c :: int)" "(of_char c :: int) \<le> 122"
  proof -
    have "of_char (char_of ((of_char c :: int) - 32) :: char) = (of_char c :: int) - 32"
      using that by (simp add: of_char_of)
    then show ?thesis using that by (simp add: ascii_lower_def Let_def)
  qed
  moreover have "ascii_lower (char_of ((of_char c :: int) + 32)) = ascii_lower c"
    if "65 \<le> (of_char c :: int)" "(of_char c :: int) \<le> 90"
  proof -
    have "of_char (char_of ((of_char c :: int) + 32) :: char) = (of_char c :: int) + 32"
      using that by (simp add: of_char_of)
    then show ?thesis using that by (simp add: ascii_lower_def Let_def)
  qed
  moreover have "ascii_lower c = c" if "97 \<le> (of_char c :: int)" using that by (simp add: ascii_lower_def Let_def)
  ultimately show ?case using Cons.IH by (auto simp: Let_def)
qed simp

text \<open>A header name that is not Authorization in any case has another canonical form.\<close>

lemma canonical_not_Authorization:
  assumes "list_all auth_header_char h" "\<not> EqualFold ufold h ''Authorization''"
  shows "CanonicalHeaderKey h \<noteq> ''Authorization''"
proof
  assume e: "CanonicalHeaderKey h = ''Authorization''"
  have a: "is_ascii h" using assms(1) by (auto simp: is_ascii_def list_all_iff intro: auth_header_char_facts)
  have "list_all header_char h" using assms(1) by (auto simp: list_all_iff intro: auth_header_char_facts)
  then have "map ascii_lower ''Authorization'' = map ascii_lower h"
    using e ascii_lower_canonical [of True h] by (simp add: CanonicalHeaderKey_def)
  moreover have "is_ascii ''Authorization''" by (simp add: is_ascii_def)
  ultimately show False using assms(2) a by (simp add: EqualFold_def)
qed

lemma last_index_byteD:
  assumes "last_index_byte c s = Some i"
  shows "i < length s" "s ! i = c" "c \<notin> set (drop (i + 1) s)"
proof -
  obtain j where j: "index_byte c (rev s) = Some j" "i = length s - 1 - j" using assms by (auto simp: last_index_byte_def)
  have "index_byte c t = Some k \<Longrightarrow> k < length t \<and> t ! k = c \<and> c \<notin> set (take k t)" for k t
    by (induction t arbitrary: k) (auto split: if_splits)
  from this [OF j(1)] have k: "j < length s" "rev s ! j = c" "c \<notin> set (take j (rev s))" by auto
  show "i < length s" "s ! i = c" using k j(2) by (auto simp: rev_nth)
  have "i + 1 = length s - j" using k(1) j(2) by simp
  then have "drop (i + 1) s = drop (length s - j) s" by simp
  then show "c \<notin> set (drop (i + 1) s)" using k(3) by (simp add: take_rev)
qed

abbreviation unmarked :: "string \<Rightarrow> bool" where
  "unmarked s \<equiv> CHR ''['' \<notin> set s \<and> CHR '']'' \<notin> set s \<and> CHR '':'' \<notin> set s"

lemma SplitHostPort_unmarked:
  assumes "unmarked h" "unmarked p" shows "SplitHostPort (h @ CHR '':'' # p) = Some (h, p)"
proof -
  have ib: "index_byte b (xs @ b # ys) = Some (length xs)" if "b \<notin> set xs" for b xs ys
    using that by (induction xs) auto
  have "last_index_byte (CHR '':'') (h @ CHR '':'' # p) = Some (length h)"
    using assms ib [of "CHR '':''" "rev p" "rev h"] by (simp add: last_index_byte_def)
  moreover have "hd (h @ CHR '':'' # p) \<noteq> CHR ''[''" using assms by (cases h) auto
  ultimately show ?thesis using assms by (simp add: SplitHostPort_def index_byte_None)
qed

lemma hostless_port_unmarked:
  assumes "SplitHostPort a = Some ([], p)" shows "unmarked p"
proof -
  obtain i where i: "last_index_byte (CHR '':'') a = Some i" using assms by (auto simp: SplitHostPort_def split: option.splits)
  note l = last_index_byteD [OF i]
  show ?thesis
  proof (cases "hd a = CHR ''[''")
    case True
    then obtain e where e: "index_byte (CHR '']'') a = Some e" "e + 1 = i" "CHR ''['' \<notin> set (drop 1 a)"
      "CHR '']'' \<notin> set (drop (e + 1) a)" "p = drop (i + 1) a"
      using assms i by (auto simp: SplitHostPort_def index_byte_None split: option.splits if_splits)
    have "set p \<subseteq> set (drop 1 a)" "set p \<subseteq> set (drop (e + 1) a)" 
      using e(2,5) set_drop_subset_set_drop [of 1 "i + 1" a] set_drop_subset_set_drop [of "e + 1" "i + 1" a] by simp_all
    then show ?thesis using l(3) e by auto
  next
    case False
    then have "CHR ''['' \<notin> set a" "CHR '']'' \<notin> set a" "p = drop (i + 1) a"
      using assms i by (auto simp: SplitHostPort_def index_byte_None split: option.splits if_splits)
    then show ?thesis using l(3) by (auto dest: in_set_dropD)
  qed
qed

lemma diagnostic_never_wildcard:
  assumes "SplitHostPort (DiagnosticListenAddr a) = Some (h, p)" shows "h \<noteq> []"
proof (cases "SplitHostPort a")
  case None
  then have "DiagnosticListenAddr a = a" by (simp add: DiagnosticListenAddr_def)
  then show ?thesis using assms None by simp
next
  case (Some hp)
  obtain h0 p0 where hp: "hp = ([], p0) \<or> hp = (h0, p0) \<and> h0 \<noteq> []" by (cases hp) auto
  show ?thesis
  proof (cases "h0 = [] \<or> hp = ([], p0)")
    case True
    then have s: "SplitHostPort a = Some ([], p0)" using Some hp by auto
    have "DiagnosticListenAddr a = LoopbackHost @ CHR '':'' # p0"
      using s by (auto simp: DiagnosticListenAddr_def JoinHostPort_def LoopbackHost_def SplitHostPort_def last_index_byte_def)
    moreover have "SplitHostPort (LoopbackHost @ CHR '':'' # p0) = Some (LoopbackHost, p0)"
      using hostless_port_unmarked [OF s] by (intro SplitHostPort_unmarked) (simp_all add: LoopbackHost_def)
    ultimately show ?thesis using assms by (auto simp: LoopbackHost_def)
  next
    case False
    then have "DiagnosticListenAddr a = a" using Some hp by (auto simp: DiagnosticListenAddr_def)
    then show ?thesis using assms Some False hp by auto
  qed
qed

text \<open>A configuration the router can run on.\<close>

definition forbidden_host :: "string \<Rightarrow> bool" where
  "forbidden_host host \<longleftrightarrow> (\<exists>s \<in> set ForbiddenUpstreamHostSuffixes. host = s \<or> HasSuffix host (''.'' @ s))"

definition node_config_ok :: "load_env \<Rightarrow> NodeConfig \<Rightarrow> bool" where
  "node_config_ok env n \<longleftrightarrow>
     set (nc_Workloads n) \<subseteq> {ClassInternal, ClassCustomer}
   \<and> (nc_URL n \<noteq> [] \<longrightarrow> (\<forall>h. le_Hostname env (nc_URL n) = Some h \<longrightarrow> \<not> forbidden_host (ToLower (le_uni env) h)))
   \<and> (nc_AuthHeader n \<noteq> [] \<longrightarrow> CanonicalHeaderKey (nc_AuthHeader n) \<noteq> ''Authorization''
        \<and> list_all header_char (nc_AuthHeader n) \<and> (\<exists>k \<in> set (nc_APIKey n # nc_APIKeys n). k \<noteq> []))"

definition defaults_ok :: "Defaults \<Rightarrow> bool" where
  "defaults_ok d \<longleftrightarrow> 0 < df_MaxQueueDepth d \<and> 0 < df_MaxConcurrency d \<and> 0 < df_RequestTimeout d \<and> 0 \<le> df_KeyCooldown d
     \<and> 0 < df_MaxBodySize d \<and> 0 < df_BodyReadTimeout d \<and> 0 < cc_Threshold (df_Circuit d) \<and> 0 < cc_Cooldown (df_Circuit d)"

definition health_config_ok :: "HealthConfig \<Rightarrow> bool" where
  "health_config_ok h \<longleftrightarrow> 0 < hc_Interval h \<and> 0 < hc_Timeout h \<and> hc_Path h \<noteq> [] \<and> 0 < hc_UnhealthyThreshold h
     \<and> 0 < hc_HealthyThreshold h \<and> 0 \<le> lp_Interval (hc_LiveProbe h) \<and> 0 \<le> lp_Burst (hc_LiveProbe h)"

definition fair_ok :: "FairShareConfig \<Rightarrow> bool" where
  "fair_ok f \<longleftrightarrow> (fs_Enabled f \<longrightarrow> 0 < fs_MaxRequestsPerUser f \<and> 0 < fs_Window f \<and> 0 < fs_Burst f)"

definition explicit_host :: "string \<Rightarrow> bool" where
  "explicit_host a \<longleftrightarrow> (\<forall>h p. SplitHostPort a = Some (h, p) \<longrightarrow> h \<noteq> [])"

definition config_ok :: "load_env \<Rightarrow> RouterConfig \<Rightarrow> bool" where
  "config_ok env c \<longleftrightarrow> rc_Listen c \<noteq> [] \<and> explicit_host (rc_MetricsAddr c) \<and> explicit_host (rc_DebugAddr c)
     \<and> defaults_ok (rc_Defaults c) \<and> health_config_ok (rc_HealthCheck c) \<and> fair_ok (rc_FairShare c)
     \<and> rc_Nodes c \<noteq> [] \<and> (\<forall>n \<in> set (rc_Nodes c). node_config_ok env n)"

lemma check_node_ok:
  assumes "(check_node env n :: 'e load_error option) = None" shows "node_config_ok env n"
proof -
  have u: "(ValidateUpstreamURL env (nc_Name n) (nc_URL n) :: 'e load_error option) = None"
    and a: "(validateAuthHeader env n :: 'e load_error option) = None"
    and w: "(validateWorkloads n :: 'e load_error option) = None"
    using assms by (auto simp: check_node_def split: option.splits)
  have "set (nc_Workloads n) \<subseteq> {ClassInternal, ClassCustomer}"
    using w by (auto simp: validateWorkloads_def find_None_iff ClassInternal_def ClassCustomer_def)
  moreover have "\<not> forbidden_host (ToLower (le_uni env) h)" if "nc_URL n \<noteq> []" "le_Hostname env (nc_URL n) = Some h" for h
    using u that by (auto simp: ValidateUpstreamURL_def forbidden_host_def find_None_iff Let_def ForbiddenUpstreamHostSuffixes_def
      HasSuffix_iff split: if_splits)
  moreover have "CanonicalHeaderKey (nc_AuthHeader n) \<noteq> ''Authorization'' \<and> list_all header_char (nc_AuthHeader n)
      \<and> (\<exists>k \<in> set (nc_APIKey n # nc_APIKeys n). k \<noteq> [])" if h: "nc_AuthHeader n \<noteq> []"
  proof -
    have f: "\<not> EqualFold (le_fold env) (nc_AuthHeader n) ''Authorization''"
      "find (\<lambda>c. \<not> auth_header_char c) (nc_AuthHeader n) = None"
      "nc_APIKey n \<noteq> [] \<or> list_ex (\<lambda>k. k \<noteq> []) (nc_APIKeys n)"
      using a h by (auto simp: validateAuthHeader_def Let_def split: if_splits option.splits)
    have l: "list_all auth_header_char (nc_AuthHeader n)" using f(2) by (auto simp: find_None_iff list_all_iff)
    have "list_all header_char (nc_AuthHeader n)" using l by (auto simp: list_all_iff intro: auth_header_char_facts)
    then show ?thesis using canonical_not_Authorization [OF l f(1)] f(3) by (auto simp: list_ex_iff)
  qed
  ultimately show ?thesis by (auto simp: node_config_ok_def)
qed

lemma load_nodes_ok:
  "load_nodes env ns = (Inr ns' :: 'e load_error + _) \<Longrightarrow> length ns' = length ns \<and> (\<forall>n \<in> set ns'. node_config_ok env n)"
  by (induction ns arbitrary: ns') (auto simp: Let_def intro: check_node_ok split: option.splits sum.splits)

lemma apply_config_ok:
  assumes "apply_config env c0 = (Inr c :: 'e load_error + _)" shows "config_ok env c"
proof -
  let ?c1 = "default_listeners c0"
  let ?d = "default_limits (rc_Defaults ?c1)" and ?h = "default_health (rc_HealthCheck ?c1)"
  have chk: "\<not> df_BodyReadTimeout ?d < 0" "\<not> lp_Interval (hc_LiveProbe ?h) < 0" "\<not> lp_Burst (hc_LiveProbe ?h) < 0"
    "rc_Nodes ?c1 \<noteq> []"
    using assms by (auto simp: apply_config_def Let_def split: if_splits)
  then obtain ns where n: "load_nodes env (rc_Nodes ?c1) = (Inr ns :: 'e load_error + _)" and
    c: "c = ?c1\<lparr>rc_Defaults := default_circuit ?d, rc_HealthCheck := ?h, rc_FairShare := default_fair (rc_FairShare ?c1),
          rc_AuthToken := ExpandEnvValue (le_LookupEnv env) (rc_AuthToken ?c1), rc_Nodes := ns\<rparr>"
    using assms by (auto simp: apply_config_def Let_def split: sum.splits)
  have "explicit_host (rc_MetricsAddr ?c1)" "explicit_host (rc_DebugAddr ?c1)" "rc_Listen ?c1 \<noteq> []"
    using diagnostic_never_wildcard by (auto simp: explicit_host_def default_listeners_def)
  moreover have "defaults_ok (default_circuit ?d)"
    using chk(1) by (auto simp: defaults_ok_def default_circuit_def default_limits_def DefaultBodyReadTimeout_def
      DefaultCircuitThreshold_def DefaultCircuitCooldown_def)
  moreover have "health_config_ok ?h" using chk(2,3) by (auto simp: health_config_ok_def default_health_def)
  moreover have "fair_ok (default_fair (rc_FairShare ?c1))" by (auto simp: fair_ok_def default_fair_def)
  moreover have "ns \<noteq> []" "\<forall>n \<in> set ns. node_config_ok env n" using load_nodes_ok [OF n] chk(4) by auto
  ultimately show ?thesis unfolding c config_ok_def by simp
qed

end
