(* ===== verification/Token_Bucket.thy ===== *)
theory Token_Bucket
  imports Go_Float_Text
begin

text \<open>
  The two token buckets of the router: the per-user buckets of
  \<open>internal/fairshare/fairshare.go\<close> with their scheduler, and the limiter of forced health
  probes in \<open>internal/health/liveprobe.go\<close>.  Token counts are float64 and every operation
  rounds as Go's does; clock readings are arguments.  What the two have in common is proved
  once, in the locale \<open>refilling\<close>.
\<close>

section \<open>Exact steps of floating-point counters\<close>

lemma f64_multiple:
  assumes "0 < x" "x = of_int j * 2 powi s" "f64_scale x \<le> s" shows "f64_round x = x"
proof -
  have "(2::rat) powi s = of_int (2 ^ nat (s - f64_scale x)) * 2 powi f64_scale x"
    using powi2_split [OF assms(3)] by simp
  then have "x = of_int (j * 2 ^ nat (s - f64_scale x)) * 2 powi f64_scale x"
    using assms(2) by (metis mult.assoc of_int_mult)
  then show ?thesis by (rule f64_round_int_scale [OF assms(1)])
qed

text \<open>Taking one token off a count that a float64 holds exactly is exact.\<close>

lemma f64_sub_one:
  assumes "f64_round t = t" "1 \<le> t" "t \<le> 2 ^ 53" shows "f64_sub t 1 = t - 1"
proof (cases "t = 1 \<or> t = 2 ^ 53")
  case True
  then show ?thesis using f64_of_int_exact [of "2 ^ 53 - 1"] by (auto simp: f64_sub_def f64_of_int_def)
next
  case False
  then have t: "1 < t" "t < 2 ^ 53" using assms by auto
  then have t0: "0 < t" by simp
  have k: "floor_log2 t \<le> 52"
    using floor_log2_bounds(1) [OF t0] t(2) powi2_mono [of 53 "floor_log2 t"] by (cases "53 \<le> floor_log2 t") auto
  define s where "s = f64_scale t"
  have s: "s \<le> 0" using k t0 by (simp add: s_def f64_scale_def)
  have m: "t = of_int (rne (t / 2 powi s)) * 2 powi s"
    using f64_round_pos [OF t0] assms(1) by (simp add: s_def)
  have one: "1 = of_int (2 ^ nat (- s)) * (2::rat) powi s" using powi2_split [OF s] by simp
  have e: "t - 1 = of_int (rne (t / 2 powi s) - 2 ^ nat (- s)) * 2 powi s"
    unfolding of_int_diff left_diff_distrib using m one by metis
  have l: "f64_scale (t - 1) \<le> s"
    unfolding s_def using t by (intro f64_scale_mono) auto
  have "f64_round (t - 1) = t - 1" using t(1) by (intro f64_multiple [OF _ e l]) simp
  then show ?thesis by (simp add: f64_sub_def)
qed

lemma f64_add_mono: "0 \<le> a + b \<Longrightarrow> a + b \<le> c + d \<Longrightarrow> f64_add a b \<le> f64_add c d"
  by (simp add: f64_add_def f64_round_mono)

lemma f64_add_ge:
  assumes "f64_round t = t" "0 \<le> t" "0 \<le> r" shows "t \<le> f64_add t r"
  using f64_round_mono [of t "t + r"] assms by (simp add: f64_add_def)

lemma f64_div_ge_1: "0 < b \<Longrightarrow> b \<le> a \<Longrightarrow> 1 \<le> f64_div a b"
  using f64_round_mono [of 1 "a / b"] f64_of_int_exact [of 1] by (simp add: f64_div_def f64_of_int_def)

lemma f64_of_int_round [simp]: "0 \<le> n \<Longrightarrow> f64_round (f64_of_int n) = f64_of_int n"
  by (simp add: f64_of_int_def f64_round_idem)

lemma f64_round_one: "f64_round 1 = 1"
  using f64_of_int_exact [of 1] by (simp add: f64_of_int_def)

section \<open>What both buckets do\<close>

text \<open>One request: refill, saturate, and take a token if there is one.\<close>

definition take_token :: "rat \<Rightarrow> rat \<Rightarrow> bool \<times> rat" where
  "take_token cap t = (let t' = (if cap < t then cap else t) in if t' < 1 then (False, t') else (True, f64_sub t' 1))"

locale refilling =
  fixes allow :: "time \<Rightarrow> 'b \<Rightarrow> bool \<times> 'b"
    and tokens :: "'b \<Rightarrow> rat" and refill :: "duration \<Rightarrow> 'b \<Rightarrow> rat" and stamp :: "'b \<Rightarrow> time"
    and cap :: "'b \<Rightarrow> rat" and period :: "'b \<Rightarrow> duration" and gain :: "'b \<Rightarrow> rat" and ok :: "'b \<Rightarrow> bool"
  assumes allow_step: "ok b \<Longrightarrow> allow now b = (a, b') \<Longrightarrow>
      (a, tokens b') = take_token (cap b) (if stamp b < now then f64_add (tokens b) (refill (time_sub now (stamp b)) b) else tokens b)
      \<and> ok b' \<and> cap b' = cap b \<and> period b' = period b \<and> gain b' = gain b \<and> stamp b' = max now (stamp b)"
    and cap_ok: "ok b \<Longrightarrow> f64_round (cap b) = cap b \<and> 0 \<le> cap b \<and> cap b \<le> 2 ^ 53 \<and> f64_round (gain b) = gain b"
    and tokens_ok: "ok b \<Longrightarrow> f64_round (tokens b) = tokens b \<and> 0 \<le> tokens b \<and> tokens b \<le> cap b"
    and refill_period: "ok b \<Longrightarrow> 0 < period b \<and> period b \<le> max_int64 \<and> (period b \<le> d \<longrightarrow> d \<le> max_int64 \<longrightarrow> gain b \<le> refill d b)"
    and refill_pos: "ok b \<Longrightarrow> 0 \<le> d \<Longrightarrow> d \<le> max_int64 \<Longrightarrow> 0 \<le> refill d b"
begin

fun run :: "time list \<Rightarrow> 'b \<Rightarrow> bool list \<times> 'b" where
  "run [] b = ([], b)"
| "run (now # ts) b = (case allow now b of (a, b') \<Rightarrow> case run ts b' of (as, b'') \<Rightarrow> (a # as, b''))"

lemma run_ok: "ok b \<Longrightarrow> run ts b = (as, b') \<Longrightarrow> ok b' \<and> cap b' = cap b"
proof (induction ts arbitrary: b as)
  case (Cons now ts)
  then show ?case using allow_step [OF Cons.prems(1)] by (fastforce split: prod.splits)
qed simp

text \<open>Requests that arrive together drain a whole number of tokens one by one.\<close>

lemma drains_in_order:
  assumes "ok b" "tokens b = of_nat k" "\<forall>t \<in> set ts. t \<le> stamp b"
  shows "fst (run ts b) = replicate (min (length ts) k) True @ replicate (length ts - k) False"
  using assms
proof (induction ts arbitrary: b k)
  case (Cons now ts)
  obtain a c where c: "allow now b = (a, c)" by fastforce
  note st = allow_step [OF Cons.prems(1) c]
  have now: "\<not> stamp b < now" "max now (stamp b) = stamp b" using Cons.prems(3) by auto
  have "\<not> cap b < tokens b" using tokens_ok [OF Cons.prems(1)] by auto
  then have tk: "(a, tokens c) = (if tokens b < 1 then (False, tokens b) else (True, f64_sub (tokens b) 1))"
    using st now by (simp add: take_token_def)
  have IH: "tokens c = of_nat j \<Longrightarrow>
      fst (run ts c) = replicate (min (length ts) j) True @ replicate (length ts - j) False" for j
    using Cons.IH [of c j] st now Cons.prems(3) by auto
  show ?case
  proof (cases k)
    case 0
    then show ?thesis using tk IH [of 0] c Cons.prems(2) by (simp add: case_prod_beta)
  next
    case (Suc j)
    then have one: "1 \<le> tokens b" using Cons.prems(2) by simp
    then have "f64_sub (tokens b) 1 = tokens b - 1"
      using tokens_ok [OF Cons.prems(1)] cap_ok [OF Cons.prems(1)] by (intro f64_sub_one) auto
    then have "a" "tokens c = of_nat j" using tk one Cons.prems(2) Suc by auto
    then show ?thesis using IH [of j] c Suc by (simp add: case_prod_beta)
  qed
qed simp

text \<open>A full period of rest gives \<open>gain\<close> tokens, up to the capacity.\<close>

lemma rest_gains:
  assumes "ok b" "stamp b + period b \<le> now" "0 \<le> gain b"
  shows "stamp b < now"
    and "min (gain b) (cap b) \<le> f64_add (tokens b) (refill (time_sub now (stamp b)) b)"
    and "f64_round (f64_add (tokens b) (refill (time_sub now (stamp b)) b)) = f64_add (tokens b) (refill (time_sub now (stamp b)) b)"
proof -
  let ?t = "f64_add (tokens b) (refill (time_sub now (stamp b)) b)"
  have le: "period b \<le> time_sub now (stamp b)" "time_sub now (stamp b) \<le> max_int64"
    using refill_period [OF assms(1), of 0] assms(2) time_sub_ge_iff [of "period b" now "stamp b"]
    by (auto simp: time_sub_def)
  have p: "0 < period b" "gain b \<le> refill (time_sub now (stamp b)) b"
    using refill_period [OF assms(1)] le by auto
  then show "stamp b < now" using assms(2) by simp
  have r: "0 \<le> refill (time_sub now (stamp b)) b" using refill_pos [OF assms(1)] le p(1) by simp
  show "f64_round ?t = ?t" unfolding f64_add_def
    using tokens_ok [OF assms(1)] r by (intro f64_round_idem) simp
  have "f64_round (min (gain b) (cap b)) \<le> ?t"
    unfolding f64_add_def using tokens_ok [OF assms(1)] cap_ok [OF assms(1)] p(2) assms(3) by (intro f64_round_mono) auto
  then show "min (gain b) (cap b) \<le> ?t" using cap_ok [OF assms(1)] by (simp add: min_def split: if_splits)
qed

lemma rested:
  assumes "ok b" "stamp b + period b \<le> now" "1 \<le> gain b" "1 \<le> cap b" shows "fst (allow now b)"
proof -
  obtain a b' where a: "allow now b = (a, b')" by fastforce
  note g = rest_gains [OF assms(1,2)]
  show ?thesis using allow_step [OF assms(1) a] g assms(3,4) a by (auto simp: take_token_def Let_def split: if_splits)
qed

lemma rested_batch:
  assumes "ok b" "stamp b + period b \<le> now" "gain b = cap b" "cap b = of_nat m" "\<forall>t \<in> set ts. t \<le> now"
  shows "fst (run (now # ts) b) = replicate (min (Suc (length ts)) m) True @ replicate (Suc (length ts) - m) False"
proof -
  obtain a c where c: "allow now b = (a, c)" by fastforce
  note st = allow_step [OF assms(1) c]
  note g = rest_gains [OF assms(1,2)]
  have tk: "(a, tokens c) = take_token (cap b) (cap b)" using st g cap_ok [OF assms(1)] assms(3) by (auto simp: take_token_def Let_def)
  have ts: "\<forall>t \<in> set ts. t \<le> stamp c" using assms(5) st by auto
  have IH: "tokens c = of_nat j \<Longrightarrow>
      fst (run ts c) = replicate (min (length ts) j) True @ replicate (length ts - j) False" for j
    using drains_in_order [of c j ts] st ts by auto
  show ?thesis
  proof (cases m)
    case 0
    then show ?thesis using tk IH [of 0] c assms(4) by (simp add: take_token_def case_prod_beta)
  next
    case (Suc j)
    have "f64_sub (cap b) 1 = cap b - 1"
      using cap_ok [OF assms(1)] assms(4) Suc by (intro f64_sub_one) auto
    then have "a" "tokens c = of_nat j" using tk assms(4) Suc by (auto simp: take_token_def)
    then show ?thesis using IH [of j] c Suc by (simp add: case_prod_beta)
  qed
qed

end

section \<open>The per-user buckets\<close>

record bucket =
  b_tokens :: rat
  b_maxTokens :: int
  b_window :: duration
  b_lastRefill :: time
  b_lastAccess :: time

definition newBucket :: "time \<Rightarrow> int \<Rightarrow> duration \<Rightarrow> int \<Rightarrow> bucket" where
  "newBucket now maxRequests window burst =
     (let initial = (if burst > maxRequests then maxRequests else burst)
      in \<lparr>b_tokens = f64_of_int initial, b_maxTokens = maxRequests, b_window = window,
          b_lastRefill = now, b_lastAccess = now\<rparr>)"

definition bucket_refill :: "duration \<Rightarrow> bucket \<Rightarrow> rat" where
  "bucket_refill elapsed b =
     f64_mul (f64_of_int (b_maxTokens b)) (f64_div (f64_of_int elapsed) (f64_of_int (b_window b)))"

definition bucket_Allow :: "time \<Rightarrow> bucket \<Rightarrow> bool \<times> bucket" where
  "bucket_Allow now b =
     (let b1 = b\<lparr>b_lastAccess := now\<rparr>;
          elapsed = time_sub now (b_lastRefill b1);
          b2 = (if 0 < elapsed \<and> 0 < b_window b1
                then let t = f64_add (b_tokens b1) (bucket_refill elapsed b1);
                         t' = (if f64_of_int (b_maxTokens b1) < t then f64_of_int (b_maxTokens b1) else t)
                     in b1\<lparr>b_tokens := t', b_lastRefill := now\<rparr>
                else b1)
      in if b_tokens b2 < 1 then (False, b2) else (True, b2\<lparr>b_tokens := f64_sub (b_tokens b2) 1\<rparr>))"

record FairConfig =
  fc_MaxRequestsPerUser :: int
  fc_Window :: duration
  fc_Burst :: int
  fc_CleanupInterval :: duration

text \<open>A bucket is an object that the map and the running calls point to: the heap lists the objects in
  the order of their allocation and the map holds their addresses.\<close>

record Scheduler =
  sc_cfg :: FairConfig
  sc_buckets :: "string \<Rightarrow> nat option"
  sc_heap :: "bucket list"

definition bucket_at :: "Scheduler \<Rightarrow> string \<Rightarrow> bucket option" where
  "bucket_at s user = map_option ((!) (sc_heap s)) (sc_buckets s user)"

definition NewScheduler :: "FairConfig \<Rightarrow> Scheduler" where
  "NewScheduler c =
     \<lparr>sc_cfg = (if fc_CleanupInterval c \<le> 0 then c\<lparr>fc_CleanupInterval := 300000000000\<rparr> else c),
      sc_buckets = (\<lambda>_. None), sc_heap = []\<rparr>"

definition fresh_bucket :: "time \<Rightarrow> FairConfig \<Rightarrow> bucket" where
  "fresh_bucket now c = newBucket now (fc_MaxRequestsPerUser c) (fc_Window c) (fc_Burst c)"

text \<open>\<open>Acquire\<close> has two critical sections.  Under the scheduler's lock it looks the bucket up or
  creates it; under the bucket's own lock, later, it takes the token.\<close>

definition Scheduler_lookup :: "time \<Rightarrow> string \<Rightarrow> Scheduler \<Rightarrow> nat \<times> Scheduler" where
  "Scheduler_lookup created user s =
     (case sc_buckets s user of
        Some a \<Rightarrow> (a, s)
      | None \<Rightarrow> (length (sc_heap s),
          s\<lparr>sc_buckets := (sc_buckets s)(user \<mapsto> length (sc_heap s)),
            sc_heap := sc_heap s @ [fresh_bucket created (sc_cfg s)]\<rparr>))"

definition Allow_at :: "time \<Rightarrow> nat \<Rightarrow> Scheduler \<Rightarrow> bool \<times> Scheduler" where
  "Allow_at now a s =
     (case bucket_Allow now (sc_heap s ! a) of (ok, b') \<Rightarrow> (ok, s\<lparr>sc_heap := (sc_heap s)[a := b']\<rparr>))"

definition Scheduler_Acquire :: "time \<Rightarrow> time \<Rightarrow> string \<Rightarrow> Scheduler \<Rightarrow> bool \<times> Scheduler" where
  "Scheduler_Acquire created now user s = (case Scheduler_lookup created user s of (a, s') \<Rightarrow> Allow_at now a s')"

definition Scheduler_Release :: "string \<Rightarrow> Scheduler \<Rightarrow> Scheduler" where "Scheduler_Release user s = s"

definition gc :: "time \<Rightarrow> Scheduler \<Rightarrow> Scheduler" where
  "gc now s =
     s\<lparr>sc_buckets := (\<lambda>user. case sc_buckets s user of
          None \<Rightarrow> None
        | Some a \<Rightarrow> if wrap64 (fc_Window (sc_cfg s) * 2) < time_sub now (b_lastAccess (sc_heap s ! a)) then None else Some a)\<rparr>"

lemma elapsed_pos: "0 < time_sub t u \<longleftrightarrow> u < t"
  by (auto simp: time_sub_def)

definition bucket_ok :: "bucket \<Rightarrow> bool" where
  "bucket_ok b \<longleftrightarrow> 0 < b_window b \<and> b_window b \<le> max_int64 \<and> 0 \<le> b_maxTokens b \<and> b_maxTokens b \<le> 2 ^ 53
     \<and> f64_round (b_tokens b) = b_tokens b \<and> 0 \<le> b_tokens b \<and> b_tokens b \<le> f64_of_int (b_maxTokens b)"

lemma take_token_range:
  assumes "take_token c t = (a, t')" "f64_round c = c" "f64_round t = t" "0 \<le> c" "0 \<le> t"
  shows "f64_round t' = t' \<and> 0 \<le> t' \<and> t' \<le> c"
proof -
  define u where "u = (if c < t then c else t)"
  have u: "f64_round u = u" "0 \<le> u" "u \<le> c" using assms(2-5) by (auto simp: u_def)
  have t': "t' = (if u < 1 then u else f64_sub u 1)" using assms(1) by (auto simp: take_token_def u_def Let_def split: if_splits)
  show ?thesis
  proof (cases "u < 1")
    case False
    then have "f64_round (u - 1) \<le> f64_round u" by (intro f64_round_mono) auto
    then show ?thesis using False u t' f64_round_idem [of "u - 1"] f64_round_nonneg [of "u - 1"] by (simp add: f64_sub_def)
  qed (use u t' in simp)
qed

lemma f64_cap: "0 \<le> n \<Longrightarrow> n \<le> 2 ^ 53 \<Longrightarrow> 0 \<le> f64_of_int n \<and> f64_of_int n \<le> 2 ^ 53"
proof -
  assume n: "0 \<le> n" "n \<le> 2 ^ 53"
  then have "(of_int n :: rat) \<le> of_int (2 ^ 53)" by (simp only: of_int_le_iff)
  then show ?thesis using n f64_of_int_exact [of n] by simp
qed

lemma bucket_refill_facts:
  assumes "bucket_ok b"
  shows "0 \<le> d \<Longrightarrow> 0 \<le> bucket_refill d b" "b_window b \<le> d \<Longrightarrow> f64_of_int (b_maxTokens b) \<le> bucket_refill d b"
proof -
  have w: "0 < f64_of_int (b_window b)" 
    using assms f64_of_int_mono [of 1 "b_window b"] f64_of_int_exact [of 1] by (simp add: bucket_ok_def)
  have m: "0 \<le> f64_of_int (b_maxTokens b)" using assms f64_of_int_nonneg by (simp add: bucket_ok_def)
  show "0 \<le> d \<Longrightarrow> 0 \<le> bucket_refill d b"
    using w m f64_of_int_nonneg [of d] by (simp add: bucket_refill_def f64_mul_def f64_div_def f64_round_nonneg)
  assume d: "b_window b \<le> d"
  then have "f64_of_int (b_window b) \<le> f64_of_int d" using assms by (intro f64_of_int_mono) (auto simp: bucket_ok_def)
  then have q: "1 \<le> f64_div (f64_of_int d) (f64_of_int (b_window b))" using w by (intro f64_div_ge_1)
  have "f64_round (f64_of_int (b_maxTokens b)) \<le> bucket_refill d b"
    unfolding bucket_refill_def f64_mul_def using m q by (intro f64_round_mono) (simp_all add: mult_le_cancel_left1)
  then show "f64_of_int (b_maxTokens b) \<le> bucket_refill d b" using assms by (simp add: bucket_ok_def)
qed

lemma bucket_Allow_step:
  assumes "bucket_ok b" "bucket_Allow now b = (a, b')"
  shows "(a, b_tokens b') = take_token (f64_of_int (b_maxTokens b))
      (if b_lastRefill b < now then f64_add (b_tokens b) (bucket_refill (time_sub now (b_lastRefill b)) b) else b_tokens b)
    \<and> bucket_ok b' \<and> b_maxTokens b' = b_maxTokens b \<and> b_window b' = b_window b
    \<and> b_lastRefill b' = max now (b_lastRefill b) \<and> b_lastAccess b' = now"
proof -
  let ?t = "if b_lastRefill b < now then f64_add (b_tokens b) (bucket_refill (time_sub now (b_lastRefill b)) b) else b_tokens b"
  have w: "0 < b_window b" using assms(1) by (simp add: bucket_ok_def)
  have r: "bucket_refill d (b\<lparr>b_lastAccess := now\<rparr>) = bucket_refill d b" for d by (simp add: bucket_refill_def)
  have cap: "\<not> f64_of_int (b_maxTokens b) < b_tokens b" using assms(1) by (simp add: bucket_ok_def)
  have s: "(a, b_tokens b') = take_token (f64_of_int (b_maxTokens b)) ?t \<and> b_maxTokens b' = b_maxTokens b
     \<and> b_window b' = b_window b \<and> b_lastRefill b' = max now (b_lastRefill b) \<and> b_lastAccess b' = now"
    using assms(2) w cap by (auto simp: bucket_Allow_def Let_def take_token_def r elapsed_pos split: if_splits)
  have t: "f64_round ?t = ?t" "0 \<le> ?t"
  proof -
    have "0 \<le> b_tokens b + bucket_refill (time_sub now (b_lastRefill b)) b" if "b_lastRefill b < now"
      using that assms(1) bucket_refill_facts(1) [OF assms(1), of "time_sub now (b_lastRefill b)"] elapsed_pos [of now "b_lastRefill b"]
      by (simp add: bucket_ok_def)
    then show "f64_round ?t = ?t" "0 \<le> ?t"
      using assms(1) by (auto simp: bucket_ok_def f64_add_def f64_round_idem f64_round_nonneg)
  qed
  have "f64_round (b_tokens b') = b_tokens b' \<and> 0 \<le> b_tokens b' \<and> b_tokens b' \<le> f64_of_int (b_maxTokens b)"
    using s t assms(1) by (intro take_token_range [of _ ?t a]) (auto simp: bucket_ok_def f64_of_int_nonneg)
  then show ?thesis using s assms(1) by (simp add: bucket_ok_def)
qed

interpretation fair: refilling bucket_Allow b_tokens bucket_refill b_lastRefill "\<lambda>b. f64_of_int (b_maxTokens b)" b_window
  "\<lambda>b. f64_of_int (b_maxTokens b)" bucket_ok
proof
  fix b :: bucket and now a b'
  assume ok: "bucket_ok b"
  show "(a, b_tokens b') = take_token (f64_of_int (b_maxTokens b))
        (if b_lastRefill b < now then f64_add (b_tokens b) (bucket_refill (time_sub now (b_lastRefill b)) b) else b_tokens b)
      \<and> bucket_ok b' \<and> f64_of_int (b_maxTokens b') = f64_of_int (b_maxTokens b) \<and> b_window b' = b_window b
      \<and> f64_of_int (b_maxTokens b') = f64_of_int (b_maxTokens b) \<and> b_lastRefill b' = max now (b_lastRefill b)"
    if "bucket_Allow now b = (a, b')" using bucket_Allow_step [OF ok that] by simp
  show "f64_round (f64_of_int (b_maxTokens b)) = f64_of_int (b_maxTokens b) \<and> 0 \<le> f64_of_int (b_maxTokens b)
      \<and> f64_of_int (b_maxTokens b) \<le> 2 ^ 53 \<and> f64_round (f64_of_int (b_maxTokens b)) = f64_of_int (b_maxTokens b)"
    using ok f64_cap [of "b_maxTokens b"] by (simp add: bucket_ok_def)
  show "f64_round (b_tokens b) = b_tokens b \<and> 0 \<le> b_tokens b \<and> b_tokens b \<le> f64_of_int (b_maxTokens b)"
    using ok by (simp add: bucket_ok_def)
  show "0 < b_window b \<and> b_window b \<le> max_int64 \<and> (b_window b \<le> d \<longrightarrow> d \<le> max_int64 \<longrightarrow> f64_of_int (b_maxTokens b) \<le> bucket_refill d b)" for d
    using ok bucket_refill_facts(2) [OF ok] by (simp add: bucket_ok_def)
  show "0 \<le> bucket_refill d b" if "0 \<le> d" "d \<le> max_int64" for d using bucket_refill_facts(1) [OF ok that(1)] .
qed

text \<open>What happens to the scheduler over time.  A call is either uninterrupted, \<open>FAcquire\<close>, or split into
  its two sections, \<open>FLookup\<close> and \<open>FAllow\<close>, with anything in between: the calls that have looked
  their bucket up and not yet taken a token are listed by the address they hold, and \<open>FAllow i\<close> lets
  the \<open>i\<close>-th of them go on.\<close>

datatype fs_op = FLookup string time | FAllow nat time | FAcquire string time time | FRelease string | FGc time

type_synonym fs_state = "Scheduler \<times> nat list"

definition without :: "nat \<Rightarrow> 'a list \<Rightarrow> 'a list" where "without i xs = take i xs @ drop (Suc i) xs"

primrec fs_step :: "fs_op \<Rightarrow> fs_state \<Rightarrow> bool list \<times> fs_state" where
  "fs_step (FLookup user created) sp =
     (case Scheduler_lookup created user (fst sp) of (a, s') \<Rightarrow> ([], s', snd sp @ [a]))"
| "fs_step (FAllow i now) sp =
     (if i < length (snd sp)
      then case Allow_at now (snd sp ! i) (fst sp) of (ok, s') \<Rightarrow> ([ok], s', without i (snd sp))
      else ([], sp))"
| "fs_step (FAcquire user created now) sp =
     (case Scheduler_Acquire created now user (fst sp) of (ok, s') \<Rightarrow> ([ok], s', snd sp))"
| "fs_step (FRelease user) sp = ([], Scheduler_Release user (fst sp), snd sp)"
| "fs_step (FGc now) sp = ([], gc now (fst sp), snd sp)"

primrec fs_run :: "fs_op list \<Rightarrow> fs_state \<Rightarrow> bool list \<times> fs_state" where
  "fs_run [] sp = ([], sp)"
| "fs_run (x # xs) sp = (case fs_step x sp of (as, sp') \<Rightarrow> case fs_run xs sp' of (bs, sp'') \<Rightarrow> (as @ bs, sp''))"

text \<open>The readings of the clock do not go backwards: \<open>clocked t xs\<close> holds of readings that start no earlier
  than \<open>t\<close>.  The collector reads the clock before it waits for the lock, so its reading may be old.\<close>

fun clocked :: "time \<Rightarrow> fs_op list \<Rightarrow> bool" where
  "clocked t [] = True"
| "clocked t (FLookup user created # xs) = (t \<le> created \<and> clocked created xs)"
| "clocked t (FAllow i now # xs) = (t \<le> now \<and> clocked now xs)"
| "clocked t (FAcquire user created now # xs) = (t \<le> created \<and> created \<le> now \<and> clocked now xs)"
| "clocked t (FRelease user # xs) = clocked t xs"
| "clocked t (FGc now # xs) = clocked (max t now) xs"

text \<open>No collection falls between the two sections of a call; \<open>n\<close> calls are between them.\<close>

fun settled :: "nat \<Rightarrow> fs_op list \<Rightarrow> bool" where
  "settled n [] = True"
| "settled n (FLookup user created # xs) = settled (Suc n) xs"
| "settled n (FAllow i now # xs) = settled (if i < n then n - 1 else n) xs"
| "settled n (FAcquire user created now # xs) = settled n xs"
| "settled n (FRelease user # xs) = settled n xs"
| "settled n (FGc now # xs) = (n = 0 \<and> settled n xs)"

definition is_gc :: "fs_op \<Rightarrow> bool" where "is_gc x = (case x of FGc _ \<Rightarrow> True | _ \<Rightarrow> False)"

definition fair_config_ok :: "FairConfig \<Rightarrow> bool" where
  "fair_config_ok c \<longleftrightarrow> 0 < fc_Window c \<and> 2 * fc_Window c < max_int64
     \<and> 0 \<le> fc_MaxRequestsPerUser c \<and> fc_MaxRequestsPerUser c \<le> 2 ^ 53 \<and> 0 \<le> fc_Burst c"

definition bucket_of :: "FairConfig \<Rightarrow> time \<Rightarrow> bucket \<Rightarrow> bool" where
  "bucket_of c t b \<longleftrightarrow> bucket_ok b \<and> b_maxTokens b = fc_MaxRequestsPerUser c \<and> b_window b = fc_Window c
     \<and> b_lastRefill b \<le> b_lastAccess b \<and> b_lastAccess b \<le> t"

lemma bucket_of_later: "bucket_of c t b \<Longrightarrow> t \<le> u \<Longrightarrow> bucket_of c u b"
  by (auto simp: bucket_of_def)

lemma fresh_bucket_of:
  assumes "fair_config_ok c" shows "bucket_of c now (fresh_bucket now c)"
proof -
  let ?n = "if fc_Burst c > fc_MaxRequestsPerUser c then fc_MaxRequestsPerUser c else fc_Burst c"
  have "0 \<le> ?n" "f64_of_int ?n \<le> f64_of_int (fc_MaxRequestsPerUser c)"
    using assms by (auto simp: fair_config_ok_def intro!: f64_of_int_mono)
  then show ?thesis using assms
    by (auto simp: fair_config_ok_def bucket_of_def fresh_bucket_def newBucket_def Let_def bucket_ok_def f64_of_int_nonneg)
qed

lemma bucket_Allow_of:
  assumes "bucket_of c t b" "t \<le> now" "bucket_Allow now b = (a, b')" shows "bucket_of c now b'"
  using bucket_Allow_step [of b now a b'] assms by (auto simp: bucket_of_def)

text \<open>A bucket that rested for a window and a new one with a full burst are the same after a request.\<close>

lemma rested_like_fresh:
  assumes "bucket_of c t b" "b_lastRefill b + fc_Window c \<le> now" "fair_config_ok c"
    "fc_MaxRequestsPerUser c \<le> fc_Burst c" "created \<le> now"
  shows "bucket_Allow now b = bucket_Allow now (fresh_bucket created c)"
proof -
  let ?m = "f64_of_int (fc_MaxRequestsPerUser c)" and ?f = "fresh_bucket created c"
  have b: "bucket_ok b" "b_maxTokens b = fc_MaxRequestsPerUser c" "b_window b = fc_Window c"
    using assms(1) by (auto simp: bucket_of_def)
  have f: "bucket_ok ?f" "b_maxTokens ?f = fc_MaxRequestsPerUser c" "b_window ?f = fc_Window c" "b_lastRefill ?f = created"
    "b_tokens ?f = ?m"
    using fresh_bucket_of [OF assms(3), of created] assms(4)
    by (auto simp: bucket_of_def) (auto simp: fresh_bucket_def newBucket_def Let_def)
  note g = fair.rest_gains [OF b(1), of now]
  have rest: "b_lastRefill b < now" "?m \<le> f64_add (b_tokens b) (bucket_refill (time_sub now (b_lastRefill b)) b)"
    using g assms(2,3) b f64_of_int_nonneg by (auto simp: fair_config_ok_def)
  have full: "?m \<le> f64_add ?m (bucket_refill (time_sub now created) ?f)"
    if "created < now"
  proof (rule f64_add_ge)
    have "0 < time_sub now created" using that by (simp add: elapsed_pos)
    then show "0 \<le> bucket_refill (time_sub now created) ?f" by (intro bucket_refill_facts(1) [OF f(1)]) simp
  qed (use assms(3) f64_of_int_nonneg in \<open>auto simp: fair_config_ok_def\<close>)
  have "take_token ?m (if b_lastRefill b < now then f64_add (b_tokens b) (bucket_refill (time_sub now (b_lastRefill b)) b) else b_tokens b)
      = take_token ?m (if created < now then f64_add ?m (bucket_refill (time_sub now created) ?f) else ?m)"
    using rest full by (auto simp: take_token_def)
  moreover obtain a b' a2 f' where s: "bucket_Allow now b = (a, b')" "bucket_Allow now ?f = (a2, f')" by fastforce
  ultimately have "(a, b_tokens b') = (a2, b_tokens f')" "b_lastRefill b' = b_lastRefill f'" "b_lastAccess b' = b_lastAccess f'"
    "b_maxTokens b' = b_maxTokens f'" "b_window b' = b_window f'"
    using bucket_Allow_step [OF b(1) s(1)] bucket_Allow_step [OF f(1) s(2)] b f rest assms(5) by auto
  then show ?thesis using s by (auto intro: bucket.equality)
qed

text \<open>Well-formed schedulers: the map points into the heap, users share no object, and every object is a
  bucket of the configuration last used by now.\<close>

definition sched_ok :: "FairConfig \<Rightarrow> time \<Rightarrow> fs_state \<Rightarrow> bool" where
  "sched_ok c t sp \<longleftrightarrow> sc_cfg (fst sp) = c
     \<and> (\<forall>u a. sc_buckets (fst sp) u = Some a \<longrightarrow> a < length (sc_heap (fst sp)))
     \<and> (\<forall>u v a. sc_buckets (fst sp) u = Some a \<longrightarrow> sc_buckets (fst sp) v = Some a \<longrightarrow> u = v)
     \<and> (\<forall>a < length (sc_heap (fst sp)). bucket_of c t (sc_heap (fst sp) ! a))
     \<and> (\<forall>a \<in> set (snd sp). a < length (sc_heap (fst sp)))"

lemma sched_ok_later: "sched_ok c t sp \<Longrightarrow> t \<le> t' \<Longrightarrow> sched_ok c t' sp"
  by (auto simp: sched_ok_def intro: bucket_of_later)

lemma without_simps: "length (without i xs) = (if i < length xs then length xs - 1 else length xs)"
  "set (without i xs) \<subseteq> set xs"
  by (auto simp: without_def dest: in_set_takeD in_set_dropD)

lemma without_other: "x \<in> set xs \<Longrightarrow> x \<noteq> xs ! i \<Longrightarrow> x \<in> set (without i xs)"
proof -
  assume x: "x \<in> set xs" "x \<noteq> xs ! i"
  then obtain j where j: "j < length xs" "xs ! j = x" by (auto simp: in_set_conv_nth)
  then have "j < i \<or> Suc i \<le> j" using x(2) by (cases "j = i") auto
  then show ?thesis
  proof
    assume "j < i"
    then have "take i xs ! j \<in> set (take i xs)" "take i xs ! j = x" using j nth_mem [of j "take i xs"] by auto
    then show ?thesis by (simp add: without_def)
  next
    assume "Suc i \<le> j"
    then have "drop (Suc i) xs ! (j - Suc i) \<in> set (drop (Suc i) xs)" "drop (Suc i) xs ! (j - Suc i) = x"
      using j nth_mem [of "j - Suc i" "drop (Suc i) xs"] by auto
    then show ?thesis by (simp add: without_def)
  qed
qed

lemma lookup_ok:
  assumes "sched_ok c t (s, p)" "fair_config_ok c" "t \<le> created" "Scheduler_lookup created u s = (a, s')"
  shows "sched_ok c created (s', p @ [a]) \<and> sc_buckets s' u = Some a
    \<and> (case bucket_at s u of Some b \<Rightarrow> s' = s | None \<Rightarrow> bucket_at s' u = Some (fresh_bucket created c))
    \<and> (\<forall>v. v \<noteq> u \<longrightarrow> sc_buckets s' v = sc_buckets s v \<and> bucket_at s' v = bucket_at s v)"
proof -
  note ok = assms(1) [unfolded sched_ok_def fst_conv snd_conv]
  show ?thesis
  proof (cases "sc_buckets s u")
    case (Some b)
    then have "a = b" "s' = s" using assms(4) by (auto simp: Scheduler_lookup_def)
    moreover have "sched_ok c created (s, p @ [b])"
      unfolding sched_ok_def fst_conv snd_conv using ok Some bucket_of_later [OF _ assms(3)] by (simp add: ball_Un)
    ultimately show ?thesis using Some by (simp add: bucket_at_def)
  next
    case None
    let ?n = "length (sc_heap s)"
    have s': "a = ?n" "sc_buckets s' = (sc_buckets s)(u \<mapsto> ?n)" "sc_heap s' = sc_heap s @ [fresh_bucket created c]" "sc_cfg s' = c"
      using assms(4) None ok by (auto simp: Scheduler_lookup_def)
    have lt: "sc_buckets s v = Some b \<Longrightarrow> b < ?n" for v b using ok by blast
    have b: "bucket_of c created (sc_heap s' ! b)" if "b < length (sc_heap s')" for b
    proof (cases "b < ?n")
      case True
      then show ?thesis using ok bucket_of_later [OF _ assms(3)] s'(3) by (simp add: nth_append)
    next
      case False
      then show ?thesis using that fresh_bucket_of [OF assms(2)] s'(3) by (simp add: nth_append)
    qed
    have inj: "x = y" if "sc_buckets s' x = Some b" "sc_buckets s' y = Some b" for x y b
    proof (cases "x = u \<or> y = u")
      case True
      then have "b = ?n" using that s'(2) by auto
      then show ?thesis using that s'(2) lt [of x b] lt [of y b] by (auto split: if_splits)
    next
      case False
      then show ?thesis using that s'(2) ok by simp
    qed
    have v: "bucket_at s' v = bucket_at s v \<and> sc_buckets s' v = sc_buckets s v" if "v \<noteq> u" for v
      using that s' lt [of v] by (cases "sc_buckets s v") (simp_all add: bucket_at_def nth_append)
    have l: "b < length (sc_heap s')" if "sc_buckets s' x = Some b" for x b
      using that s' lt [of x b] by (cases "x = u") auto
    have "\<forall>b \<in> set (p @ [a]). b < length (sc_heap s')" using ok s'(1,3) by auto
    then have "sched_ok c created (s', p @ [a])" unfolding sched_ok_def fst_conv snd_conv using b inj l s'(4) by blast
    then show ?thesis using v s' None by (simp add: bucket_at_def)
  qed
qed

lemma Allow_at_ok:
  assumes "sched_ok c t (s, p)" "a < length (sc_heap s)" "t \<le> now" "Allow_at now a s = (ok, s')"
  shows "sched_ok c now (s', p)" "sc_buckets s' = sc_buckets s" "ok = fst (bucket_Allow now (sc_heap s ! a))"
    "sc_heap s' = (sc_heap s)[a := snd (bucket_Allow now (sc_heap s ! a))]"
proof -
  note k = assms(1) [unfolded sched_ok_def fst_conv snd_conv]
  obtain r b' where b: "bucket_Allow now (sc_heap s ! a) = (r, b')" by fastforce
  have "bucket_of c now b'" using bucket_Allow_of [OF _ assms(3) b] k assms(2) by blast
  then have o: "bucket_of c now ((sc_heap s)[a := b'] ! i)" if "i < length (sc_heap s)" for i
    using k that bucket_of_later [OF _ assms(3)] by (cases "i = a") auto
  show "sc_buckets s' = sc_buckets s" "ok = fst (bucket_Allow now (sc_heap s ! a))"
    "sc_heap s' = (sc_heap s)[a := snd (bucket_Allow now (sc_heap s ! a))]"
    using assms(4) b by (auto simp: Allow_at_def)
  have "s' = s\<lparr>sc_heap := (sc_heap s)[a := b']\<rparr>" using assms(4) b by (auto simp: Allow_at_def)
  then show "sched_ok c now (s', p)" unfolding sched_ok_def using k o by simp
qed

lemma gc_ok:
  assumes "sched_ok c t (s, p)" shows "sched_ok c (max t now) (gc now s, p)"
  using assms bucket_of_later [of c t _ "max t now"] by (auto simp: sched_ok_def gc_def split: option.splits if_splits)

lemma sched_ok_pending: "sched_ok c t (s, p) \<Longrightarrow> set q \<subseteq> set p \<Longrightarrow> sched_ok c t (s, q)"
  by (auto simp: sched_ok_def)

lemma Acquire_split:
  "fs_step (FAcquire u created now) (s, p) = (case fs_step (FLookup u created) (s, p) of (_, sp) \<Rightarrow> fs_step (FAllow (length p) now) sp)"
  by (simp add: Scheduler_Acquire_def without_def case_prod_beta)

text \<open>A scheduler beside one whose collector never ran.  Their objects for a user agree, or the collector took
  the user away after a window of rest, or a call that is still running has made a new one since.\<close>

definition user_rel :: "FairConfig \<Rightarrow> time \<Rightarrow> fs_state \<Rightarrow> Scheduler \<Rightarrow> string \<Rightarrow> bool" where
  "user_rel c t sp k u \<longleftrightarrow>
     (case bucket_at k u of
        None \<Rightarrow> bucket_at (fst sp) u = None
      | Some b \<Rightarrow>
          (case bucket_at (fst sp) u of
             None \<Rightarrow> b_lastAccess b + fc_Window c \<le> t
           | Some b' \<Rightarrow> b' = b \<or> (\<exists>cr \<le> t. b' = fresh_bucket cr c \<and> b_lastAccess b + fc_Window c \<le> cr
                \<and> (\<exists>a \<in> set (snd sp). sc_buckets (fst sp) u = Some a))))"

definition collected :: "FairConfig \<Rightarrow> time \<Rightarrow> fs_state \<Rightarrow> fs_state \<Rightarrow> bool" where
  "collected c t sp kq \<longleftrightarrow> sched_ok c t sp \<and> sched_ok c t kq \<and> (\<forall>u. user_rel c t sp (fst kq) u)
     \<and> list_all2 (\<lambda>a a'. \<exists>u. sc_buckets (fst sp) u = Some a \<and> sc_buckets (fst kq) u = Some a') (snd sp) (snd kq)"

lemma user_rel_later:
  assumes "user_rel c t (s, p) k v" "t \<le> t'" "\<And>a. sc_buckets s v = Some a \<Longrightarrow> a \<in> set p \<Longrightarrow> a \<in> set p'"
    "bucket_at s' v = bucket_at s v" "sc_buckets s' v = sc_buckets s v" "bucket_at k' v = bucket_at k v"
  shows "user_rel c t' (s', p') k' v"
proof (cases "bucket_at k v")
  case None
  then show ?thesis using assms by (simp add: user_rel_def)
next
  case (Some b)
  show ?thesis
  proof (cases "bucket_at s v")
    case None
    then show ?thesis using assms Some by (simp add: user_rel_def)
  next
    case S: (Some b')
    from assms(1) have "b' = b \<or> (\<exists>cr \<le> t. b' = fresh_bucket cr c \<and> b_lastAccess b + fc_Window c \<le> cr
        \<and> (\<exists>a \<in> set p. sc_buckets s v = Some a))" by (simp add: user_rel_def S Some)
    then have "b' = b \<or> (\<exists>cr \<le> t'. b' = fresh_bucket cr c \<and> b_lastAccess b + fc_Window c \<le> cr
        \<and> (\<exists>a \<in> set p'. sc_buckets s v = Some a))" using assms(2,3) order_trans by blast
    then show ?thesis using assms(4-6) Some S by (simp add: user_rel_def)
  qed
qed

lemma collected_lookup:
  assumes "collected c t (s, p) (k, q)" "fair_config_ok c" "t \<le> created"
    "Scheduler_lookup created u s = (a, s')" "Scheduler_lookup created u k = (a', k')"
  shows "collected c created (s', p @ [a]) (k', q @ [a'])"
proof -
  have ok: "sched_ok c t (s, p)" "sched_ok c t (k, q)" and rel: "\<And>v. user_rel c t (s, p) k v"
    and pq: "list_all2 (\<lambda>a a'. \<exists>u. sc_buckets s u = Some a \<and> sc_buckets k u = Some a') p q"
    using assms(1) by (auto simp: collected_def)
  note S = lookup_ok [OF ok(1) assms(2,3,4)] and K = lookup_ok [OF ok(2) assms(2,3,5)]
  have keep: "sc_buckets s' v = Some b" if "sc_buckets s v = Some b" for v b
    using that S by (cases "v = u") (auto simp: bucket_at_def split: option.splits)
  have keep': "sc_buckets k' v = Some b" if "sc_buckets k v = Some b" for v b
    using that K by (cases "v = u") (auto simp: bucket_at_def split: option.splits)
  have "user_rel c created (s', p @ [a]) k' v" for v
  proof (cases "v = u")
    case False
    then show ?thesis using S K by (intro user_rel_later [OF rel assms(3)]) auto
  next
    case True
    show ?thesis
    proof (cases "bucket_at k u")
      case None
      then have "bucket_at s u = None" using rel [of u] by (simp add: user_rel_def)
      then show ?thesis using S K None True by (simp add: user_rel_def)
    next
      case (Some b)
      then have k: "k' = k" using K by simp
      show ?thesis
      proof (cases "bucket_at s u")
        case None
        then have "b_lastAccess b + fc_Window c \<le> created" using rel [of u] Some assms(3) by (simp add: user_rel_def)
        then show ?thesis using S None k Some True by (auto simp: user_rel_def)
      next
        case (Some b')
        then have "s' = s" using S by simp
        then show ?thesis unfolding k True by (intro user_rel_later [OF rel assms(3)]) auto
      qed
    qed
  qed
  moreover have "list_all2 (\<lambda>a a'. \<exists>u. sc_buckets s' u = Some a \<and> sc_buckets k' u = Some a') (p @ [a]) (q @ [a'])"
  proof (rule list_all2_appendI)
    show "list_all2 (\<lambda>a a'. \<exists>u. sc_buckets s' u = Some a \<and> sc_buckets k' u = Some a') p q"
      using pq by (rule list_all2_mono) (blast intro: keep keep')
  qed (use S K in auto)
  ultimately show ?thesis using S K by (simp add: collected_def)
qed

lemma list_all2_without: "list_all2 P xs ys \<Longrightarrow> list_all2 P (without i xs) (without i ys)"
  unfolding without_def by (intro list_all2_appendI list_all2_takeI list_all2_dropI)

lemma collected_allow:
  assumes "collected c t (s, p) (k, q)" "fair_config_ok c" "fc_MaxRequestsPerUser c \<le> fc_Burst c" "t \<le> now" "i < length p"
    "Allow_at now (p ! i) s = (r, s')" "Allow_at now (q ! i) k = (r', k')"
  shows "r = r' \<and> collected c now (s', without i p) (k', without i q)"
proof -
  have ok: "sched_ok c t (s, p)" "sched_ok c t (k, q)" and rel: "\<And>v. user_rel c t (s, p) k v"
    and pq: "list_all2 (\<lambda>a a'. \<exists>u. sc_buckets s u = Some a \<and> sc_buckets k u = Some a') p q"
    using assms(1) by (auto simp: collected_def)
  obtain u where u: "sc_buckets s u = Some (p ! i)" "sc_buckets k u = Some (q ! i)"
    using list_all2_nthD [OF pq assms(5)] by blast
  have lt: "p ! i < length (sc_heap s)" "q ! i < length (sc_heap k)" using ok u by (auto simp: sched_ok_def)
  let ?b = "sc_heap s ! (p ! i)" and ?b' = "sc_heap k ! (q ! i)"
  have eq: "bucket_Allow now ?b = bucket_Allow now ?b'"
  proof (cases "?b = ?b'")
    case False
    then obtain cr where cr: "cr \<le> t" "?b = fresh_bucket cr c" "b_lastAccess ?b' + fc_Window c \<le> cr"
      using rel [of u] u by (auto simp: user_rel_def bucket_at_def)
    have b: "bucket_of c t ?b'" using ok(2) lt by (simp add: sched_ok_def)
    then have "b_lastRefill ?b' + fc_Window c \<le> now" using cr assms(4) by (simp add: bucket_of_def)
    from rested_like_fresh [OF b this assms(2,3), of cr] show ?thesis using cr assms(4) by simp
  qed simp
  note S = Allow_at_ok [OF ok(1) lt(1) assms(4,6)] and K = Allow_at_ok [OF ok(2) lt(2) assms(4,7)]
  have other: "bucket_at s' v = bucket_at s v" "bucket_at k' v = bucket_at k v" if "v \<noteq> u" for v
  proof -
    have "sc_buckets s v \<noteq> Some (p ! i)" "sc_buckets k v \<noteq> Some (q ! i)" using that u ok by (auto simp: sched_ok_def)
    then show "bucket_at s' v = bucket_at s v" "bucket_at k' v = bucket_at k v"
      by (cases "sc_buckets s v"; cases "sc_buckets k v"; simp add: bucket_at_def S K)+
  qed
  have "user_rel c now (s', without i p) k' v" for v
  proof (cases "v = u")
    case True
    then show ?thesis using u S K lt eq by (simp add: user_rel_def bucket_at_def)
  next
    case False
    have "a \<noteq> p ! i" if "sc_buckets s v = Some a" for a using that False u ok by (auto simp: sched_ok_def)
    then show ?thesis using other [OF False] S K
      by (intro user_rel_later [OF rel assms(4)]) (auto intro: without_other)
  qed
  moreover have "list_all2 (\<lambda>a a'. \<exists>u. sc_buckets s' u = Some a \<and> sc_buckets k' u = Some a') (without i p) (without i q)"
    unfolding S(2) K(2) by (rule list_all2_without [OF pq])
  ultimately show ?thesis using S K eq sched_ok_pending [OF S(1) without_simps(2)] sched_ok_pending [OF K(1) without_simps(2)]
    by (simp add: collected_def)
qed

lemma collected_gc:
  assumes "collected c t (s, []) (k, [])" "fair_config_ok c"
  shows "collected c (max t now) (gc now s, []) (k, [])"
proof -
  have w: "wrap64 (fc_Window c * 2) = 2 * fc_Window c" "0 < fc_Window c" "2 * fc_Window c < max_int64"
    using assms(2) by (auto simp: fair_config_ok_def mult.commute intro!: wrap64_id simp: in_int64_def)
  have idle: "b_lastAccess b + fc_Window c \<le> max t now" if "wrap64 (fc_Window c * 2) < time_sub now (b_lastAccess b)" for b
    using that w by (auto simp: time_sub_def)
  have ok: "sched_ok c t (s, [])" "sched_ok c t (k, [])" and rel: "\<And>v. user_rel c t (s, []) k v"
    using assms(1) by (auto simp: collected_def)
  have c: "sc_cfg s = c" using ok by (simp add: sched_ok_def)
  have "user_rel c (max t now) (gc now s, []) k v" for v
  proof (cases "sc_buckets (gc now s) v = sc_buckets s v")
    case True
    then have "bucket_at (gc now s) v = bucket_at s v" by (simp add: bucket_at_def gc_def)
    then show ?thesis using True by (intro user_rel_later [OF rel]) auto
  next
    case False
    then obtain a where a: "sc_buckets s v = Some a" "sc_buckets (gc now s) v = None"
      "wrap64 (fc_Window c * 2) < time_sub now (b_lastAccess (sc_heap s ! a))"
      using c by (auto simp: gc_def split: option.splits if_splits)
    then have "bucket_at k v = Some (sc_heap s ! a)" using rel [of v] by (auto simp: user_rel_def bucket_at_def split: option.splits)
    moreover have "bucket_at (gc now s) v = None" using a by (simp add: bucket_at_def)
    ultimately show ?thesis using idle [OF a(3)] by (simp add: user_rel_def)
  qed
  moreover have "sched_ok c (max t now) (k, [])" using sched_ok_later [OF ok(2)] by simp
  ultimately show ?thesis using gc_ok [OF ok(1)] by (simp add: collected_def)
qed

lemma collected_later:
  assumes "collected c t (s, p) (k, q)" "t \<le> t'" shows "collected c t' (s, p) (k, q)"
proof -
  have "user_rel c t' (s, p) k v" if "user_rel c t (s, p) k v" for v
    by (rule user_rel_later [OF that assms(2)]) auto
  then show ?thesis using assms by (auto simp: collected_def intro: sched_ok_later)
qed

lemma collected_run:
  assumes "collected c t sp kq" "fair_config_ok c" "fc_MaxRequestsPerUser c \<le> fc_Burst c" "clocked t xs"
    "settled (length (snd sp)) xs"
  shows "fst (fs_run xs sp) = fst (fs_run (filter (\<lambda>x. \<not> is_gc x) xs) kq)"
  using assms(1,4,5)
proof (induction xs arbitrary: t sp kq)
  case (Cons x xs)
  obtain s p k q where e: "sp = (s, p)" "kq = (k, q)" by (cases sp, cases kq)
  have len: "length q = length p" using Cons.prems(1) e by (auto simp: collected_def dest: list_all2_lengthD)
  show ?case
  proof (cases x)
    case (FLookup u created)
    obtain a s' a' k' where l: "Scheduler_lookup created u s = (a, s')" "Scheduler_lookup created u k = (a', k')" by fastforce
    then show ?thesis
      using collected_lookup [OF Cons.prems(1) [unfolded e] assms(2) _ l] Cons.prems(2,3) Cons.IH [of created "(s', p @ [a])" "(k', q @ [a'])"] FLookup e
      by (simp add: is_gc_def case_prod_beta)
  next
    case (FAllow i now)
    show ?thesis
    proof (cases "i < length p")
      case True
      obtain r s' r' k' where l: "Allow_at now (p ! i) s = (r, s')" "Allow_at now (q ! i) k = (r', k')" by fastforce
      then show ?thesis
        using collected_allow [OF Cons.prems(1) [unfolded e] assms(2,3) _ True l] Cons.prems(2,3) True len
          Cons.IH [of now "(s', without i p)" "(k', without i q)"] FAllow e
        by (simp add: is_gc_def case_prod_beta without_simps)
    next
      case False
      have "collected c now (s, p) (k, q)"
        using Cons.prems(1,2) FAllow e by (auto intro: collected_later)
      then show ?thesis using Cons.prems(2,3) False len Cons.IH [of now "(s, p)" "(k, q)"] FAllow e
        by (simp add: is_gc_def case_prod_beta)
    qed
  next
    case (FAcquire u created now)
    obtain a s1 a' k1 where l: "Scheduler_lookup created u s = (a, s1)" "Scheduler_lookup created u k = (a', k1)" by fastforce
    obtain r s' r' k' where m: "Allow_at now a s1 = (r, s')" "Allow_at now a' k1 = (r', k')" by fastforce
    have t: "t \<le> created" "created \<le> now" using Cons.prems(2) FAcquire by auto
    note c1 = collected_lookup [OF Cons.prems(1) [unfolded e] assms(2) t(1) l]
    have "r = r' \<and> collected c now (s', without (length p) (p @ [a])) (k', without (length p) (q @ [a']))"
      using m len by (intro collected_allow [OF c1 assms(2,3) t(2)]) (auto simp: nth_append)
    then show ?thesis using Cons.prems(2,3) Cons.IH [of now "(s', p)" "(k', q)"] FAcquire e l m len
      by (simp add: is_gc_def case_prod_beta Scheduler_Acquire_def without_def)
  next
    case (FRelease u)
    then show ?thesis using Cons.IH [of t sp kq] Cons.prems e by (simp add: is_gc_def Scheduler_Release_def case_prod_beta)
  next
    case (FGc now)
    then have "p = []" "q = []" using Cons.prems(3) e len by auto
    then show ?thesis
      using Cons.IH [of "max t now" "(gc now s, [])" "(k, [])"] collected_gc [of c t s k now] Cons.prems FGc e assms(2)
      by (simp add: is_gc_def case_prod_beta)
  qed
qed simp

section \<open>The limiter of forced probes\<close>

definition DefaultLiveProbeInterval :: duration where "DefaultLiveProbeInterval = 10000000000"
definition DefaultLiveProbeBurst :: int where "DefaultLiveProbeBurst = 3"

record ProbeLimiter =
  pl_interval :: duration
  pl_burst :: int
  pl_tokens :: rat
  pl_last :: time

definition NewProbeLimiter :: "time \<Rightarrow> duration \<Rightarrow> int \<Rightarrow> ProbeLimiter" where
  "NewProbeLimiter now interval burst =
     (let i = (if interval \<le> 0 then DefaultLiveProbeInterval else interval);
          n = (if burst \<le> 0 then DefaultLiveProbeBurst else burst)
      in \<lparr>pl_interval = i, pl_burst = n, pl_tokens = f64_of_int n, pl_last = now\<rparr>)"

definition Interval :: "ProbeLimiter option \<Rightarrow> duration" where
  "Interval l = (case l of None \<Rightarrow> 0 | Some l \<Rightarrow> pl_interval l)"

definition Burst :: "ProbeLimiter option \<Rightarrow> int" where
  "Burst l = (case l of None \<Rightarrow> 0 | Some l \<Rightarrow> pl_burst l)"

text \<open>\<open>Duration.Seconds\<close>.\<close>

definition Seconds :: "duration \<Rightarrow> rat" where
  "Seconds d = f64_add (f64_of_int (go_quot d 1000000000)) (f64_div (f64_of_int (go_rem d 1000000000)) 1000000000)"

definition limiter_Allow :: "time \<Rightarrow> ProbeLimiter \<Rightarrow> bool \<times> ProbeLimiter" where
  "limiter_Allow now l =
     (let elapsed = time_sub now (pl_last l);
          l1 = (if 0 < elapsed
                then let t = f64_add (pl_tokens l) (f64_div (Seconds elapsed) (Seconds (pl_interval l)));
                         t' = (if f64_of_int (pl_burst l) < t then f64_of_int (pl_burst l) else t)
                     in l\<lparr>pl_tokens := t', pl_last := now\<rparr>
                else l)
      in if pl_tokens l1 < 1 then (False, l1) else (True, l1\<lparr>pl_tokens := f64_sub (pl_tokens l1) 1\<rparr>))"

definition ProbeLimiter_Allow :: "time \<Rightarrow> ProbeLimiter option \<Rightarrow> bool \<times> ProbeLimiter option" where
  "ProbeLimiter_Allow now lo =
     (case lo of None \<Rightarrow> (False, None) | Some l \<Rightarrow> (case limiter_Allow now l of (ok, l') \<Rightarrow> (ok, Some l')))"

lemma Seconds_mono:
  assumes "0 \<le> c" "c \<le> d" "d \<le> max_int64" shows "Seconds c \<le> Seconds d" "0 \<le> Seconds c"
proof -
  let ?B = "1000000000 :: int"
  have q: "go_quot x ?B = x div ?B" "go_rem x ?B = x mod ?B" if "0 \<le> x" for x
    using that by (simp_all add: go_quot_nonneg go_rem_nonneg)
  have part: "0 \<le> f64_div (f64_of_int (x mod ?B)) 1000000000" "f64_div (f64_of_int (x mod ?B)) 1000000000 \<le> 1"
    "f64_of_int (x mod ?B) = of_int (x mod ?B)" for x
  proof -
    have "x mod ?B < ?B" "0 \<le> x mod ?B" by simp_all
    then show e: "f64_of_int (x mod ?B) = of_int (x mod ?B)" by (intro f64_of_int_exact) auto
    then show "0 \<le> f64_div (f64_of_int (x mod ?B)) 1000000000" by (simp add: f64_div_def f64_round_nonneg)
    have "f64_round (of_int (x mod ?B) / 1000000000) \<le> f64_round 1"
    proof (rule f64_round_mono)
      have "(of_int (x mod ?B) :: rat) < of_int ?B" unfolding of_int_less_iff by simp
      then show "of_int (x mod ?B) / 1000000000 \<le> (1::rat)" by simp
    qed simp
    then show "f64_div (f64_of_int (x mod ?B)) 1000000000 \<le> 1"
      using f64_of_int_exact [of 1] e by (simp add: f64_div_def f64_of_int_def)
  qed
  have sec: "f64_of_int (x div ?B) = of_int (x div ?B)" "0 \<le> x div ?B" if "0 \<le> x" "x \<le> max_int64" for x
  proof -
    show "0 \<le> x div ?B" using that by (simp add: div_int_pos_iff)
    moreover have "x div ?B \<le> 9223372036854775807 div ?B" using that by (intro zdiv_mono1) auto
    ultimately show "f64_of_int (x div ?B) = of_int (x div ?B)" by (intro f64_of_int_exact) auto
  qed
  have S: "Seconds x = f64_add (of_int (x div ?B)) (f64_div (of_int (x mod ?B)) 1000000000)" if "0 \<le> x" "x \<le> max_int64" for x
    using that by (simp add: Seconds_def q sec part(3))
  have le: "of_int (c div ?B) + f64_div (of_int (c mod ?B)) 1000000000
      \<le> of_int (d div ?B) + f64_div (of_int (d mod ?B)) (1000000000::rat)"
  proof (cases "c div ?B = d div ?B")
    case True
    then have "c mod ?B \<le> d mod ?B" using assms(2) by (metis add_le_cancel_left mult_div_mod_eq)
    then have "f64_div (of_int (c mod ?B)) 1000000000 \<le> f64_div (of_int (d mod ?B)) 1000000000"
      unfolding f64_div_def by (intro f64_round_mono divide_right_mono) simp_all
    then show ?thesis using True by simp
  next
    case False
    then have "c div ?B + 1 \<le> d div ?B" using zdiv_mono1 [OF assms(2), of ?B] by simp
    then have "of_int (c div ?B) + 1 \<le> (of_int (d div ?B) :: rat)" by (metis of_int_1 of_int_add of_int_le_iff)
    then show ?thesis using part(2) [of c] part(1) [of d] part(3) [of c] part(3) [of d] by simp
  qed
  have pos: "0 \<le> of_int (c div ?B) + f64_div (of_int (c mod ?B)) (1000000000::rat)"
    using sec(2) [of c] part(1,3) [of c] assms by simp
  show "Seconds c \<le> Seconds d" using S [of c] S [of d] assms le pos by (simp add: f64_add_mono)
  show "0 \<le> Seconds c" using S [of c] assms pos by (simp add: f64_add_def f64_round_nonneg)
qed

definition limiter_ok :: "ProbeLimiter \<Rightarrow> bool" where
  "limiter_ok l \<longleftrightarrow> 0 < pl_interval l \<and> pl_interval l \<le> max_int64 \<and> 0 \<le> pl_burst l \<and> pl_burst l \<le> 2 ^ 53
     \<and> f64_round (pl_tokens l) = pl_tokens l \<and> 0 \<le> pl_tokens l \<and> pl_tokens l \<le> f64_of_int (pl_burst l)"

definition limiter_refill :: "duration \<Rightarrow> ProbeLimiter \<Rightarrow> rat" where
  "limiter_refill d l = f64_div (Seconds d) (Seconds (pl_interval l))"

lemma Seconds_pos:
  assumes "0 < d" "d \<le> max_int64" shows "0 < Seconds d"
proof -
  have "f64_round (2 powi -30) \<le> f64_round (1 / 1000000000)" by (intro f64_round_mono) (simp_all add: power_int_def power_one_over)
  then have "0 < f64_round (1 / 1000000000)" using f64_round_powi2 [of "-30"] powi2_pos [of "-30"] by linarith
  moreover have "Seconds 1 = f64_round (1 / 1000000000)"
    using f64_of_int_exact [of 1] by (simp add: Seconds_def go_quot_def go_rem_def f64_add_def f64_div_def f64_of_int_def f64_round_idem)
  ultimately show ?thesis using Seconds_mono(1) [of 1 d] assms by simp
qed

lemma limiter_refill_facts:
  assumes "limiter_ok l" "d \<le> max_int64"
  shows "0 \<le> d \<Longrightarrow> 0 \<le> limiter_refill d l" "pl_interval l \<le> d \<Longrightarrow> 1 \<le> limiter_refill d l"
proof -
  have i: "0 < Seconds (pl_interval l)" using Seconds_pos assms(1) by (simp add: limiter_ok_def)
  show "0 \<le> d \<Longrightarrow> 0 \<le> limiter_refill d l"
    using i Seconds_mono(2) [of d d] assms(2) by (simp add: limiter_refill_def f64_div_def f64_round_nonneg)
  show "pl_interval l \<le> d \<Longrightarrow> 1 \<le> limiter_refill d l" unfolding limiter_refill_def
    using i assms Seconds_mono(1) [of "pl_interval l" d] by (intro f64_div_ge_1) (auto simp: limiter_ok_def)
qed

lemma limiter_Allow_step:
  assumes "limiter_ok l" "limiter_Allow now l = (a, l')"
  shows "(a, pl_tokens l') = take_token (f64_of_int (pl_burst l))
      (if pl_last l < now then f64_add (pl_tokens l) (limiter_refill (time_sub now (pl_last l)) l) else pl_tokens l)
    \<and> limiter_ok l' \<and> pl_burst l' = pl_burst l \<and> pl_interval l' = pl_interval l \<and> pl_last l' = max now (pl_last l)"
proof -
  let ?t = "if pl_last l < now then f64_add (pl_tokens l) (limiter_refill (time_sub now (pl_last l)) l) else pl_tokens l"
  have cap: "\<not> f64_of_int (pl_burst l) < pl_tokens l" using assms(1) by (simp add: limiter_ok_def)
  have s: "(a, pl_tokens l') = take_token (f64_of_int (pl_burst l)) ?t \<and> pl_burst l' = pl_burst l
     \<and> pl_interval l' = pl_interval l \<and> pl_last l' = max now (pl_last l)"
    using assms(2) cap by (auto simp: limiter_Allow_def limiter_refill_def Let_def take_token_def elapsed_pos split: if_splits)
  have t: "f64_round ?t = ?t" "0 \<le> ?t"
  proof -
    have "0 \<le> pl_tokens l + limiter_refill (time_sub now (pl_last l)) l" if "pl_last l < now"
      using that assms(1) limiter_refill_facts(1) [OF assms(1), of "time_sub now (pl_last l)"] elapsed_pos [of now "pl_last l"]
      by (auto simp: limiter_ok_def time_sub_def)
    then show "f64_round ?t = ?t" "0 \<le> ?t"
      using assms(1) by (auto simp: limiter_ok_def f64_add_def f64_round_idem f64_round_nonneg)
  qed
  have "f64_round (pl_tokens l') = pl_tokens l' \<and> 0 \<le> pl_tokens l' \<and> pl_tokens l' \<le> f64_of_int (pl_burst l)"
    using s t assms(1) by (intro take_token_range [of _ ?t a]) (auto simp: limiter_ok_def f64_of_int_nonneg)
  then show ?thesis using s assms(1) by (simp add: limiter_ok_def)
qed

interpretation probe: refilling limiter_Allow pl_tokens limiter_refill pl_last "\<lambda>l. f64_of_int (pl_burst l)" pl_interval
  "\<lambda>_. 1" limiter_ok
proof
  fix l :: ProbeLimiter and now a l' and d :: duration
  assume ok: "limiter_ok l"
  show "(a, pl_tokens l') = take_token (f64_of_int (pl_burst l))
        (if pl_last l < now then f64_add (pl_tokens l) (limiter_refill (time_sub now (pl_last l)) l) else pl_tokens l)
      \<and> limiter_ok l' \<and> f64_of_int (pl_burst l') = f64_of_int (pl_burst l) \<and> pl_interval l' = pl_interval l
      \<and> (1::rat) = 1 \<and> pl_last l' = max now (pl_last l)"
    if "limiter_Allow now l = (a, l')" using limiter_Allow_step [OF ok that] by simp
  show "f64_round (f64_of_int (pl_burst l)) = f64_of_int (pl_burst l) \<and> 0 \<le> f64_of_int (pl_burst l)
      \<and> f64_of_int (pl_burst l) \<le> 2 ^ 53 \<and> f64_round 1 = 1"
    using ok f64_cap [of "pl_burst l"] f64_round_one by (simp add: limiter_ok_def)
  show "f64_round (pl_tokens l) = pl_tokens l \<and> 0 \<le> pl_tokens l \<and> pl_tokens l \<le> f64_of_int (pl_burst l)"
    using ok by (simp add: limiter_ok_def)
  show "0 < pl_interval l \<and> pl_interval l \<le> max_int64 \<and> (pl_interval l \<le> d \<longrightarrow> d \<le> max_int64 \<longrightarrow> 1 \<le> limiter_refill d l)"
    using ok limiter_refill_facts(2) [OF ok] by (simp add: limiter_ok_def)
  show "0 \<le> limiter_refill d l" if "0 \<le> d" "d \<le> max_int64" using limiter_refill_facts(1) [OF ok that(2,1)] .
qed

section \<open>Properties\<close>

lemma fs_run_ok:
  assumes "fair_config_ok c" "sched_ok c t sp" "clocked t xs"
  shows "\<exists>t'. sched_ok c t' (snd (fs_run xs sp))"
  using assms(2,3)
proof (induction xs arbitrary: sp t)
  case (Cons x xs)
  obtain s p where e: "sp = (s, p)" by (cases sp)
  have "\<exists>t'. sched_ok c t' (snd (fs_step x sp)) \<and> clocked t' xs"
  proof (cases x)
    case (FLookup u created)
    obtain a s' where l: "Scheduler_lookup created u s = (a, s')" by fastforce
    have "sched_ok c created (s', p @ [a])"
      using lookup_ok [OF Cons.prems(1) [unfolded e] assms(1) _ l] Cons.prems(2) FLookup by simp
    then show ?thesis using l Cons.prems(2) FLookup e by auto
  next
    case (FAllow i now)
    show ?thesis
    proof (cases "i < length p")
      case True
      then have "p ! i < length (sc_heap s)" using Cons.prems(1) e by (simp add: sched_ok_def)
      moreover obtain r s' where "Allow_at now (p ! i) s = (r, s')" by fastforce
      ultimately show ?thesis using Allow_at_ok(1) [OF Cons.prems(1) [unfolded e]] Cons.prems(2) FAllow True e
        sched_ok_pending [OF _ without_simps(2)] by fastforce
    qed (use Cons.prems sched_ok_later [of c t sp now] FAllow e in auto)
  next
    case (FAcquire u created now)
    obtain a s1 r s' where l: "Scheduler_lookup created u s = (a, s1)" "Allow_at now a s1 = (r, s')" by fastforce
    have t: "t \<le> created" "created \<le> now" using Cons.prems(2) FAcquire by auto
    have o: "sched_ok c created (s1, p @ [a])" using lookup_ok [OF Cons.prems(1) [unfolded e] assms(1) t(1) l(1)] by blast
    then have "a < length (sc_heap s1)" by (simp add: sched_ok_def)
    from Allow_at_ok(1) [OF o this t(2) l(2)] have "sched_ok c now (s', p)" by (rule sched_ok_pending) auto
    then show ?thesis using l Cons.prems(2) FAcquire e by (auto simp: Scheduler_Acquire_def)
  next
    case (FRelease u)
    then show ?thesis using Cons.prems e by (auto simp: Scheduler_Release_def)
  next
    case (FGc now)
    then show ?thesis using gc_ok [OF Cons.prems(1) [unfolded e]] Cons.prems(2) e by auto
  qed
  then have "\<exists>t''. sched_ok c t'' (snd (fs_run xs (snd (fs_step x sp))))" using Cons.IH by blast
  then show ?case by (simp add: case_prod_beta)
qed auto

lemma NewScheduler_ok: "fair_config_ok c \<Longrightarrow> sched_ok (sc_cfg (NewScheduler c)) t (NewScheduler c, [])"
  by (simp add: sched_ok_def NewScheduler_def)

lemma fs_run_batch:
  assumes "sc_buckets (fst sp) u = Some a" "a < length (sc_heap (fst sp))"
  shows "fs_run (map (\<lambda>t. FAcquire u t t) ts) sp
     = (fst (fair.run ts (sc_heap (fst sp) ! a)), (fst sp)\<lparr>sc_heap := (sc_heap (fst sp))[a := snd (fair.run ts (sc_heap (fst sp) ! a))]\<rparr>, snd sp)"
  using assms
proof (induction ts arbitrary: sp)
  case (Cons t ts)
  obtain r b' where ab: "bucket_Allow t (sc_heap (fst sp) ! a) = (r, b')" by fastforce
  let ?sp = "((fst sp)\<lparr>sc_heap := (sc_heap (fst sp))[a := b']\<rparr>, snd sp)"
  have "fs_step (FAcquire u t t) sp = ([r], ?sp)"
    using Cons.prems ab by (simp add: Scheduler_Acquire_def Scheduler_lookup_def Allow_at_def)
  then show ?case using Cons.IH [of ?sp] Cons.prems ab by (simp add: case_prod_beta)
qed simp

text \<open>C17: Fair sharing gives each user exactly the configured allowance.  Whatever the scheduler did
  before, calls interrupted between their two sections included, a user whose bucket rested for a
  window has exactly \<open>MaxRequestsPerUser\<close> of a batch of simultaneous requests admitted, the first
  ones, and every further one refused; and the batch leaves the buckets of all other users as they
  were.\<close>

theorem fair_share_allowance:
  assumes "fair_config_ok c" "clocked t xs" "sp = snd (fs_run xs (NewScheduler c, []))"
    "bucket_at (fst sp) u = Some b" "b_lastRefill b + fc_Window c \<le> now" "0 < n"
    "fs_run (replicate n (FAcquire u now now)) sp = (answers, sp')"
  shows "answers = replicate (min n (nat (fc_MaxRequestsPerUser c))) True
      @ replicate (n - nat (fc_MaxRequestsPerUser c)) False
    \<and> (\<forall>v. v \<noteq> u \<longrightarrow> bucket_at (fst sp') v = bucket_at (fst sp) v)"
proof -
  define c' where "c' = sc_cfg (NewScheduler c)"
  have c': "fair_config_ok c'" "fc_MaxRequestsPerUser c' = fc_MaxRequestsPerUser c" "fc_Window c' = fc_Window c"
    using assms(1) by (auto simp: c'_def NewScheduler_def fair_config_ok_def)
  obtain t' where ok: "sched_ok c' t' sp"
    using fs_run_ok [OF c'(1) NewScheduler_ok [OF assms(1), folded c'_def] assms(2)] assms(3) by blast
  obtain a where a: "sc_buckets (fst sp) u = Some a" "b = sc_heap (fst sp) ! a" "a < length (sc_heap (fst sp))"
    using assms(4) ok by (auto simp: bucket_at_def sched_ok_def)
  have b: "bucket_ok b" "b_maxTokens b = fc_MaxRequestsPerUser c" "b_window b = fc_Window c"
    using ok a(2,3) c' by (auto simp: sched_ok_def bucket_of_def)
  obtain m where n: "n = Suc m" using assms(6) by (cases n) auto
  have r: "replicate n (FAcquire u now now) = map (\<lambda>t. FAcquire u t t) (now # replicate m now)"
    using n by simp
  have e: "answers = fst (fair.run (now # replicate m now) b)"
    "fst sp' = (fst sp)\<lparr>sc_heap := (sc_heap (fst sp))[a := snd (fair.run (now # replicate m now) b)]\<rparr>"
    using assms(7) fs_run_batch [OF a(1,3), of "now # replicate m now"] r a(2) by simp_all
  have "f64_of_int (fc_MaxRequestsPerUser c) = of_nat (nat (fc_MaxRequestsPerUser c))"
    using f64_of_int_exact [of "fc_MaxRequestsPerUser c"] assms(1) by (simp add: fair_config_ok_def)
  then have "answers = replicate (min n (nat (fc_MaxRequestsPerUser c))) True
      @ replicate (n - nat (fc_MaxRequestsPerUser c)) False"
    using fair.rested_batch [OF b(1), of now "nat (fc_MaxRequestsPerUser c)" "replicate m now"] e(1) b assms(5) n by simp
  moreover have "bucket_at (fst sp') v = bucket_at (fst sp) v" if "v \<noteq> u" for v
  proof -
    have "sc_buckets (fst sp) v \<noteq> Some a" using ok a(1) that by (auto simp: sched_ok_def)
    then show ?thesis using e(2) by (cases "sc_buckets (fst sp) v") (auto simp: bucket_at_def)
  qed
  ultimately show ?thesis by blast
qed


text \<open>C19: The limiter of forced probes admits exactly its burst.  A new limiter admits the first
  \<open>Burst\<close> of a batch of simultaneous forced probes and refuses the rest, and after one interval of
  rest, whatever was asked before, the next one is admitted; a router without a limiter admits none.\<close>

theorem forced_probes_limited:
  assumes "in_int64 interval" "burst \<le> 2 ^ 53"
    "probe.run (replicate n now) (NewProbeLimiter now interval burst) = (answers, l)"
    "probe.run ts (NewProbeLimiter now interval burst) = (earlier, k)" "pl_last k + pl_interval k \<le> later"
  shows "answers = replicate (min n (nat (Burst (Some (NewProbeLimiter now interval burst))))) True
      @ replicate (n - nat (Burst (Some (NewProbeLimiter now interval burst)))) False
    \<and> fst (ProbeLimiter_Allow later (Some k)) \<and> \<not> fst (ProbeLimiter_Allow later None)"
proof -
  let ?l = "NewProbeLimiter now interval burst"
  have b: "1 \<le> pl_burst ?l" "pl_burst ?l \<le> 2 ^ 53" "f64_of_int (pl_burst ?l) = of_int (pl_burst ?l)"
    using assms(2) f64_of_int_exact [of "pl_burst ?l"] by (auto simp: NewProbeLimiter_def Let_def DefaultLiveProbeBurst_def)
  have ok: "limiter_ok ?l"
  proof -
    have "pl_tokens ?l = f64_of_int (pl_burst ?l)" "0 < pl_interval ?l" "pl_interval ?l \<le> max_int64"
      using assms(1) by (auto simp: NewProbeLimiter_def Let_def in_int64_def DefaultLiveProbeInterval_def)
    then show ?thesis using b(1,2) f64_of_int_round [of "pl_burst ?l"] f64_of_int_nonneg [of "pl_burst ?l"]
      by (simp add: limiter_ok_def)
  qed
  have l: "pl_tokens ?l = of_nat (nat (pl_burst ?l))" "pl_last ?l = now"
    using b by (auto simp: NewProbeLimiter_def Let_def)
  have a: "answers = replicate (min n (nat (Burst (Some ?l)))) True @ replicate (n - nat (Burst (Some ?l))) False"
    using probe.drains_in_order [OF ok l(1), of "replicate n now"] assms(3) l(2) by (simp add: Burst_def)
  have k: "limiter_ok k" "f64_of_int (pl_burst k) = of_int (pl_burst ?l)" using probe.run_ok [OF ok assms(4)] b by auto
  have "1 \<le> f64_of_int (pl_burst k)" using k(2) b(1) by simp
  then have "fst (limiter_Allow later k)" using probe.rested [OF k(1) assms(5)] by simp
  then show ?thesis using a by (simp add: ProbeLimiter_Allow_def case_prod_beta)
qed

text \<open>A scheduler of two requests a minute, and the default limiter.\<close>

definition example_fair :: FairConfig where
  "example_fair = \<lparr>fc_MaxRequestsPerUser = 2, fc_Window = 60000000000, fc_Burst = 3, fc_CleanupInterval = 0\<rparr>"

lemma f64_small: "f64_of_int 2 = 2" "f64_of_int 3 = 3" "f64_sub 2 1 = 1"
  using f64_of_int_exact [of 2] f64_of_int_exact [of 3] f64_round_one by (simp_all add: f64_sub_def)

lemma example_fair_ok: "fair_config_ok example_fair"
  by (simp add: fair_config_ok_def example_fair_def)

lemmas scheduler_defs = NewScheduler_def Scheduler_Acquire_def Scheduler_lookup_def Allow_at_def fresh_bucket_def
  newBucket_def bucket_Allow_def bucket_at_def time_sub_def without_def

lemma example_fair_bucket:
  "bucket_at (fst (snd (fs_run [FLookup ''ann'' 0, FLookup ''bob'' 0, FAllow 0 0] (NewScheduler example_fair, [])))) ''ann''
     = Some \<lparr>b_tokens = 1, b_maxTokens = 2, b_window = 60000000000, b_lastRefill = 0, b_lastAccess = 0\<rparr>"
  by (simp add: example_fair_def scheduler_defs f64_small)

theorem fair_share_allowance_witness:
  "fst (fs_run (replicate 5 (FAcquire ''ann'' 60000000000 60000000000))
       (snd (fs_run [FLookup ''ann'' 0, FLookup ''bob'' 0, FAllow 0 0] (NewScheduler example_fair, []))))
     = [True, True, False, False, False]"
proof -
  let ?s = "snd (fs_run [FLookup ''ann'' 0, FLookup ''bob'' 0, FAllow 0 0] (NewScheduler example_fair, []))"
  let ?r = "fs_run (replicate 5 (FAcquire ''ann'' 60000000000 60000000000)) ?s"
  have "fst ?r = replicate (min 5 (nat (fc_MaxRequestsPerUser example_fair))) True
      @ replicate (5 - nat (fc_MaxRequestsPerUser example_fair)) False"
    by (rule fair_share_allowance [THEN conjunct1, OF example_fair_ok _ refl example_fair_bucket, of 0 60000000000 5 "fst ?r" "snd ?r"])
      (simp_all add: example_fair_def)
  also have "\<dots> = [True, True, False, False, False]" by (simp add: example_fair_def numeral_eq_Suc)
  finally show ?thesis .
qed


text \<open>The condition on collections matters.  A collection between the two sections of a call discards the
  object the call holds; the token is taken from the discarded object and the user's next call finds a
  full bucket, so two requests pass where the allowance is one.\<close>

definition one_request :: FairConfig where
  "one_request = \<lparr>fc_MaxRequestsPerUser = 1, fc_Window = 2, fc_Burst = 1, fc_CleanupInterval = 0\<rparr>"

lemma collection_between_sections:
  "fst (fs_run [FLookup ''ann'' 0, FGc 5, FAllow 0 6, FAcquire ''ann'' 7 7] (NewScheduler one_request, [])) = [True, True]"
  "fst (fs_run [FLookup ''ann'' 0, FAllow 0 6, FAcquire ''ann'' 7 7] (NewScheduler one_request, [])) = [True, False]"
proof -
  have i: "f64_of_int 1 = 1" "f64_of_int 2 = 2" "f64_of_int 6 = 6"
    using f64_of_int_exact [of 1] f64_of_int_exact [of 2] f64_of_int_exact [of 6] by simp_all
  have h: "f64_round (1 / 2) = 1 / 2" using f64_round_powi2 [of "-1"] by (simp add: power_int_minus)
  have n: "f64_round 3 = 3" "f64_round 4 = 4" "f64_round 1 = 1"
    using f64_of_int_exact [of 3] f64_of_int_exact [of 4] f64_round_one by (simp_all add: f64_of_int_def)
  have w: "wrap64 4 = 4" by (simp add: wrap64_def)
  show "fst (fs_run [FLookup ''ann'' 0, FGc 5, FAllow 0 6, FAcquire ''ann'' 7 7] (NewScheduler one_request, [])) = [True, True]"
    "fst (fs_run [FLookup ''ann'' 0, FAllow 0 6, FAcquire ''ann'' 7 7] (NewScheduler one_request, [])) = [True, False]"
    by (simp_all add: one_request_def scheduler_defs gc_def bucket_refill_def f64_mul_def f64_div_def f64_add_def f64_sub_def i h n w)
qed

theorem forced_probes_limited_witness:
  "fst (probe.run (replicate 5 0) (NewProbeLimiter 0 0 0)) = [True, True, True, False, False]
   \<and> fst (ProbeLimiter_Allow 10000000000 (Some (snd (probe.run [] (NewProbeLimiter 0 0 0)))))"
proof -
  let ?r = "probe.run (replicate 5 0) (NewProbeLimiter 0 0 0)"
  have "in_int64 0" "(0::int) \<le> 2 ^ 53" by simp_all
  note p = forced_probes_limited [OF this, of 5 0 "fst ?r" "snd ?r" "[]" "[]" "NewProbeLimiter 0 0 0" 10000000000]
  have l: "pl_last (NewProbeLimiter 0 0 0) = 0" "pl_interval (NewProbeLimiter 0 0 0) = 10000000000" "pl_burst (NewProbeLimiter 0 0 0) = 3"
    by (simp_all add: NewProbeLimiter_def DefaultLiveProbeInterval_def DefaultLiveProbeBurst_def)
  have "fst ?r = replicate 3 True @ replicate 2 False" using p l by (simp add: Burst_def)
  moreover have "fst (ProbeLimiter_Allow 10000000000 (Some (NewProbeLimiter 0 0 0)))" using p l by simp
  ultimately show ?thesis by (simp add: numeral_eq_Suc)
qed

end
