(* ===== verification/Json_Body.thy ===== *)
theory Json_Body
  imports Go_Json_Strings "HOL-Library.Char_ord" "HOL-Library.List_Lexorder"
begin

text \<open>
  The rewriting of request bodies in \<open>internal/router/helpers.go\<close>: reading the
  model, replacing it for a node that serves another name, and filling in the
  node's request defaults.  A \<open>map[string]json.RawMessage\<close> is an association
  list with distinct keys; assigning into the nil map, which decoding
  \<open>null\<close> leaves, is the panic it is in Go.
\<close>

section \<open>Decoding into structs and maps\<close>

text \<open>The folding of field names: ASCII case, and the two runes that fold to ASCII letters.\<close>

fun json_fold :: "string \<Rightarrow> string" where
  "json_fold [] = []"
| "json_fold (c # cs) =
     (case cs of
        d # ds \<Rightarrow>
          if c = CHR 0xC5 \<and> d = CHR 0xBF then CHR ''s'' # json_fold ds
          else (case ds of
                  e # es \<Rightarrow> if c = CHR 0xE2 \<and> d = CHR 0x84 \<and> e = CHR 0xAA then CHR ''k'' # json_fold es
                            else ascii_lower c # json_fold cs
                | [] \<Rightarrow> ascii_lower c # json_fold cs)
      | [] \<Rightarrow> [ascii_lower c])"

definition field_is :: "string \<Rightarrow> string \<Rightarrow> bool" where
  "field_is name k \<longleftrightarrow> json_fold (unquote k) = json_fold name"

text \<open>A string field of a struct: the last member of that name decides, \<open>null\<close> leaves the
  field alone, and any other type is an error.\<close>

fun string_members :: "string \<Rightarrow> (string \<times> json) list \<Rightarrow> string \<Rightarrow> string option" where
  "string_members name [] s = Some s"
| "string_members name ((k, v) # ms) s =
     (if field_is name k
      then (case v of
              JStr t \<Rightarrow> string_members name ms (unquote t)
            | JNull \<Rightarrow> string_members name ms s
            | _ \<Rightarrow> None)
      else string_members name ms s)"

definition string_field :: "string \<Rightarrow> json \<Rightarrow> string option" where
  "string_field name v = (case v of JObj ms \<Rightarrow> string_members name ms [] | JNull \<Rightarrow> Some [] | _ \<Rightarrow> None)"

definition ExtractModel :: "string \<Rightarrow> string" where
  "ExtractModel body =
     (case json_parse body of
        None \<Rightarrow> []
      | Some v \<Rightarrow> (case string_field ''model'' v of None \<Rightarrow> [] | Some m \<Rightarrow> m))"

type_synonym raw_map = "(string \<times> json) list"

definition put :: "string \<Rightarrow> json \<Rightarrow> raw_map \<Rightarrow> raw_map" where
  "put k v m = (k, v) # filter (\<lambda>kv. fst kv \<noteq> k) m"

definition raw_members :: "(string \<times> json) list \<Rightarrow> raw_map" where
  "raw_members ms = foldl (\<lambda>m (k, v). put (unquote k) v m) [] ms"

text \<open>\<open>Unmarshal\<close> into a map: an error, the nil map, or the members.\<close>

datatype decoded_map = MapError | NilMap | Members raw_map

definition unmarshal_map :: "string \<Rightarrow> decoded_map" where
  "unmarshal_map body = (case json_parse body of
     Some (JObj ms) \<Rightarrow> Members (raw_members ms) | Some JNull \<Rightarrow> NilMap | _ \<Rightarrow> MapError)"

section \<open>Encoding a map of raw messages\<close>

primrec json_escape :: "json \<Rightarrow> json" where
  "json_escape JNull = JNull"
| "json_escape (JBool b) = JBool b"
| "json_escape (JNum t) = JNum t"
| "json_escape (JStr t) = JStr (html_escape t)"
| "json_escape (JArr vs) = JArr (map json_escape vs)"
| "json_escape (JObj ms) = JObj (map (map_prod html_escape id) (map (map_prod id json_escape) ms))"

definition marshal_map :: "raw_map \<Rightarrow> string" where
  "marshal_map m = json_text (JObj (map (\<lambda>(k, v). (quote_string k, json_escape v)) (sort_key fst m)))"

section \<open>The rewrites\<close>

datatype body_result = Unchanged | Changed string | Panics

definition ApplyModelRewrite :: "string \<Rightarrow> (string \<times> string) list \<Rightarrow> body_result" where
  "ApplyModelRewrite body rewrites =
     (if rewrites = [] then Unchanged
      else let from = ExtractModel body
           in case map_of rewrites from of
                None \<Rightarrow> Unchanged
              | Some to \<Rightarrow>
                  if to = [] \<or> to = from then Unchanged
                  else (case unmarshal_map body of
                          MapError \<Rightarrow> Unchanged
                        | NilMap \<Rightarrow> Panics
                        | Members m \<Rightarrow> Changed (marshal_map (put ''model'' (JStr (quote_string to)) m))))"

fun merge_defaults :: "raw_map \<Rightarrow> raw_map \<Rightarrow> raw_map \<times> bool" where
  "merge_defaults [] m = (m, False)"
| "merge_defaults ((k, v) # ds) m =
     (if k = [] \<or> k \<in> fst ` set m then merge_defaults ds m
      else (fst (merge_defaults ds (put k v m)), True))"

text \<open>\<open>MergeRequestDefaults\<close>; the defaults are a Go map, so their keys are distinct and the
  order of the loop does not matter.\<close>

definition MergeRequestDefaults :: "string \<Rightarrow> raw_map \<Rightarrow> body_result" where
  "MergeRequestDefaults body defaults =
     (if defaults = [] then Unchanged
      else case unmarshal_map body of
             MapError \<Rightarrow> Unchanged
           | NilMap \<Rightarrow> if \<exists>k \<in> fst ` set defaults. k \<noteq> [] then Panics else Unchanged
           | Members m \<Rightarrow>
               (case merge_defaults defaults m of
                  (m', changed) \<Rightarrow> if changed then Changed (marshal_map m') else Unchanged))"

section \<open>What a text denotes\<close>

datatype jval = VNull | VBool bool | VNum string | VStr string | VArr "jval list" | VObj "(string \<times> jval) list"

primrec denote :: "json \<Rightarrow> jval" where
  "denote JNull = VNull"
| "denote (JBool b) = VBool b"
| "denote (JNum t) = VNum t"
| "denote (JStr t) = VStr (unquote t)"
| "denote (JArr vs) = VArr (map denote vs)"
| "denote (JObj ms) = VObj (map (map_prod unquote id) (map (map_prod id denote) ms))"

text \<open>The member of a JSON object under a name: the last one, as decoders read it.\<close>

definition member :: "string \<Rightarrow> string \<Rightarrow> jval option" where
  "member body k = (case json_parse body of
     Some (JObj ms) \<Rightarrow> map_of (rev (map (\<lambda>(l, v). (unquote l, denote v)) ms)) k | _ \<Rightarrow> None)"

section \<open>Escaping keeps the meaning\<close>

lemma json_escape_facts:
  assumes "json_ok v"
  shows "json_ok (json_escape v)" "json_depth (json_escape v) = json_depth v" "denote (json_escape v) = denote v"
proof -
  have "json_ok (json_escape v) \<and> json_depth (json_escape v) = json_depth v \<and> denote (json_escape v) = denote v"
    using assms
  proof (induction v rule: json_induct)
    case (JArr vs)
    have "map json_depth (map json_escape vs) = map json_depth vs" "map denote (map json_escape vs) = map denote vs"
      using JArr by auto
    then show ?case using JArr by (auto simp del: map_map)
  next
    case (JObj ms)
    let ?f = "map_prod html_escape json_escape"
    have "map (map_prod id json_depth) (map ?f ms) = map (map_prod html_escape json_depth) ms"
      "map (map_prod unquote denote) (map ?f ms) = map (map_prod unquote denote) ms"
      using JObj by (auto simp: unquote_html_escape)
    moreover have "map snd (map (map_prod html_escape json_depth) ms) = map snd (map (map_prod id json_depth) ms)" by auto
    moreover have "json_escape (JObj ms) = JObj (map ?f ms)" by (simp add: prod.map_comp)
    moreover have "denote (JObj us) = VObj (map (map_prod unquote denote) us)" for us by (simp add: prod.map_comp)
    ultimately show ?case using JObj
      by (auto simp: str_lit_html_escape simp del: map_map denote.simps json_escape.simps)
  qed (auto simp: str_lit_html_escape unquote_html_escape)
  then show "json_ok (json_escape v)" "json_depth (json_escape v) = json_depth v" "denote (json_escape v) = denote v"
    by simp_all
qed

section \<open>Maps of raw messages\<close>

definition raw_ok :: "raw_map \<Rightarrow> bool" where
  "raw_ok m \<longleftrightarrow> distinct (map fst m)
     \<and> (\<forall>(k, v) \<in> set m. utf8_coerce k = k \<and> json_ok v \<and> json_depth v < maxNestingDepth)"

lemma map_of_put: "map_of (put k v m) = (map_of m)(k \<mapsto> v)"
proof
  fix l show "map_of (put k v m) l = ((map_of m)(k \<mapsto> v)) l"
    by (induction m) (auto simp: put_def)
qed

lemma raw_ok_put:
  "raw_ok m \<Longrightarrow> utf8_coerce k = k \<Longrightarrow> json_ok v \<Longrightarrow> json_depth v < maxNestingDepth \<Longrightarrow> raw_ok (put k v m)"
  by (auto simp: raw_ok_def put_def intro: distinct_map_filter)

lemma map_of_permuted:
  "distinct (map fst xs) \<Longrightarrow> set xs = set ys \<Longrightarrow> distinct (map fst ys) \<Longrightarrow> map_of xs = map_of ys"
  by (simp add: map_of_inject_set)

text \<open>Printing a map and reading it back: the same members.\<close>

lemma member_marshal_map:
  assumes "raw_ok m" shows "member (marshal_map m) k = map_option denote (map_of m k)"
proof -
  define s where "s = sort_key fst m"
  have s: "distinct (map fst s)" "set s = set m"
    using assms by (simp_all add: s_def raw_ok_def distinct_map inj_on_def)
  let ?q = "\<lambda>(k, v). (quote_string k, json_escape v)"
  have ok: "utf8_coerce k = k" "json_ok v" "json_depth v < maxNestingDepth" if "(k, v) \<in> set s" for k v
    using assms s(2) that by (auto simp: raw_ok_def)
  have v: "json_ok (JObj (map ?q s))"
    using ok by (auto simp: unquote_quote_string json_escape_facts)
  have "json_depth (JObj (map ?q s)) \<le> Suc (maxNestingDepth - 1)"
  proof (rule depth_le(2))
    fix kv assume "kv \<in> set (map ?q s)"
    then obtain l v where "(l, v) \<in> set s" "kv = (quote_string l, json_escape v)" by auto
    then show "json_depth (snd kv) \<le> maxNestingDepth - 1" using ok [of l v] by (simp add: json_escape_facts)
  qed
  then have "json_parse (marshal_map m) = Some (JObj (map ?q s))"
    unfolding marshal_map_def s_def [symmetric] using v
    by (intro json_parse_text) (auto simp: maxNestingDepth_def)
  moreover have "map (\<lambda>(l, v). (unquote l, denote v)) (map ?q s) = map (\<lambda>(l, v). (l, denote v)) s"
    using ok by (auto simp: unquote_quote_string json_escape_facts)
  ultimately have "member (marshal_map m) k = map_of (rev (map (\<lambda>(l, v). (l, denote v)) s)) k"
    by (simp add: member_def del: map_map)
  also have "\<dots> = map_of (map (\<lambda>(l, v). (l, denote v)) s) k"
  proof -
    let ?xs = "map (\<lambda>(l, v). (l, denote v)) s"
    have "map fst ?xs = map fst s" by auto
    then have d: "distinct (map fst ?xs)" using s(1) by (simp only:)
    then have "map_of (rev ?xs) = map_of ?xs"
      by (intro map_of_permuted) (simp_all only: rev_map [symmetric] distinct_rev set_rev)
    then show ?thesis by simp
  qed
  also have "\<dots> = map_option denote (map_of s k)" by (simp add: map_of_map)
  also have "map_of s = map_of m"
    using s assms by (intro map_of_permuted) (simp_all add: raw_ok_def)
  finally show ?thesis .
qed

lemma raw_members_facts:
  "map_of (raw_members ms) = map_of (rev (map (\<lambda>(l, v). (unquote l, v)) ms))"
  "\<forall>kv \<in> set ms. json_ok (snd kv) \<and> json_depth (snd kv) < maxNestingDepth \<Longrightarrow> raw_ok (raw_members ms)"
proof -
  show "map_of (raw_members ms) = map_of (rev (map (\<lambda>(l, v). (unquote l, v)) ms))"
    by (induction ms rule: rev_induct) (auto simp: raw_members_def map_of_put)
  show "\<forall>kv \<in> set ms. json_ok (snd kv) \<and> json_depth (snd kv) < maxNestingDepth \<Longrightarrow> raw_ok (raw_members ms)"
  proof (induction ms rule: rev_induct)
    case (snoc kv ms)
    then show ?case by (cases kv) (auto simp: raw_members_def raw_ok_put unquote_wellformed)
  qed (simp add: raw_members_def raw_ok_def)
qed

lemma unmarshal_map_members:
  assumes "unmarshal_map body = Members m"
  shows "raw_ok m" "map_option denote (map_of m k) = member body k"
proof -
  obtain ms where p: "json_parse body = Some (JObj ms)" and m: "m = raw_members ms"
    using assms by (auto simp: unmarshal_map_def split: option.splits json.splits)
  have "json_depth (snd kv) < maxNestingDepth" if "kv \<in> set ms" for kv
    using depth_member(2) [OF that] json_parse_depth [OF p] by linarith
  then show "raw_ok m" unfolding m using json_parse_ok [OF p] by (intro raw_members_facts(2)) auto
  have "map_option denote (map_of (rev (map (\<lambda>(l, v). (unquote l, v)) ms)) k)
    = map_of (rev (map (\<lambda>(l, v). (unquote l, denote v)) ms)) k"
    by (induction ms rule: rev_induct) auto
  then show "map_option denote (map_of m k) = member body k"
    by (simp add: m raw_members_facts(1) member_def p)
qed

lemma merge_defaults_facts:
  assumes "merge_defaults ds m = (m', changed)" "raw_ok m" "raw_ok ds"
  shows "raw_ok m'"
    and "map_of m' k = (case map_of m k of Some v \<Rightarrow> Some v | None \<Rightarrow> if k = [] then None else map_of ds k)"
    and "changed \<longleftrightarrow> (\<exists>k \<in> fst ` set ds. k \<noteq> [] \<and> k \<notin> fst ` set m)"
proof -
  have "raw_ok m' \<and> map_of m' k = (case map_of m k of Some v \<Rightarrow> Some v | None \<Rightarrow> if k = [] then None else map_of ds k)
    \<and> (changed \<longleftrightarrow> (\<exists>k \<in> fst ` set ds. k \<noteq> [] \<and> k \<notin> fst ` set m))"
    using assms
  proof (induction ds arbitrary: m m' changed)
    case (Cons d ds)
    obtain l v where d: "d = (l, v)" by (cases d)
    have ds: "raw_ok ds" "utf8_coerce l = l" "json_ok v" "json_depth v < maxNestingDepth" "l \<notin> fst ` set ds"
      using Cons.prems(3) d by (auto simp: raw_ok_def)
    show ?case
    proof (cases "l = [] \<or> l \<in> fst ` set m")
      case True
      then have "merge_defaults ds m = (m', changed)" using Cons.prems(1) d by simp
      note IH = Cons.IH [OF this Cons.prems(2) ds(1)]
      have "map_of m l \<noteq> None" if "l \<noteq> []" using True that by (simp add: map_of_eq_None_iff)
      then show ?thesis using IH d True by (auto split: option.splits)
    next
      case False
      obtain c where c: "merge_defaults ds (put l v m) = (m', c)" "changed"
        using Cons.prems(1) d False by (cases "merge_defaults ds (put l v m)") auto
      note IH = Cons.IH [OF c(1) raw_ok_put [OF Cons.prems(2) ds(2-4)] ds(1)]
      have "map_of m l = None" using False by (simp add: map_of_eq_None_iff)
      moreover have "map_of ds l = None" using ds(5) by (simp add: map_of_eq_None_iff)
      ultimately show ?thesis using IH c d False by (auto simp: map_of_put split: option.splits)
    qed
  qed (auto split: option.splits)
  then show "raw_ok m'"
    and "map_of m' k = (case map_of m k of Some v \<Rightarrow> Some v | None \<Rightarrow> if k = [] then None else map_of ds k)"
    and "changed \<longleftrightarrow> (\<exists>k \<in> fst ` set ds. k \<noteq> [] \<and> k \<notin> fst ` set m)" by simp_all
qed

section \<open>Properties\<close>

text \<open>C7: Rewriting a body touches only what it names.  When the node's defaults are merged in,
  the forwarded text is again a JSON object that has every member of the caller's with the value
  the caller gave it (numbers digit for digit), the non-empty defaults the caller did not set, and
  nothing else; when the model is rewritten, only the member \<open>model\<close> differs and it is the name the
  table has for the model the body asked for.\<close>

theorem body_rewrites_exact:
  assumes "raw_ok defaults"
  shows "(MergeRequestDefaults body defaults = Changed out \<longrightarrow>
           (\<forall>k. member out k = (case member body k of
              Some x \<Rightarrow> Some x
            | None \<Rightarrow> if k = [] then None else map_option denote (map_of defaults k)))
           \<and> (\<exists>k. k \<noteq> [] \<and> member body k = None \<and> map_of defaults k \<noteq> None))
       \<and> (ApplyModelRewrite body rewrites = Changed out' \<longrightarrow>
           (\<exists>to. map_of rewrites (ExtractModel body) = Some to \<and> to \<noteq> [] \<and> to \<noteq> ExtractModel body
              \<and> (\<forall>k. member out' k = (if k = ''model'' then Some (VStr (utf8_coerce to)) else member body k))))"
proof (intro conjI impI allI)
  assume a: "MergeRequestDefaults body defaults = Changed out"
  then obtain m m' where m: "unmarshal_map body = Members m" "merge_defaults defaults m = (m', True)" "out = marshal_map m'"
    by (auto simp: MergeRequestDefaults_def split: if_splits decoded_map.splits prod.splits)
  note body = unmarshal_map_members [OF m(1)]
  note mf = merge_defaults_facts [OF m(2) body(1) assms]
  show "member out k = (case member body k of Some x \<Rightarrow> Some x
            | None \<Rightarrow> if k = [] then None else map_option denote (map_of defaults k))" for k
    unfolding m(3) member_marshal_map [OF mf(1)] mf(2) [of k] body(2) [of k, symmetric]
    by (auto split: option.splits)
  obtain k where k: "k \<in> fst ` set defaults" "k \<noteq> []" "k \<notin> fst ` set m" using mf(3) by blast
  have "map_of m k = None" "map_of defaults k \<noteq> None" using k by (simp_all add: map_of_eq_None_iff)
  then show "\<exists>k. k \<noteq> [] \<and> member body k = None \<and> map_of defaults k \<noteq> None"
    using body(2) [of k] k(2) by auto
next
  assume "ApplyModelRewrite body rewrites = Changed out'"
  then obtain m to where m: "unmarshal_map body = Members m" "map_of rewrites (ExtractModel body) = Some to"
    "to \<noteq> []" "to \<noteq> ExtractModel body" "out' = marshal_map (put ''model'' (JStr (quote_string to)) m)"
    by (auto simp: ApplyModelRewrite_def Let_def split: if_splits option.splits decoded_map.splits)
  note body = unmarshal_map_members [OF m(1)]
  have ascii: "utf8_coerce ''model'' = ''model''" by (simp add: utf8_coerce_ascii)
  have "raw_ok (put ''model'' (JStr (quote_string to)) m)"
    using body(1) ascii by (intro raw_ok_put) (simp_all add: unquote_quote_string maxNestingDepth_def)
  from member_marshal_map [OF this]
  have "\<forall>k. member out' k = (if k = ''model'' then Some (VStr (utf8_coerce to)) else member body k)"
    by (simp add: m(5) map_of_put unquote_quote_string body(2))
  then show "\<exists>to. map_of rewrites (ExtractModel body) = Some to \<and> to \<noteq> [] \<and> to \<noteq> ExtractModel body
      \<and> (\<forall>k. member out' k = (if k = ''model'' then Some (VStr (utf8_coerce to)) else member body k))"
    using m by blast
qed

theorem body_rewrites_exact_witness:
  "let body = ''{'' @ CHR 0x22 # ''seed'' @ CHR 0x22 # '': 9007199254740993}''; ds = [(''stream'', JBool True)]
   in \<exists>out. MergeRequestDefaults body ds = Changed out
        \<and> member out ''seed'' = Some (VNum ''9007199254740993'') \<and> member out ''stream'' = Some (VBool True)"
proof -
  let ?b = "''{'' @ CHR 0x22 # ''seed'' @ CHR 0x22 # '': 9007199254740993}''" and ?ds = "[(''stream'', JBool True)]"
  have "case MergeRequestDefaults ?b ?ds of Changed _ \<Rightarrow> True | _ \<Rightarrow> False" by code_simp
  then obtain out where o: "MergeRequestDefaults ?b ?ds = Changed out" by (auto split: body_result.splits)
  have ok: "raw_ok ?ds" by (simp add: raw_ok_def utf8_coerce_ascii maxNestingDepth_def)
  have "\<forall>k. member out k = (case member ?b k of Some x \<Rightarrow> Some x
            | None \<Rightarrow> if k = [] then None else map_option denote (map_of ?ds k))"
    using body_rewrites_exact [OF ok, of ?b out] o by blast
  moreover have "member ?b ''seed'' = Some (VNum ''9007199254740993'')" "member ?b ''stream'' = None" by code_simp+
  ultimately have "member out ''seed'' = Some (VNum ''9007199254740993'')" "member out ''stream'' = Some (VBool True)"
    by simp_all
  then show ?thesis unfolding Let_def using o by blast
qed

text \<open>The body \<open>null\<close> decodes into the nil map, and storing the first default into it panics.\<close>

lemma null_body_panics:
  "k \<noteq> [] \<Longrightarrow> MergeRequestDefaults ''null'' [(k, v)] = Panics"
proof -
  have "json_parse ''null'' = Some JNull" by code_simp
  then show "k \<noteq> [] \<Longrightarrow> MergeRequestDefaults ''null'' [(k, v)] = Panics"
    by (simp add: MergeRequestDefaults_def unmarshal_map_def)
qed

end
