(* ===== verification/Smart_Route.thy ===== *)
theory Smart_Route
  imports Go_Json_Any Json_Body Gateway_Auth
begin

text \<open>
  The routing policy of \<open>internal/smartroute\<close>: \<open>smartroute.go\<close> classifies a request and
  rewrites its body, \<open>agents.go\<close> recognises the calling agent and gates it.  Reading the YAML
  file is outside the model; everything done with the decoded policy is here.  A request that
  may be nil is an optional header set, and the two case mappings of the standard library are
  the parameters \<open>uni\<close> and \<open>ufold\<close>.
\<close>

section \<open>The policy\<close>

definition HeaderTaskClass :: string where "HeaderTaskClass = ''X-Helixon-Task''"
definition AutoModel :: string where "AutoModel = ''auto''"

datatype Source = SourceHeader | SourceExplicitModel | SourceHeuristic | SourceDefault | SourceDisabled
  | SourceAgentForce

record Match =
  mt_AnyOfMarkers :: "string list"
  mt_MinPromptChars :: int

record SmartRoute =
  sr_Model :: string
  sr_Tier :: string
  sr_Params :: "(string \<times> any) list"

record Class =
  cl_Name :: string
  cl_Description :: string
  cl_Enabled :: "bool option"
  cl_Match :: Match
  cl_Route :: SmartRoute

definition IsEnabled :: "Class \<Rightarrow> bool" where
  "IsEnabled c \<longleftrightarrow> (case cl_Enabled c of None \<Rightarrow> True | Some b \<Rightarrow> b)"

record AgentPolicy =
  ap_Enabled :: "bool option"
  ap_ForceClass :: string

text \<open>The two shapes of an agent entry; what the YAML decoder makes of the node as a boolean and
  as a mapping are arguments.\<close>

definition AgentPolicy_UnmarshalYAML :: "bool option \<Rightarrow> 'e + AgentPolicy \<Rightarrow> 'e + AgentPolicy" where
  "AgentPolicy_UnmarshalYAML as_bool as_mapping =
     (case as_bool of
        Some b \<Rightarrow> Inr \<lparr>ap_Enabled = Some b, ap_ForceClass = []\<rparr>
      | None \<Rightarrow> as_mapping)"

record Policy =
  po_Enabled :: bool
  po_Agents :: "(string \<times> AgentPolicy) list"
  po_DefaultClass :: string
  po_Classes :: "Class list"

datatype smart_error =
    NoClasses | ClassNameRequired nat | DuplicateClassName nat string | RouteModelRequired string
  | DefaultClassRequired | DefaultClassUndefined string | ForceClassUndefined string string
  | DefaultClassNotFound string

fun validate_classes :: "nat \<Rightarrow> string list \<Rightarrow> Class list \<Rightarrow> smart_error + string list" where
  "validate_classes i seen [] = Inr seen"
| "validate_classes i seen (c # cs) =
     (if cl_Name c = [] then Inl (ClassNameRequired i)
      else if cl_Name c \<in> set seen then Inl (DuplicateClassName i (cl_Name c))
      else if sr_Model (cl_Route c) = [] then Inl (RouteModelRequired (cl_Name c))
      else validate_classes (i + 1) (cl_Name c # seen) cs)"

text \<open>\<open>Policy.Validate\<close>; which of several undefined forced classes is reported depends on the
  iteration order of the map, here the order of the list.\<close>

definition Policy_Validate :: "Policy \<Rightarrow> smart_error option" where
  "Policy_Validate p =
     (if po_Classes p = [] then Some NoClasses
      else case validate_classes 0 [] (po_Classes p) of
             Inl e \<Rightarrow> Some e
           | Inr seen \<Rightarrow>
               if po_DefaultClass p = [] then Some DefaultClassRequired
               else if po_DefaultClass p \<notin> set seen then Some (DefaultClassUndefined (po_DefaultClass p))
               else map_option (\<lambda>(agent, ap). ForceClassUndefined agent (ap_ForceClass ap))
                      (find (\<lambda>(agent, ap). ap_ForceClass ap \<noteq> [] \<and> ap_ForceClass ap \<notin> set seen) (po_Agents p)))"

definition EnabledClasses :: "Policy \<Rightarrow> Class list" where
  "EnabledClasses p = filter IsEnabled (po_Classes p)"

definition policy_lookup :: "Policy \<Rightarrow> string \<Rightarrow> Class option" where
  "policy_lookup p name = find (\<lambda>c. cl_Name c = name) (po_Classes p)"

section \<open>Agents\<close>

definition HeaderAgent :: string where "HeaderAgent = ''X-Helixon-Agent''"

definition uaHints :: "(string \<times> string) list" where
  "uaHints = [(''kilo'', ''kilo-code''), (''cursor'', ''cursor''), (''claude'', ''claude-code''),
              (''codex'', ''codex''), (''openai'', ''codex'')]"

definition DetectAgent :: "(string \<Rightarrow> string) \<Rightarrow> Header option \<Rightarrow> string" where
  "DetectAgent uni req =
     (case req of
        None \<Rightarrow> []
      | Some hdr \<Rightarrow>
          (let h = ToLower uni (TrimSpace (Header_Get hdr HeaderAgent))
           in if h \<noteq> [] then h
              else let ua = ToLower uni (Header_Get hdr ''User-Agent'')
                   in if ua = [] then []
                      else case find (\<lambda>(needle, agent). str_contains ua needle) uaHints of
                             Some (needle, agent) \<Rightarrow> agent
                           | None \<Rightarrow> []))"

definition Policy_AgentAllowed :: "(string \<Rightarrow> string) \<Rightarrow> Policy option \<Rightarrow> string \<Rightarrow> bool" where
  "Policy_AgentAllowed uni po agent =
     (case po of
        None \<Rightarrow> True
      | Some p \<Rightarrow>
          if po_Agents p = [] \<or> agent = [] then True
          else case map_of (po_Agents p) (ToLower uni agent) of
                 None \<Rightarrow> True
               | Some ap \<Rightarrow> (case ap_Enabled ap of None \<Rightarrow> True | Some b \<Rightarrow> b))"

definition ForceClass :: "(string \<Rightarrow> string) \<Rightarrow> Policy option \<Rightarrow> string \<Rightarrow> string" where
  "ForceClass uni po agent =
     (case po of
        None \<Rightarrow> []
      | Some p \<Rightarrow>
          if agent = [] then []
          else case map_of (po_Agents p) (ToLower uni agent) of None \<Rightarrow> [] | Some ap \<Rightarrow> ap_ForceClass ap)"

section \<open>Reading the body\<close>

definition extractModel :: "string \<Rightarrow> string" where
  "extractModel body =
     (case json_parse body of
        None \<Rightarrow> []
      | Some v \<Rightarrow> (case string_field ''model'' v of None \<Rightarrow> [] | Some m \<Rightarrow> m))"

text \<open>One element of \<open>messages\<close> is its raw \<open>content\<close>, absent or a value; \<open>null\<close> is kept as a value
  there.  Decoding writes into the element already in that place.\<close>

fun message_members :: "(string \<times> json) list \<Rightarrow> json option \<Rightarrow> json option" where
  "message_members [] c = c"
| "message_members ((k, v) # ms) c = message_members ms (if field_is ''content'' k then Some v else c)"

definition decode_message :: "json \<Rightarrow> json option \<Rightarrow> json option option" where
  "decode_message v c = (case v of JObj ms \<Rightarrow> Some (message_members ms c) | JNull \<Rightarrow> Some c | _ \<Rightarrow> None)"

text \<open>A slice is its length and the elements of its backing array.  A second \<open>messages\<close> member
  decodes into the elements the first one left; \<open>null\<close> and the empty array start afresh.\<close>

fun decode_elems :: "json list \<Rightarrow> json option list \<Rightarrow> json option list option" where
  "decode_elems [] back = Some back"
| "decode_elems (v # vs) back =
     (case decode_message v (case back of [] \<Rightarrow> None | c # _ \<Rightarrow> c) of
        None \<Rightarrow> None
      | Some c \<Rightarrow> map_option (\<lambda>cs. c # cs) (decode_elems vs (tl back)))"

definition decode_messages :: "json \<Rightarrow> json option list \<Rightarrow> (nat \<times> json option list) option" where
  "decode_messages v back =
     (case v of
        JNull \<Rightarrow> Some (0, [])
      | JArr vs \<Rightarrow> if vs = [] then Some (0, []) else map_option (\<lambda>cs. (length vs, cs)) (decode_elems vs back)
      | _ \<Rightarrow> None)"

fun prompt_members :: "(string \<times> json) list \<Rightarrow> string \<times> nat \<times> json option list \<Rightarrow>
    (string \<times> nat \<times> json option list) option" where
  "prompt_members [] st = Some st"
| "prompt_members ((k, v) # ms) (prompt, n, back) =
     (if field_is ''prompt'' k
      then (case v of
              JStr t \<Rightarrow> prompt_members ms (unquote t, n, back)
            | JNull \<Rightarrow> prompt_members ms (prompt, n, back)
            | _ \<Rightarrow> None)
      else if field_is ''messages'' k
      then (case decode_messages v back of
              None \<Rightarrow> None
            | Some (n', back') \<Rightarrow> prompt_members ms (prompt, n', back'))
      else prompt_members ms (prompt, n, back))"

fun parts_text :: "json list \<Rightarrow> string option" where
  "parts_text [] = Some []"
| "parts_text (v # vs) =
     (case string_field ''text'' v of
        None \<Rightarrow> None
      | Some s \<Rightarrow> map_option (\<lambda>r. s @ r) (parts_text vs))"

definition message_text :: "json option \<Rightarrow> string" where
  "message_text c =
     (case c of
        Some (JStr t) \<Rightarrow> unquote t
      | Some (JArr vs) \<Rightarrow> (case parts_text vs of None \<Rightarrow> [] | Some s \<Rightarrow> s)
      | _ \<Rightarrow> [])"

definition extractPrompt :: "string \<Rightarrow> string" where
  "extractPrompt body =
     (case json_parse body of
        Some (JObj ms) \<Rightarrow>
          (case prompt_members ms ([], 0, []) of
             None \<Rightarrow> []
           | Some (prompt, n, back) \<Rightarrow> prompt @ concat (map message_text (take n back)))
      | _ \<Rightarrow> [])"

section \<open>Classification\<close>

record Decision =
  de_Class :: string
  de_Model :: string
  de_Tier :: string
  de_Params :: "(string \<times> any) list"
  de_Source :: Source

type_synonym Classifier = "Source \<times> (Header option \<Rightarrow> string \<Rightarrow> Policy \<Rightarrow> string option)"

definition header_Classify :: "Header option \<Rightarrow> string \<Rightarrow> Policy \<Rightarrow> string option" where
  "header_Classify req body p =
     (case req of
        None \<Rightarrow> None
      | Some h \<Rightarrow>
          (let name = TrimSpace (Header_Get h HeaderTaskClass)
           in if name = [] then None
              else case policy_lookup p name of None \<Rightarrow> None | Some _ \<Rightarrow> Some name))"

fun best_size :: "int \<Rightarrow> Class list \<Rightarrow> string \<times> int \<Rightarrow> string \<times> int" where
  "best_size len [] b = b"
| "best_size len (c # cs) b =
     (let m = mt_MinPromptChars (cl_Match c)
      in best_size len cs (if 0 < m \<and> m \<le> len \<and> snd b < m then (cl_Name c, m) else b))"

definition has_marker :: "string \<Rightarrow> Class \<Rightarrow> bool" where
  "has_marker prompt c = list_ex (\<lambda>marker. marker \<noteq> [] \<and> str_contains prompt marker) (mt_AnyOfMarkers (cl_Match c))"

definition heuristic_Classify :: "Header option \<Rightarrow> string \<Rightarrow> Policy \<Rightarrow> string option" where
  "heuristic_Classify req body p =
     (let prompt = extractPrompt body
      in if prompt = [] then None
         else let best = fst (best_size (int (length prompt)) (EnabledClasses p) ([], 0))
              in if best \<noteq> [] then Some best
                 else map_option cl_Name (find (has_marker prompt) (EnabledClasses p)))"

record Router =
  ro_policy :: "Policy option"
  ro_classifiers :: "Classifier list"

definition NewRouter :: "Policy \<Rightarrow> Router" where
  "NewRouter p = \<lparr>ro_policy = Some p,
     ro_classifiers = [(SourceHeader, header_Classify), (SourceHeuristic, heuristic_Classify)]\<rparr>"

definition WithClassifiers :: "Classifier list \<Rightarrow> Router \<Rightarrow> Router" where
  "WithClassifiers cs r = r\<lparr>ro_classifiers := cs\<rparr>"

definition Router_AgentAllowed :: "(string \<Rightarrow> string) \<Rightarrow> Router option \<Rightarrow> string \<Rightarrow> bool" where
  "Router_AgentAllowed uni ro agent =
     (case ro of
        None \<Rightarrow> True
      | Some r \<Rightarrow>
          (case ro_policy r of
             None \<Rightarrow> True
           | Some p \<Rightarrow> if \<not> po_Enabled p then True else Policy_AgentAllowed uni (Some p) agent))"

definition decisionFor :: "Class \<Rightarrow> Source \<Rightarrow> Decision" where
  "decisionFor c source =
     \<lparr>de_Class = cl_Name c, de_Model = sr_Model (cl_Route c), de_Tier = sr_Tier (cl_Route c),
      de_Params = sr_Params (cl_Route c), de_Source = source\<rparr>"

definition plain_decision :: "string \<Rightarrow> Source \<Rightarrow> Decision" where
  "plain_decision m source = \<lparr>de_Class = [], de_Model = m, de_Tier = [], de_Params = [], de_Source = source\<rparr>"

fun run_classifiers :: "Classifier list \<Rightarrow> Header option \<Rightarrow> string \<Rightarrow> Policy \<Rightarrow> Decision option" where
  "run_classifiers [] req body p = None"
| "run_classifiers ((source, classify) # cs) req body p =
     (case classify req body p of
        None \<Rightarrow> run_classifiers cs req body p
      | Some name \<Rightarrow>
          (case policy_lookup p name of
             None \<Rightarrow> run_classifiers cs req body p
           | Some c \<Rightarrow> if \<not> IsEnabled c then run_classifiers cs req body p else Some (decisionFor c source)))"

definition forced_class :: "(string \<Rightarrow> string) \<Rightarrow> Policy \<Rightarrow> Header option \<Rightarrow> Class option" where
  "forced_class uni p req =
     (let fc = ForceClass uni (Some p) (DetectAgent uni req)
      in if fc = [] then None
         else case policy_lookup p fc of
                None \<Rightarrow> None
              | Some c \<Rightarrow> if IsEnabled c then Some c else None)"

definition Decide :: "(string \<Rightarrow> string) \<Rightarrow> (string \<Rightarrow> string \<Rightarrow> bool) \<Rightarrow> Router \<Rightarrow> Header option \<Rightarrow> string \<Rightarrow>
    smart_error + Decision" where
  "Decide uni ufold r req body =
     (case ro_policy r of
        None \<Rightarrow> Inr (plain_decision (extractModel body) SourceDisabled)
      | Some p \<Rightarrow>
          if \<not> po_Enabled p then Inr (plain_decision (extractModel body) SourceDisabled)
          else case forced_class uni p req of
                 Some c \<Rightarrow> Inr (decisionFor c SourceAgentForce)
               | None \<Rightarrow>
                   (let m = extractModel body
                    in if m \<noteq> [] \<and> \<not> EqualFold ufold m AutoModel then Inr (plain_decision m SourceExplicitModel)
                       else case run_classifiers (ro_classifiers r) req body p of
                              Some d \<Rightarrow> Inr d
                            | None \<Rightarrow>
                                (case policy_lookup p (po_DefaultClass p) of
                                   None \<Rightarrow> Inl (DefaultClassNotFound (po_DefaultClass p))
                                 | Some c \<Rightarrow> Inr (decisionFor c SourceDefault))))"

section \<open>Rewriting\<close>

datatype rewrite_result = Body string | RewriteError | RewritePanics

fun fill_params :: "(string \<times> any) list \<Rightarrow> (string \<times> any) list \<Rightarrow> (string \<times> any) list" where
  "fill_params [] m = m"
| "fill_params ((k, v) # ps) m = fill_params ps (if k \<in> fst ` set m then m else map_put k v m)"

definition Rewrite :: "string \<Rightarrow> Decision \<Rightarrow> rewrite_result" where
  "Rewrite body d =
     (if de_Source d = SourceDisabled \<or> de_Source d = SourceExplicitModel then Body body
      else case json_parse body of
             None \<Rightarrow> Body body
           | Some v \<Rightarrow>
               (case v of
                  JNull \<Rightarrow> if de_Model d \<noteq> [] \<or> de_Params d \<noteq> [] then RewritePanics else Body ''null''
                | JObj ms \<Rightarrow>
                    if \<not> floats_ok v then Body body
                    else (case decode_any v of
                            AMap m \<Rightarrow>
                              (let m1 = (if de_Model d \<noteq> [] then map_put ''model'' (AStr (de_Model d)) m else m);
                                   payload = AMap (fill_params (de_Params d) m1)
                               in if marshals payload then Body (json_text (encode_any payload)) else RewriteError)
                          | _ \<Rightarrow> Body body)
                | _ \<Rightarrow> Body body))"

section \<open>Validated policies\<close>

lemma validate_classes_facts:
  "validate_classes i seen cs = Inr seen' \<Longrightarrow>
     set seen' = set seen \<union> cl_Name ` set cs
     \<and> (\<forall>c \<in> set cs. cl_Name c \<noteq> [] \<and> sr_Model (cl_Route c) \<noteq> [] \<and> cl_Name c \<notin> set seen)
     \<and> distinct (map cl_Name cs)"
proof (induction i seen cs rule: validate_classes.induct)
  case (2 i seen c cs)
  then have "validate_classes (i + 1) (cl_Name c # seen) cs = Inr seen'" "cl_Name c \<noteq> []"
    "cl_Name c \<notin> set seen" "sr_Model (cl_Route c) \<noteq> []" by (auto split: if_splits)
  with 2 show ?case by auto
qed simp

lemma Policy_Validate_facts:
  assumes "Policy_Validate p = None"
  shows "\<And>c. c \<in> set (po_Classes p) \<Longrightarrow> cl_Name c \<noteq> [] \<and> sr_Model (cl_Route c) \<noteq> []"
    "distinct (map cl_Name (po_Classes p))" "po_DefaultClass p \<in> cl_Name ` set (po_Classes p)"
    "\<And>agent ap. (agent, ap) \<in> set (po_Agents p) \<Longrightarrow> ap_ForceClass ap \<noteq> [] \<Longrightarrow>
       ap_ForceClass ap \<in> cl_Name ` set (po_Classes p)"
proof -
  obtain seen where s: "validate_classes 0 [] (po_Classes p) = Inr seen" "po_DefaultClass p \<in> set seen"
    "find (\<lambda>(agent, ap). ap_ForceClass ap \<noteq> [] \<and> ap_ForceClass ap \<notin> set seen) (po_Agents p) = None"
    using assms by (auto simp: Policy_Validate_def split: if_splits sum.splits)
  note f = validate_classes_facts [OF s(1)]
  show "\<And>c. c \<in> set (po_Classes p) \<Longrightarrow> cl_Name c \<noteq> [] \<and> sr_Model (cl_Route c) \<noteq> []"
    "distinct (map cl_Name (po_Classes p))" "po_DefaultClass p \<in> cl_Name ` set (po_Classes p)"
    "\<And>agent ap. (agent, ap) \<in> set (po_Agents p) \<Longrightarrow> ap_ForceClass ap \<noteq> [] \<Longrightarrow>
       ap_ForceClass ap \<in> cl_Name ` set (po_Classes p)"
    using f s(2,3) by (fastforce simp: find_None_iff)+
qed

lemma policy_lookup_SomeD: "policy_lookup p name = Some c \<Longrightarrow> c \<in> set (po_Classes p) \<and> cl_Name c = name"
  by (auto simp: policy_lookup_def find_Some_iff)

lemma policy_lookup_member: "name \<in> cl_Name ` set (po_Classes p) \<Longrightarrow> \<exists>c. policy_lookup p name = Some c"
  by (cases "policy_lookup p name") (auto simp: policy_lookup_def find_None_iff)

lemma policy_lookup_name:
  assumes "distinct (map cl_Name (po_Classes p))" "c \<in> set (po_Classes p)"
  shows "policy_lookup p (cl_Name c) = Some c"
proof -
  obtain d where d: "policy_lookup p (cl_Name c) = Some d" using policy_lookup_member assms(2) by fastforce
  from policy_lookup_SomeD [OF d] assms have "d = c" by (auto simp: distinct_map inj_on_def)
  with d show ?thesis by simp
qed

section \<open>The specification of a decision\<close>

text \<open>What the documentation promises, without the classifiers: the class an agent is forced to, the
  class the header names, the earliest class with the largest size threshold the prompt reaches,
  and the earliest class with a marker in the prompt.  \<open>smart_spec\<close> tries them in that order, and a
  request that names a concrete model is decided before the header is looked at.\<close>

definition size_fits :: "int \<Rightarrow> Class \<Rightarrow> bool" where
  "size_fits len c \<longleftrightarrow> 0 < mt_MinPromptChars (cl_Match c) \<and> mt_MinPromptChars (cl_Match c) \<le> len"

definition forces_class :: "(string \<Rightarrow> string) \<Rightarrow> Policy \<Rightarrow> Header option \<Rightarrow> Class \<Rightarrow> bool" where
  "forces_class uni p req c \<longleftrightarrow>
     c \<in> set (EnabledClasses p) \<and> cl_Name c = ForceClass uni (Some p) (DetectAgent uni req)"

definition names_model :: "(string \<Rightarrow> string \<Rightarrow> bool) \<Rightarrow> string \<Rightarrow> bool" where
  "names_model ufold body \<longleftrightarrow> extractModel body \<noteq> [] \<and> \<not> EqualFold ufold (extractModel body) AutoModel"

definition header_names :: "Policy \<Rightarrow> Header option \<Rightarrow> Class \<Rightarrow> bool" where
  "header_names p req c \<longleftrightarrow>
     c \<in> set (EnabledClasses p) \<and> (\<exists>h. req = Some h \<and> TrimSpace (Header_Get h HeaderTaskClass) = cl_Name c)"

definition prompt_fits :: "string \<Rightarrow> Class \<Rightarrow> bool" where
  "prompt_fits body = size_fits (int (length (extractPrompt body)))"

definition largest_fit :: "Policy \<Rightarrow> string \<Rightarrow> Class \<Rightarrow> bool" where
  "largest_fit p body c \<longleftrightarrow> prompt_fits body c \<and>
     (\<exists>xs ys. EnabledClasses p = xs @ c # ys
        \<and> (\<forall>d \<in> set xs. prompt_fits body d \<longrightarrow> mt_MinPromptChars (cl_Match d) < mt_MinPromptChars (cl_Match c))
        \<and> (\<forall>d \<in> set ys. prompt_fits body d \<longrightarrow> mt_MinPromptChars (cl_Match d) \<le> mt_MinPromptChars (cl_Match c)))"

definition first_marked :: "Policy \<Rightarrow> string \<Rightarrow> Class \<Rightarrow> bool" where
  "first_marked p body c \<longleftrightarrow> has_marker (extractPrompt body) c \<and>
     (\<exists>xs ys. EnabledClasses p = xs @ c # ys \<and> (\<forall>d \<in> set xs. \<not> has_marker (extractPrompt body) d))"

inductive smart_spec :: "(string \<Rightarrow> string) \<Rightarrow> (string \<Rightarrow> string \<Rightarrow> bool) \<Rightarrow> Policy \<Rightarrow> Header option \<Rightarrow> string \<Rightarrow>
    Decision \<Rightarrow> bool" for uni ufold p req body where
  forced: "forces_class uni p req c \<Longrightarrow> smart_spec uni ufold p req body (decisionFor c SourceAgentForce)"
| named: "\<nexists>c. forces_class uni p req c \<Longrightarrow> names_model ufold body \<Longrightarrow>
    smart_spec uni ufold p req body (plain_decision (extractModel body) SourceExplicitModel)"
| header: "\<nexists>c. forces_class uni p req c \<Longrightarrow> \<not> names_model ufold body \<Longrightarrow> header_names p req c \<Longrightarrow>
    smart_spec uni ufold p req body (decisionFor c SourceHeader)"
| sized: "\<nexists>c. forces_class uni p req c \<Longrightarrow> \<not> names_model ufold body \<Longrightarrow> \<nexists>c. header_names p req c \<Longrightarrow>
    largest_fit p body c \<Longrightarrow> smart_spec uni ufold p req body (decisionFor c SourceHeuristic)"
| marked: "\<nexists>c. forces_class uni p req c \<Longrightarrow> \<not> names_model ufold body \<Longrightarrow> \<nexists>c. header_names p req c \<Longrightarrow>
    \<forall>c \<in> set (EnabledClasses p). \<not> prompt_fits body c \<Longrightarrow> first_marked p body c \<Longrightarrow>
    smart_spec uni ufold p req body (decisionFor c SourceHeuristic)"
| fallback: "\<nexists>c. forces_class uni p req c \<Longrightarrow> \<not> names_model ufold body \<Longrightarrow> \<nexists>c. header_names p req c \<Longrightarrow>
    \<forall>c \<in> set (EnabledClasses p). \<not> prompt_fits body c \<and> \<not> has_marker (extractPrompt body) c \<Longrightarrow>
    c \<in> set (po_Classes p) \<Longrightarrow> cl_Name c = po_DefaultClass p \<Longrightarrow>
    smart_spec uni ufold p req body (decisionFor c SourceDefault)"

lemma best_size_keep:
  "\<forall>d \<in> set cs. size_fits len d \<longrightarrow> mt_MinPromptChars (cl_Match d) \<le> snd b \<Longrightarrow> best_size len cs b = b"
  by (induction cs) (auto simp: size_fits_def Let_def)

lemma best_size_largest:
  assumes "size_fits len c"
    "\<forall>d \<in> set xs. size_fits len d \<longrightarrow> mt_MinPromptChars (cl_Match d) < mt_MinPromptChars (cl_Match c)"
    "\<forall>d \<in> set ys. size_fits len d \<longrightarrow> mt_MinPromptChars (cl_Match d) \<le> mt_MinPromptChars (cl_Match c)"
    "snd b < mt_MinPromptChars (cl_Match c)"
  shows "best_size len (xs @ c # ys) b = (cl_Name c, mt_MinPromptChars (cl_Match c))"
  using assms(2,4)
proof (induction xs arbitrary: b)
  case Nil
  then show ?case using assms(1,3) best_size_keep [of ys len "(cl_Name c, mt_MinPromptChars (cl_Match c))"]
    by (simp add: size_fits_def Let_def)
next
  case (Cons x xs)
  then show ?case by (auto simp: Let_def size_fits_def)
qed

lemma largest_exists:
  "\<exists>c \<in> set cs. P c \<Longrightarrow> \<exists>xs c ys. cs = xs @ c # ys \<and> P c \<and> (\<forall>d \<in> set xs. P d \<longrightarrow> (f d :: int) < f c) \<and> (\<forall>d \<in> set ys. P d \<longrightarrow> f d \<le> f c)"
proof (induction cs)
  case (Cons x cs)
  show ?case
  proof (cases "\<exists>c \<in> set cs. P c")
    case True
    then obtain xs c ys where c: "cs = xs @ c # ys" "P c" "\<forall>d \<in> set xs. P d \<longrightarrow> f d < f c" "\<forall>d \<in> set ys. P d \<longrightarrow> f d \<le> f c"
      using Cons.IH by blast
    show ?thesis
    proof (cases "P x \<and> f c \<le> f x")
      case True
      with c have "x # cs = [] @ x # cs" "P x" "\<forall>d \<in> set cs. P d \<longrightarrow> f d \<le> f x" by force+
      then show ?thesis by (metis empty_iff empty_set)
    next
      case False
      with c have "x # cs = (x # xs) @ c # ys" "\<forall>d \<in> set (x # xs). P d \<longrightarrow> f d < f c" by auto
      with c show ?thesis by blast
    qed
  next
    case False
    with Cons.prems have "x # cs = [] @ x # cs" "P x" "\<forall>d \<in> set cs. P d \<longrightarrow> f d \<le> f x" by auto
    then show ?thesis by (metis empty_iff empty_set)
  qed
qed simp

lemma heuristic_sized:
  assumes "largest_fit p body c" "cl_Name c \<noteq> []"
  shows "heuristic_Classify req body p = Some (cl_Name c)"
proof -
  obtain xs ys where e: "EnabledClasses p = xs @ c # ys" "prompt_fits body c"
    "\<forall>d \<in> set xs. prompt_fits body d \<longrightarrow> mt_MinPromptChars (cl_Match d) < mt_MinPromptChars (cl_Match c)"
    "\<forall>d \<in> set ys. prompt_fits body d \<longrightarrow> mt_MinPromptChars (cl_Match d) \<le> mt_MinPromptChars (cl_Match c)"
    using assms(1) by (auto simp: largest_fit_def)
  have "best_size (int (length (extractPrompt body))) (EnabledClasses p) ([], 0) = (cl_Name c, mt_MinPromptChars (cl_Match c))"
    unfolding e(1) using e(2-4) by (intro best_size_largest) (auto simp: prompt_fits_def size_fits_def)
  moreover have "extractPrompt body \<noteq> []" using e(2) by (auto simp: prompt_fits_def size_fits_def)
  ultimately show ?thesis using assms(2) by (simp add: heuristic_Classify_def)
qed

lemma heuristic_small:
  assumes "\<forall>c \<in> set (EnabledClasses p). \<not> prompt_fits body c"
  shows "heuristic_Classify req body p = map_option cl_Name (find (has_marker (extractPrompt body)) (EnabledClasses p))"
proof -
  have "best_size (int (length (extractPrompt body))) (EnabledClasses p) ([], 0) = ([], 0)"
    using assms by (intro best_size_keep) (auto simp: prompt_fits_def)
  moreover have "find (has_marker []) (EnabledClasses p) = None"
    by (auto simp: find_None_iff has_marker_def list_ex_iff str_contains_iff)
  ultimately show ?thesis by (cases "extractPrompt body = []") (simp_all add: heuristic_Classify_def)
qed

lemma find_first_marked: "first_marked p body c \<Longrightarrow> find (has_marker (extractPrompt body)) (EnabledClasses p) = Some c"
proof -
  have "find P (xs @ c # ys) = Some c" if "P c" "\<forall>d \<in> set xs. \<not> P d" for P :: "Class \<Rightarrow> bool" and xs ys
    using that by (induction xs) auto
  then show "first_marked p body c \<Longrightarrow> find (has_marker (extractPrompt body)) (EnabledClasses p) = Some c"
    by (auto simp: first_marked_def)
qed

lemma smart_spec_exists:
  assumes "Policy_Validate p = None"
  shows "\<exists>d. smart_spec uni ufold p req body d"
proof (cases "(\<exists>c. forces_class uni p req c) \<or> names_model ufold body \<or> (\<exists>c. header_names p req c)")
  case True
  then show ?thesis by (blast intro: smart_spec.intros)
next
  case none: False
  show ?thesis
  proof (cases "\<exists>c \<in> set (EnabledClasses p). prompt_fits body c")
    case True
    from largest_exists [OF this, of "\<lambda>c. mt_MinPromptChars (cl_Match c)"] obtain c where "largest_fit p body c"
      unfolding largest_fit_def by auto
    then show ?thesis using none smart_spec.sized [of uni p req ufold body c] by blast
  next
    case small: False
    show ?thesis
    proof (cases "\<exists>c \<in> set (EnabledClasses p). has_marker (extractPrompt body) c")
      case True
      from split_list_first_prop [OF this] obtain c where "first_marked p body c" unfolding first_marked_def by blast
      then show ?thesis using none small smart_spec.marked [of uni p req ufold body c] by blast
    next
      case False
      obtain c where "c \<in> set (po_Classes p)" "cl_Name c = po_DefaultClass p"
        using Policy_Validate_facts(3) [OF assms] by fastforce
      then show ?thesis using none small False smart_spec.fallback [of uni p req ufold body c] by blast
    qed
  qed
qed

lemma forced_class_iff:
  assumes "Policy_Validate p = None"
  shows "forced_class uni p req = Some c \<longleftrightarrow> forces_class uni p req c"
proof
  assume "forced_class uni p req = Some c"
  then show "forces_class uni p req c"
    by (auto simp: forced_class_def forces_class_def Let_def EnabledClasses_def split: if_splits option.splits dest!: policy_lookup_SomeD)
next
  assume f: "forces_class uni p req c"
  then have c: "c \<in> set (po_Classes p)" "IsEnabled c" "cl_Name c = ForceClass uni (Some p) (DetectAgent uni req)"
    by (auto simp: forces_class_def EnabledClasses_def)
  have "policy_lookup p (cl_Name c) = Some c" by (rule policy_lookup_name [OF Policy_Validate_facts(2) [OF assms] c(1)])
  then show "forced_class uni p req = Some c"
    using c Policy_Validate_facts(1) [OF assms c(1)] by (simp add: forced_class_def Let_def)
qed

lemma forced_class_None: "Policy_Validate p = None \<Longrightarrow> \<nexists>c. forces_class uni p req c \<Longrightarrow> forced_class uni p req = None"
  by (cases "forced_class uni p req") (auto simp: forced_class_iff)

lemma header_names_classifies:
  assumes "Policy_Validate p = None" "header_names p req c"
  shows "header_Classify req body p = Some (cl_Name c)"
proof -
  have c: "c \<in> set (po_Classes p)" using assms(2) by (auto simp: header_names_def EnabledClasses_def)
  have "policy_lookup p (cl_Name c) = Some c" by (rule policy_lookup_name [OF Policy_Validate_facts(2) [OF assms(1)] c])
  then show ?thesis using assms(2) Policy_Validate_facts(1) [OF assms(1) c] by (auto simp: header_names_def header_Classify_def)
qed

lemma header_ignored:
  assumes "\<nexists>c. header_names p req c" "header_Classify req body p = Some name" "policy_lookup p name = Some c"
  shows "\<not> IsEnabled c"
  using assms policy_lookup_SomeD [OF assms(3)]
  by (auto simp: header_names_def header_Classify_def Let_def EnabledClasses_def split: option.splits if_splits)

lemma run_default_chain:
  "run_classifiers (ro_classifiers (NewRouter p)) req body p =
     (case Option.bind (header_Classify req body p) (policy_lookup p) of
        Some c \<Rightarrow> if IsEnabled c then Some (decisionFor c SourceHeader)
                  else run_classifiers [(SourceHeuristic, heuristic_Classify)] req body p
      | None \<Rightarrow> run_classifiers [(SourceHeuristic, heuristic_Classify)] req body p)"
  by (simp add: NewRouter_def split: option.split)

lemma run_no_header:
  "\<nexists>c. header_names p req c \<Longrightarrow> run_classifiers (ro_classifiers (NewRouter p)) req body p =
     run_classifiers [(SourceHeuristic, heuristic_Classify)] req body p"
  unfolding run_default_chain by (cases "Option.bind (header_Classify req body p) (policy_lookup p)")
    (auto simp: bind_eq_Some_conv header_ignored)

lemma smart_spec_decides:
  assumes v: "Policy_Validate p = None" "po_Enabled p" and "smart_spec uni ufold p req body d"
  shows "Decide uni ufold (NewRouter p) req body = Inr d"
proof -
  have po: "ro_policy (NewRouter p) = Some p" by (simp add: NewRouter_def)
  have look: "policy_lookup p (cl_Name c) = Some c" "cl_Name c \<noteq> []" if "c \<in> set (po_Classes p)" for c
    using policy_lookup_name [OF Policy_Validate_facts(2) [OF v(1)] that] Policy_Validate_facts(1) [OF v(1) that] by auto
  have en: "c \<in> set (po_Classes p)" "IsEnabled c" if "c \<in> set (EnabledClasses p)" for c
    using that by (auto simp: EnabledClasses_def)
  have run: "Decide uni ufold (NewRouter p) req body =
      (case run_classifiers (ro_classifiers (NewRouter p)) req body p of
         Some d \<Rightarrow> Inr d
       | None \<Rightarrow> (case policy_lookup p (po_DefaultClass p) of
                    None \<Rightarrow> Inl (DefaultClassNotFound (po_DefaultClass p)) | Some c \<Rightarrow> Inr (decisionFor c SourceDefault)))"
    if "\<nexists>c. forces_class uni p req c" "\<not> names_model ufold body"
    using that(2) v(2) forced_class_None [OF v(1) that(1)] by (auto simp: Decide_def po names_model_def Let_def)
  from assms(3) show ?thesis
  proof cases
    case (forced c)
    then have "forced_class uni p req = Some c" using forced_class_iff [OF v(1)] by blast
    then show ?thesis using forced(1) v(2) by (simp add: Decide_def po)
  next
    case named
    then show ?thesis using v(2) forced_class_None [OF v(1) named(2)] by (simp add: Decide_def po names_model_def Let_def)
  next
    case (header c)
    then have "c \<in> set (EnabledClasses p)" by (simp add: header_names_def)
    then have "run_classifiers (ro_classifiers (NewRouter p)) req body p = Some (decisionFor c SourceHeader)"
      using look en [of c] header_names_classifies [OF v(1) header(4), of body] by (simp add: run_default_chain)
    then show ?thesis using run [OF header(2,3)] header(1) by simp
  next
    case (sized c)
    then have c: "c \<in> set (EnabledClasses p)" by (auto simp: largest_fit_def)
    then have "heuristic_Classify req body p = Some (cl_Name c)" using heuristic_sized [OF sized(5)] look(2) en by blast
    then show ?thesis using run [OF sized(2,3)] sized(1) run_no_header [OF sized(4)] look en [OF c] by simp
  next
    case (marked c)
    then have c: "c \<in> set (EnabledClasses p)" by (auto simp: first_marked_def)
    then have "heuristic_Classify req body p = Some (cl_Name c)"
      using heuristic_small [OF marked(5)] find_first_marked [OF marked(6)] by simp
    then show ?thesis using run [OF marked(2,3)] marked(1) run_no_header [OF marked(4)] look en [OF c] by simp
  next
    case (fallback c)
    then have "heuristic_Classify req body p = None"
      using heuristic_small [of p body] by (auto simp: find_None_iff)
    then show ?thesis using run [OF fallback(2,3)] fallback(1) run_no_header [OF fallback(4)] look [OF fallback(6)] fallback(7) by simp
  qed
qed

lemma smart_spec_model:
  assumes "Policy_Validate p = None" "smart_spec uni ufold p req body d"
  shows "de_Model d \<noteq> []"
proof -
  have m: "de_Model (decisionFor c src) \<noteq> []" if "c \<in> set (po_Classes p)" for c src
    using Policy_Validate_facts(1) [OF assms(1) that] by (simp add: decisionFor_def)
  have e: "de_Model (decisionFor c src) \<noteq> []" if "c \<in> set (EnabledClasses p)" for c src
    using that by (intro m) (simp add: EnabledClasses_def)
  from assms(2) show ?thesis
    by cases (auto simp: plain_decision_def names_model_def forces_class_def header_names_def largest_fit_def
      first_marked_def m e)
qed

section \<open>Rewritten bodies\<close>

definition any_member :: "string \<Rightarrow> string \<Rightarrow> any option" where
  "any_member body k = (case json_parse body of
     Some (JObj ms) \<Rightarrow> map_of (rev (map (\<lambda>(l, v). (unquote l, decode_any v)) ms)) k | _ \<Rightarrow> None)"

text \<open>Parameters as a policy file supplies them: distinct UTF-8 names, values \<open>json.Marshal\<close> prints.\<close>

definition params_ok :: "(string \<times> any) list \<Rightarrow> bool" where
  "params_ok ps \<longleftrightarrow> distinct (map fst ps)
     \<and> (\<forall>(k, v) \<in> set ps. utf8_coerce k = k \<and> marshals v \<and> json_depth (encode_any v) < maxNestingDepth)"

definition payload_ok :: "(string \<times> any) list \<Rightarrow> bool" where
  "payload_ok m \<longleftrightarrow> sorted_wrt (<) (map fst m)
     \<and> (\<forall>(k, v) \<in> set m. utf8_coerce k = k \<and> marshals v \<and> json_depth (encode_any v) < maxNestingDepth)"

lemma payload_ok_put:
  "payload_ok m \<Longrightarrow> utf8_coerce k = k \<Longrightarrow> marshals v \<Longrightarrow> json_depth (encode_any v) < maxNestingDepth \<Longrightarrow>
     payload_ok (map_put k v m)"
  using set_map_put [of k v m] by (auto simp: payload_ok_def sorted_map_put)

lemma any_member_payload:
  assumes "payload_ok m"
  shows "any_member (json_text (encode_any (AMap m))) k = map_option (\<lambda>v. decode_any (encode_any v)) (map_of m k)"
proof -
  let ?us = "map (map_prod quote_string encode_any) m"
  have ok: "utf8_coerce k = k" "marshals v" "json_depth (encode_any v) < maxNestingDepth" if "(k, v) \<in> set m" for k v
    using assms that by (auto simp: payload_ok_def)
  have "marshals (AMap m)" using ok by auto
  from encode_any_ok [OF this] have j: "json_ok (JObj ?us)" by simp
  have "json_depth (JObj ?us) \<le> Suc (maxNestingDepth - 1)"
  proof (rule depth_le(2))
    fix kv assume "kv \<in> set ?us"
    then obtain l v where "(l, v) \<in> set m" "snd kv = encode_any v" by auto
    then show "json_depth (snd kv) \<le> maxNestingDepth - 1" using ok(3) [of l v] by simp
  qed
  then have "json_parse (json_text (JObj ?us)) = Some (JObj ?us)"
    using j by (intro json_parse_text) (auto simp: maxNestingDepth_def)
  moreover have "map (\<lambda>(l, v). (unquote l, decode_any v)) ?us = map (\<lambda>(l, v). (l, decode_any (encode_any v))) m"
    using ok by (auto simp: unquote_quote_string)
  ultimately have "any_member (json_text (encode_any (AMap m))) k
      = map_of (rev (map (\<lambda>(l, v). (l, decode_any (encode_any v))) m)) k"
    by (simp add: any_member_def del: map_map)
  also have "map_of (rev (map (\<lambda>(l, v). (l, decode_any (encode_any v))) m))
      = map_of (map (\<lambda>(l, v). (l, decode_any (encode_any v))) m)"
  proof -
    have "map fst (map (\<lambda>(l, v). (l, decode_any (encode_any v))) m) = map fst m" by auto
    moreover have "distinct (map fst m)"
      using assms by (simp add: payload_ok_def strict_sorted_iff)
    ultimately have "distinct (map fst (map (\<lambda>(l, v). (l, decode_any (encode_any v))) m))" by (simp only:)
    then show ?thesis by (intro map_of_permuted) (simp_all only: rev_map [symmetric] distinct_rev set_rev)
  qed
  finally show ?thesis by (simp add: map_of_map)
qed

lemma fill_params_facts:
  assumes "params_ok ps" "payload_ok m"
  shows "payload_ok (fill_params ps m)"
    "map_of (fill_params ps m) k = (case map_of m k of Some v \<Rightarrow> Some v | None \<Rightarrow> map_of ps k)"
proof -
  have "payload_ok (fill_params ps m) \<and>
      map_of (fill_params ps m) k = (case map_of m k of Some v \<Rightarrow> Some v | None \<Rightarrow> map_of ps k)"
    using assms
  proof (induction ps arbitrary: m)
    case (Cons kv ps)
    obtain l v where kv: "kv = (l, v)" by (cases kv)
    have ps: "params_ok ps" "l \<notin> fst ` set ps" "utf8_coerce l = l" "marshals v" "json_depth (encode_any v) < maxNestingDepth"
      using Cons.prems(1) by (auto simp: params_ok_def kv)
    show ?case
    proof (cases "l \<in> fst ` set m")
      case True
      then have "map_of m l \<noteq> None" by (auto simp: map_of_eq_None_iff)
      then show ?thesis using Cons.IH [OF ps(1) Cons.prems(2)] True by (auto simp: kv split: option.splits)
    next
      case False
      then have n: "map_of m l = None" by (simp add: map_of_eq_None_iff)
      have s: "sorted_wrt (<) (map fst m)" using Cons.prems(2) by (simp add: payload_ok_def)
      note IH = Cons.IH [OF ps(1) payload_ok_put [OF Cons.prems(2) ps(3-5)]]
      show ?thesis using IH False n by (auto simp: kv map_of_map_put [OF s] split: option.splits)
    qed
  qed (simp split: option.splits)
  then show "payload_ok (fill_params ps m)"
    "map_of (fill_params ps m) k = (case map_of m k of Some v \<Rightarrow> Some v | None \<Rightarrow> map_of ps k)" by simp_all
qed

lemma decoded_payload:
  assumes "json_parse body = Some (JObj ms)" "floats_ok (JObj ms)" "decode_any (JObj ms) = AMap m"
  shows "payload_ok m" "map_of m k = any_member body k" "\<And>v. (k, v) \<in> set m \<Longrightarrow> decode_any (encode_any v) = v"
proof -
  let ?us = "map (map_prod unquote decode_any) ms"
  have m: "m = map_from ?us" using assms(3) by simp
  have ok: "any_ok (AMap m)" using decode_any_ok [OF json_parse_ok [OF assms(1)] assms(2)] assms(3) by simp
  have "json_depth (encode_any v) < maxNestingDepth" if kvm: "(k, v) \<in> set m" for k v
  proof -
    obtain kv where kv: "kv \<in> set ms" "v = decode_any (snd kv)"
      using kvm map_from_facts(2) [of ?us] unfolding m by force
    show ?thesis
      using reencode_depth [of "snd kv"] depth_member(2) [OF kv(1)] json_parse_depth [OF assms(1)] unfolding kv(2) by linarith
  qed
  then show "payload_ok m" using ok any_ok_marshals by (auto simp: payload_ok_def)
  show "map_of m k = any_member body k"
    using map_from_facts(3) [of ?us] by (simp add: m any_member_def assms(1) map_prod_def)
  show "\<And>v. (k, v) \<in> set m \<Longrightarrow> decode_any (encode_any v) = v"
    using ok decode_encode_any by auto
qed

section \<open>Properties\<close>

text \<open>C8: A policy that passed validation decides every request, whatever its body, and exactly as
  specified: an agent with a forced class that is enabled gets that class; otherwise a request that
  names a concrete model keeps it and its body is not touched; otherwise the enabled class the task
  header names; otherwise the enabled class with the largest size threshold the prompt reaches, the
  earliest of several; otherwise the earliest enabled class whose marker occurs in the prompt; and
  only when there is none of these the default class.  The specification allows one decision only.\<close>

theorem smart_decision_sound:
  assumes "Policy_Validate p = None" "po_Enabled p"
  shows "\<exists>d. (\<forall>d'. smart_spec uni ufold p req body d' \<longleftrightarrow> d' = d) \<and> Decide uni ufold (NewRouter p) req body = Inr d
    \<and> de_Model d \<noteq> [] \<and> (names_model ufold body \<and> (\<nexists>c. forces_class uni p req c) \<longrightarrow>
         de_Model d = extractModel body \<and> Rewrite body d = Body body)"
proof -
  obtain d where d: "smart_spec uni ufold p req body d" using smart_spec_exists [OF assms(1)] by blast
  note D = smart_spec_decides [OF assms]
  have iff: "\<forall>d'. smart_spec uni ufold p req body d' \<longleftrightarrow> d' = d"
  proof (intro allI iffI)
    fix d' assume "smart_spec uni ufold p req body d'"
    then show "d' = d" using D [OF d] D [of uni ufold req body d'] by simp
  qed (use d in simp)
  have "de_Model d = extractModel body \<and> Rewrite body d = Body body"
    if "names_model ufold body" "\<nexists>c. forces_class uni p req c"
    using d that by cases (auto simp: plain_decision_def Rewrite_def)
  then show ?thesis using iff D [OF d] smart_spec_model [OF assms(1) d] by (intro exI [of _ d] conjI) simp_all
qed

definition example_policy :: Policy where
  "example_policy =
     \<lparr>po_Enabled = True, po_Agents = [(''cursor'', \<lparr>ap_Enabled = None, ap_ForceClass = ''code''\<rparr>)],
      po_DefaultClass = ''chat'',
      po_Classes =
        [\<lparr>cl_Name = ''code'', cl_Description = [], cl_Enabled = None,
           cl_Match = \<lparr>mt_AnyOfMarkers = [''func ''], mt_MinPromptChars = 0\<rparr>,
           cl_Route = \<lparr>sr_Model = ''qwen'', sr_Tier = ''large'', sr_Params = [(''stream'', ABool True)]\<rparr>\<rparr>,
         \<lparr>cl_Name = ''chat'', cl_Description = [], cl_Enabled = Some True,
           cl_Match = \<lparr>mt_AnyOfMarkers = [], mt_MinPromptChars = 0\<rparr>,
           cl_Route = \<lparr>sr_Model = ''mini'', sr_Tier = ''small'', sr_Params = []\<rparr>\<rparr>]\<rparr>"

definition example_prompt :: string where
  "example_prompt = ''{'' @ CHR 0x22 # ''prompt'' @ CHR 0x22 # '': '' @ CHR 0x22 # ''func main'' @ CHR 0x22 # ''}''"

theorem smart_decision_sound_witness:
  "Policy_Validate example_policy = None \<and> po_Enabled example_policy \<and>
   (\<exists>d. smart_spec id (=) example_policy (Some []) example_prompt d
      \<and> Decide id (=) (NewRouter example_policy) (Some []) example_prompt = Inr d
      \<and> de_Source d = SourceHeuristic \<and> de_Class d = ''code'' \<and> de_Model d \<noteq> [])"
proof -
  have v: "Policy_Validate example_policy = None" "po_Enabled example_policy" by code_simp+
  have r: "case Decide id (=) (NewRouter example_policy) (Some []) example_prompt of
      Inr d \<Rightarrow> de_Source d = SourceHeuristic \<and> de_Class d = ''code'' | _ \<Rightarrow> False" by code_simp
  obtain d where d: "\<forall>d'. smart_spec id (=) example_policy (Some []) example_prompt d' \<longleftrightarrow> d' = d"
      "Decide id (=) (NewRouter example_policy) (Some []) example_prompt = Inr d" "de_Model d \<noteq> []"
    using smart_decision_sound [OF v, of id "(=)" "Some []" example_prompt] by blast
  then show ?thesis using v r by (intro conjI exI [of _ d]) simp_all
qed



text \<open>The body \<open>null\<close> decodes into the nil map, and storing the model into it panics.\<close>

lemma null_prompt_panics:
  assumes "de_Model d \<noteq> []" "de_Source d \<noteq> SourceDisabled" "de_Source d \<noteq> SourceExplicitModel"
  shows "Rewrite ''null'' d = RewritePanics"
proof -
  have "json_parse ''null'' = Some JNull" by code_simp
  then show ?thesis using assms by (simp add: Rewrite_def)
qed

text \<open>An integer a float64 cannot hold is altered on the way.\<close>

lemma large_integer_altered: "decode_any (JNum ''9007199254740993'') = AFloat False 9007199254740992"
proof -
  have l: "floor_log2 (9007199254740993 :: rat) = 53" by (rule floor_log2_unique) simp_all
  have "\<lfloor>(9007199254740993 :: rat) / 2\<rfloor> = 4503599627370496" by (simp add: floor_eq_iff)
  then have "rne (9007199254740993 / 2) = 4503599627370496" by (simp add: rne_def Let_def)
  then have r: "f64_round 9007199254740993 = 9007199254740992" by (simp add: f64_round_def f64_scale_def l)
  have p: "num_parts ''9007199254740993'' = (False, ''9007199254740993'', [], [])" by code_simp
  have "digits_val ''9007199254740993'' = 9007199254740993" by (simp add: digits_val_def dig_val_def)
  then have "lit_value ''9007199254740993'' = (False, 9007199254740993)" 
    by (simp add: lit_value_def p exp_of_def)
  then show ?thesis by (simp add: ParseFloat_def r)
qed

end
