(* ===== verification/Router_State.thy ===== *)
theory Router_State
  imports Router_Config Token_Bucket Smart_Route
begin

text \<open>
  The reloadable state of the router (\<open>router\<close>, \<open>buildReloadable\<close>, \<open>newRouter\<close>,
  \<open>Reload\<close>, \<open>snap\<close> and the accessors of \<open>main.go\<close>) and the loading of the routing policy.
  A node of the router is the \<open>upstreamNode\<close> selection works on together with the settings
  and clients only dispatch uses.
\<close>

section \<open>State\<close>

record routedNode =
  rn_node :: upstreamNode
  rn_cfg :: NodeConfig
  rn_detector :: "Detector option"
  rn_tunnelClient :: "SSHTunnelRuntime option"

record router =
  rt_cfg :: RouterConfig
  rt_clientTimeout :: duration
  rt_semaphore :: int
  rt_nodes :: "routedNode list"
  rt_fairScheduler :: "Scheduler option"
  rt_smart :: "Router option"
  rt_piiRuleArmed :: bool
  rt_liveGate :: "ProbeLimiter option"
  rt_attribution :: "Attribution option"

record routerSnap =
  sn_cfg :: RouterConfig
  sn_nodes :: "routedNode list"
  sn_clientTimeout :: duration
  sn_semaphore :: int
  sn_smart :: "Router option"

definition snap :: "router \<Rightarrow> routerSnap" where
  "snap r = \<lparr>sn_cfg = rt_cfg r, sn_nodes = rt_nodes r, sn_clientTimeout = rt_clientTimeout r,
     sn_semaphore = rt_semaphore r, sn_smart = rt_smart r\<rparr>"

definition AuthToken :: "router \<Rightarrow> string" where "AuthToken r = rc_AuthToken (rt_cfg r)"

definition CustomerTokens :: "router \<Rightarrow> string list" where "CustomerTokens r = rc_CustomerTokens (rt_cfg r)"

definition nextAPIKey :: "time \<Rightarrow> upstreamNode \<Rightarrow> string \<times> upstreamNode" where
  "nextAPIKey now n = (case nextAPIKeyIdx now n of ((k, _), n') \<Rightarrow> (k, n'))"

section \<open>Building\<close>

text \<open>What a build reads of the outside: the files, the two YAML decoders, the regular
  expressions, and the Slack address of the environment.\<close>

record 'e boot_env =
  be_load :: load_env
  be_ReadFile :: "string \<Rightarrow> 'e + string"
  be_config :: "string \<Rightarrow> 'e + RouterConfig"
  be_policy :: "string \<Rightarrow> 'e + Policy"
  be_compile :: "string \<Rightarrow> (string \<Rightarrow> bool) option"
  be_slack :: string

datatype 'e policy_load_error = PolicyRead 'e | PolicyParse 'e | PolicyInvalid smart_error

definition LoadPolicy :: "'e boot_env \<Rightarrow> string \<Rightarrow> 'e policy_load_error + Policy" where
  "LoadPolicy be path =
     (case be_ReadFile be path of
        Inl e \<Rightarrow> Inl (PolicyRead e)
      | Inr raw \<Rightarrow> (case be_policy be raw of
          Inl e \<Rightarrow> Inl (PolicyParse e)
        | Inr p \<Rightarrow> (case Policy_Validate p of Some e \<Rightarrow> Inl (PolicyInvalid e) | None \<Rightarrow> Inr p)))"

definition loadSmartRoute :: "'e boot_env \<Rightarrow> RouterConfig \<Rightarrow> 'e policy_load_error + Router option" where
  "loadSmartRoute be c =
     (if \<not> src_Enabled (rc_SmartRoute c) \<or> src_PolicyFile (rc_SmartRoute c) = [] then Inr None
      else case LoadPolicy be (src_PolicyFile (rc_SmartRoute c)) of
        Inl e \<Rightarrow> Inl e
      | Inr p \<Rightarrow> Inr (Some (NewRouter p)))"

datatype 'e build_error =
    LoadFailed "'e load_error" | NameAndURL | NodeURL string | NodeTunnel string tunnel_error | SmartFailed "'e policy_load_error"

definition default_weight :: "NodeConfig \<Rightarrow> NodeConfig" where
  "default_weight nc = (if nc_Weight nc \<le> 0 then nc\<lparr>nc_Weight := 1\<rparr> else nc)"

text \<open>One round of the loop of \<open>buildReloadable\<close> for an enabled node.  The breaker registers
  itself in the state gauge before the tunnel settings are checked.\<close>

definition build_node ::
  "'e boot_env \<Rightarrow> RouterConfig \<Rightarrow> NodeConfig \<Rightarrow> StateGauge \<Rightarrow> ('e build_error + routedNode) \<times> StateGauge" where
  "build_node be c nc0 g =
     (if nc_Name nc0 = [] \<or> nc_URL nc0 = [] then (Inl NameAndURL, g)
      else let nc = default_weight nc0
           in case le_Hostname (be_load be) (nc_URL nc) of
                None \<Rightarrow> (Inl (NodeURL (nc_Name nc)), g)
              | Some _ \<Rightarrow>
                  (let det = quota_New (be_compile be) (nc_QuotaDetectRegex nc) (be_slack be) (rc_SlackChannel c);
                       (threshold, cooldown) = ResolvedCircuit nc (rc_Defaults c);
                       (cb, g') = WithName (nc_Name nc) (NewBreaker threshold cooldown, g);
                       node = \<lparr>un_cfg = nodeConfig.truncate nc, un_healthy = True, un_consecutivePass = 0,
                               un_consecutiveFail = 0, un_keyIdx = 0,
                               un_keys = Some (NewPool (nc_APIKeys nc) (df_KeyCooldown (rc_Defaults c))),
                               un_quotaDet = map_option qd_pattern det, un_breaker = Some cb\<rparr>;
                       rn = \<lparr>rn_node = node, rn_cfg = nc, rn_detector = det, rn_tunnelClient = None\<rparr>
                   in if tc_Enabled (nc_Tunnel nc)
                      then (case ToRuntime (nc_Tunnel nc) of
                              Inl e \<Rightarrow> (Inl (NodeTunnel (nc_Name nc) e), g')
                            | Inr rt \<Rightarrow> (Inr (rn\<lparr>rn_tunnelClient := Some rt\<rparr>), g'))
                      else (Inr rn, g')))"

fun build_nodes ::
  "'e boot_env \<Rightarrow> RouterConfig \<Rightarrow> NodeConfig list \<Rightarrow> StateGauge \<Rightarrow> ('e build_error + routedNode list) \<times> StateGauge" where
  "build_nodes be c [] g = (Inr [], g)"
| "build_nodes be c (nc # ncs) g =
     (if \<not> NodeEnabled (le_uni (be_load be)) (nc_Enabled nc) then build_nodes be c ncs g
      else case build_node be c nc g of
        (Inl e, g') \<Rightarrow> (Inl e, g')
      | (Inr n, g') \<Rightarrow> (case build_nodes be c ncs g' of
          (Inl e, g'') \<Rightarrow> (Inl e, g'')
        | (Inr ns, g'') \<Rightarrow> (Inr (n # ns), g'')))"

definition buildReloadable ::
  "'e boot_env \<Rightarrow> RouterConfig \<Rightarrow> StateGauge \<Rightarrow> ('e build_error + routedNode list \<times> duration \<times> int) \<times> StateGauge" where
  "buildReloadable be c g =
     (case build_nodes be c (rc_Nodes c) g of
        (Inl e, g') \<Rightarrow> (Inl e, g')
      | (Inr ns, g') \<Rightarrow> (Inr (ns, df_RequestTimeout (rc_Defaults c), df_MaxConcurrency (rc_Defaults c)), g'))"

definition newRouter :: "'e boot_env \<Rightarrow> RouterConfig \<Rightarrow> StateGauge \<Rightarrow> ('e build_error + router) \<times> StateGauge" where
  "newRouter be c g =
     (case buildReloadable be c g of
        (Inl e, g') \<Rightarrow> (Inl e, g')
      | (Inr (ns, timeout, sem), g') \<Rightarrow>
          (case loadSmartRoute be c of
             Inl e \<Rightarrow> (Inl (SmartFailed e), g')
           | Inr smart \<Rightarrow>
               (Inr \<lparr>rt_cfg = c, rt_clientTimeout = timeout, rt_semaphore = sem, rt_nodes = ns,
                     rt_fairScheduler =
                       (if fs_Enabled (rc_FairShare c)
                        then Some (NewScheduler \<lparr>fc_MaxRequestsPerUser = fs_MaxRequestsPerUser (rc_FairShare c),
                               fc_Window = fs_Window (rc_FairShare c), fc_Burst = fs_Burst (rc_FairShare c), fc_CleanupInterval = 0\<rparr>)
                        else None),
                     rt_smart = smart,
                     rt_piiRuleArmed = RuleArmed (rc_PIILocalRule c) (anyNodePIILocal (map rn_node ns)),
                     rt_liveGate = None, rt_attribution = Some (NewAttribution 1024)\<rparr>, g')))"

definition Reload :: "'e boot_env \<Rightarrow> string \<Rightarrow> router \<times> StateGauge \<Rightarrow> 'e build_error option \<times> router \<times> StateGauge" where
  "Reload be path = (\<lambda>(r, g).
     case LoadConfig (be_load be) (be_ReadFile be) (be_config be) path of
       Inl e \<Rightarrow> (Some (LoadFailed e), r, g)
     | Inr c \<Rightarrow>
         (case buildReloadable be c g of
            (Inl e, g') \<Rightarrow> (Some e, r, g')
          | (Inr (ns, timeout, sem), g') \<Rightarrow>
              (case loadSmartRoute be c of
                 Inl e \<Rightarrow> (Some (SmartFailed e), r, g')
               | Inr smart \<Rightarrow>
                   (None, r\<lparr>rt_cfg := c, rt_nodes := ns,
                            rt_piiRuleArmed := RuleArmed (rc_PIILocalRule c) (anyNodePIILocal (map rn_node ns)),
                            rt_clientTimeout := timeout, rt_semaphore := sem, rt_smart := smart\<rparr>, g'))))"

datatype os_signal = SIGHUP | OtherSignal

text \<open>The signals that arrive until the channel is closed, each with the outside as it is then.\<close>

fun watchReloadSignal ::
  "string \<Rightarrow> (os_signal \<times> 'e boot_env) list \<Rightarrow> router \<times> StateGauge \<Rightarrow> router \<times> StateGauge" where
  "watchReloadSignal path [] rg = rg"
| "watchReloadSignal path ((sig, be) # sigs) rg =
     (if sig \<noteq> SIGHUP then watchReloadSignal path sigs rg
      else watchReloadSignal path sigs (snd (Reload be path rg)))"

definition bodyReadTimeout :: "RouterConfig \<Rightarrow> duration" where
  "bodyReadTimeout c =
     (let d = df_BodyReadTimeout (rc_Defaults c) in if 0 < d then d else DefaultBodyReadTimeout)"

text \<open>The limiter of forced probes is built by the first caller, from the configuration of that
  moment.\<close>

definition forcedProbeAllowed :: "time \<Rightarrow> time \<Rightarrow> router \<Rightarrow> bool \<times> router" where
  "forcedProbeAllowed created now r =
     (let gate = (case rt_liveGate r of
            Some l \<Rightarrow> l
          | None \<Rightarrow> (let lp = hc_LiveProbe (rc_HealthCheck (sn_cfg (snap r))) in NewProbeLimiter created (lp_Interval lp) (lp_Burst lp)))
      in case ProbeLimiter_Allow now (Some gate) of (ok, gate') \<Rightarrow> (ok, r\<lparr>rt_liveGate := gate'\<rparr>))"

section \<open>The state between reloads\<close>

definition routed_ok :: "load_env \<Rightarrow> routedNode \<Rightarrow> bool" where
  "routed_ok env n \<longleftrightarrow>
     un_cfg (rn_node n) = nodeConfig.truncate (rn_cfg n) \<and> nc_Name (rn_cfg n) \<noteq> [] \<and> nc_URL (rn_cfg n) \<noteq> []
   \<and> le_Hostname env (nc_URL (rn_cfg n)) \<noteq> None \<and> 0 < nc_Weight (rn_cfg n) \<and> node_config_ok env (rn_cfg n)
   \<and> (tc_Enabled (nc_Tunnel (rn_cfg n)) \<longleftrightarrow> rn_tunnelClient n \<noteq> None)
   \<and> (\<forall>t. rn_tunnelClient n = Some t \<longrightarrow> SSHTunnelConfig_Validate t = None)"

definition enabled_nodes :: "load_env \<Rightarrow> RouterConfig \<Rightarrow> NodeConfig list" where
  "enabled_nodes env c = map default_weight (filter (\<lambda>nc. NodeEnabled (le_uni env) (nc_Enabled nc)) (rc_Nodes c))"

definition router_ok :: "load_env \<Rightarrow> router \<Rightarrow> bool" where
  "router_ok env r \<longleftrightarrow> config_ok env (rt_cfg r) \<and> map rn_cfg (rt_nodes r) = enabled_nodes env (rt_cfg r)
     \<and> (\<forall>n \<in> set (rt_nodes r). routed_ok env n)
     \<and> rt_piiRuleArmed r = RuleArmed (rc_PIILocalRule (rt_cfg r)) (\<exists>n \<in> set (rt_nodes r). nc_PIILocal (rn_cfg n))
     \<and> rt_semaphore r = df_MaxConcurrency (rc_Defaults (rt_cfg r))
     \<and> rt_clientTimeout r = df_RequestTimeout (rc_Defaults (rt_cfg r))"

lemma default_weight_facts:
  "nc_Name (default_weight nc) = nc_Name nc" "nc_URL (default_weight nc) = nc_URL nc" "0 < nc_Weight (default_weight nc)"
  "node_config_ok env (default_weight nc) = node_config_ok env nc" "nc_Tunnel (default_weight nc) = nc_Tunnel nc"
  by (auto simp: default_weight_def node_config_ok_def)

lemma ToRuntime_valid: "ToRuntime t = Inr rt \<Longrightarrow> SSHTunnelConfig_Validate rt = None"
  by (auto simp: ToRuntime_def SSHTunnelConfig_Validate_def split: if_splits)

lemma build_node_ok:
  assumes "build_node be c nc g = (Inr n, g')" "node_config_ok env nc" "le_Hostname (be_load be) = le_Hostname env"
  shows "routed_ok env n \<and> rn_cfg n = default_weight nc"
proof -
  have ne: "nc_Name nc \<noteq> []" "nc_URL nc \<noteq> []" using assms(1) by (auto simp: build_node_def split: if_splits)
  obtain h where h: "le_Hostname (be_load be) (nc_URL (default_weight nc)) = Some h"
    using assms(1) ne by (auto simp: build_node_def Let_def split: option.splits)
  obtain threshold cooldown where rc: "ResolvedCircuit (default_weight nc) (rc_Defaults c) = (threshold, cooldown)" by fastforce
  obtain cb g1 where wn: "WithName (nc_Name (default_weight nc)) (NewBreaker threshold cooldown, g) = (cb, g1)" by fastforce
  have eq: "rn_cfg n = default_weight nc" "un_cfg (rn_node n) = nodeConfig.truncate (default_weight nc)"
    "tc_Enabled (nc_Tunnel nc) \<longleftrightarrow> rn_tunnelClient n \<noteq> None"
    "\<forall>t. rn_tunnelClient n = Some t \<longrightarrow> ToRuntime (nc_Tunnel nc) = Inr t"
    using assms(1) ne unfolding build_node_def Let_def h option.case rc prod.case wn
    by (auto simp: default_weight_facts split: if_splits sum.splits)
  then show ?thesis using ne assms(2,3) h ToRuntime_valid
    by (auto simp: routed_ok_def default_weight_facts)
qed

lemma build_nodes_ok:
  assumes "build_nodes be c ncs g = (Inr ns, g')" "\<forall>nc \<in> set ncs. node_config_ok env nc"
    "le_Hostname (be_load be) = le_Hostname env" "le_uni (be_load be) = le_uni env"
  shows "(\<forall>n \<in> set ns. routed_ok env n)
    \<and> map rn_cfg ns = map default_weight (filter (\<lambda>nc. NodeEnabled (le_uni env) (nc_Enabled nc)) ncs)"
  using assms(1,2)
proof (induction ncs arbitrary: g ns)
  case (Cons nc ncs)
  show ?case
  proof (cases "NodeEnabled (le_uni env) (nc_Enabled nc)")
    case False
    then show ?thesis using Cons assms(4) by simp
  next
    case True
    obtain n g1 ns1 where b: "build_node be c nc g = (Inr n, g1)" "build_nodes be c ncs g1 = (Inr ns1, g')" "ns = n # ns1"
      using Cons.prems(1) True assms(4) by (auto split: prod.splits sum.splits)
    then show ?thesis using Cons.IH [of g1 ns1] Cons.prems(2) True build_node_ok [OF b(1) _ assms(3)] by simp
  qed
qed simp

lemma any_pii: "\<forall>n \<in> set ns. routed_ok env n \<Longrightarrow>
  anyNodePIILocal (map rn_node ns) = (\<exists>n \<in> set ns. nc_PIILocal (rn_cfg n))"
  by (auto simp: anyNodePIILocal_def routed_ok_def nodeConfig.defs)

lemma buildReloadable_ok:
  assumes "buildReloadable be c g = (Inr (ns, timeout, sem), g')" "config_ok env c"
    "le_Hostname (be_load be) = le_Hostname env" "le_uni (be_load be) = le_uni env"
  shows "(\<forall>n \<in> set ns. routed_ok env n) \<and> map rn_cfg ns = enabled_nodes env c
    \<and> timeout = df_RequestTimeout (rc_Defaults c) \<and> sem = df_MaxConcurrency (rc_Defaults c)"
proof -
  have b: "build_nodes be c (rc_Nodes c) g = (Inr ns, g')" "timeout = df_RequestTimeout (rc_Defaults c)"
    "sem = df_MaxConcurrency (rc_Defaults c)"
    using assms(1) by (auto simp: buildReloadable_def split: prod.splits sum.splits)
  then show ?thesis using build_nodes_ok [OF b(1) _ assms(3,4)] assms(2) by (auto simp: enabled_nodes_def config_ok_def)
qed

lemma node_config_ok_cong:
  "le_Hostname e = le_Hostname env \<Longrightarrow> le_uni e = le_uni env \<Longrightarrow> config_ok e c = config_ok env c"
  by (simp add: config_ok_def node_config_ok_def)

lemma LoadConfig_ok:
  "LoadConfig env rf um path = (Inr c :: 'e load_error + _) \<Longrightarrow> config_ok env c"
  by (auto simp: LoadConfig_def intro: apply_config_ok split: sum.splits)

lemma newRouter_ok:
  assumes "newRouter be c g = (Inr r, g')" "config_ok env c"
    "le_Hostname (be_load be) = le_Hostname env" "le_uni (be_load be) = le_uni env"
  shows "router_ok env r"
proof -
  obtain ns timeout sem where b: "buildReloadable be c g = (Inr (ns, timeout, sem), g')"
    using assms(1) by (auto simp: newRouter_def split: prod.splits sum.splits)
  note ok = buildReloadable_ok [OF b assms(2-4)]
  then have pii: "anyNodePIILocal (map rn_node ns) = (\<exists>n \<in> set ns. nc_PIILocal (rn_cfg n))" by (intro any_pii) blast
  have f: "rt_cfg r = c" "rt_nodes r = ns" "rt_clientTimeout r = timeout" "rt_semaphore r = sem"
    "rt_piiRuleArmed r = RuleArmed (rc_PIILocalRule c) (\<exists>n \<in> set ns. nc_PIILocal (rn_cfg n))"
    using assms(1) unfolding newRouter_def b by (auto simp: pii split: sum.splits)
  show ?thesis unfolding router_ok_def f using ok assms(2) by blast
qed

text \<open>Everything that happens to a router after boot: reloads of whatever the files then hold, and
  traffic, probes and accounting, none of which touches a node's settings.\<close>

inductive rt_step :: "load_env \<Rightarrow> router \<times> StateGauge \<Rightarrow> router \<times> StateGauge \<Rightarrow> bool" for env where
  reload: "le_Hostname (be_load be) = le_Hostname env \<Longrightarrow> le_uni (be_load be) = le_uni env \<Longrightarrow>
     Reload (be :: string boot_env) path rg = (res, rg') \<Longrightarrow> rt_step env rg rg'"
| traffic: "list_all2 (\<lambda>n n'. rn_cfg n' = rn_cfg n \<and> un_cfg (rn_node n') = un_cfg (rn_node n)
       \<and> rn_tunnelClient n' = rn_tunnelClient n) (rt_nodes r) ns \<Longrightarrow>
     rt_step env (r, g) (r\<lparr>rt_nodes := ns, rt_liveGate := gate, rt_fairScheduler := fair, rt_attribution := attr\<rparr>, g')"

lemma Reload_cases:
  assumes "Reload be path (r, g) = (res, r', g')"
  obtains (failed) e where "res = Some e" "r' = r"
  | (swapped) c ns timeout sem smart where "res = None"
      "LoadConfig (be_load be) (be_ReadFile be) (be_config be) path = Inr c"
      "buildReloadable be c g = (Inr (ns, timeout, sem), g')" "loadSmartRoute be c = Inr smart"
      "r' = r\<lparr>rt_cfg := c, rt_nodes := ns,
         rt_piiRuleArmed := RuleArmed (rc_PIILocalRule c) (anyNodePIILocal (map rn_node ns)),
         rt_clientTimeout := timeout, rt_semaphore := sem, rt_smart := smart\<rparr>"
  using assms by (auto simp: Reload_def split: sum.splits prod.splits)

lemma rt_step_ok:
  assumes "rt_step env (r, g) (r', g')" "router_ok env r" shows "router_ok env r'"
  using assms(1)
proof cases
  case (reload be path res)
  from reload(3) show ?thesis
  proof (cases rule: Reload_cases)
    case (swapped c ns timeout sem smart)
    have c: "config_ok env c" using LoadConfig_ok [OF swapped(2)] node_config_ok_cong [OF reload(1,2)] by simp
    note ok = buildReloadable_ok [OF swapped(3) c reload(1,2)]
    then have pii: "anyNodePIILocal (map rn_node ns) = (\<exists>n \<in> set ns. nc_PIILocal (rn_cfg n))" by (intro any_pii) blast
    have f: "rt_cfg r' = c" "rt_nodes r' = ns" "rt_clientTimeout r' = timeout" "rt_semaphore r' = sem"
      "rt_piiRuleArmed r' = RuleArmed (rc_PIILocalRule c) (\<exists>n \<in> set ns. nc_PIILocal (rn_cfg n))"
      unfolding swapped(5) pii by simp_all
    show ?thesis unfolding router_ok_def f using ok c by blast
  qed (use assms(2) in simp)
next
  case (traffic ns gate fair attr)
  have cfgs: "map rn_cfg ns = map rn_cfg (rt_nodes r)"
    using traffic(2) by (induction rule: list_all2_induct) auto
  have pii: "(\<exists>n \<in> set ns. nc_PIILocal (rn_cfg n)) = (\<exists>n \<in> set (rt_nodes r). nc_PIILocal (rn_cfg n))"
    using arg_cong [OF cfgs, of "\<lambda>xs. \<exists>x \<in> set xs. nc_PIILocal x"] by simp
  have "\<forall>n \<in> set ns. routed_ok env n"
  proof
    fix n' assume "n' \<in> set ns"
    then obtain i where i: "i < length ns" "n' = ns ! i" by (auto simp: in_set_conv_nth)
    let ?n = "rt_nodes r ! i"
    have e: "rn_cfg n' = rn_cfg ?n" "un_cfg (rn_node n') = un_cfg (rn_node ?n)" "rn_tunnelClient n' = rn_tunnelClient ?n"
      "?n \<in> set (rt_nodes r)"
      using traffic(2) i by (auto simp: list_all2_conv_all_nth)
    then have "routed_ok env ?n" using assms(2) by (simp add: router_ok_def)
    then show "routed_ok env n'" unfolding routed_ok_def e .
  qed
  then show ?thesis using assms(2) cfgs pii traffic(1) by (simp add: router_ok_def)
qed

lemma rt_reach_ok: "(rt_step env)\<^sup>*\<^sup>* rg rg' \<Longrightarrow> router_ok env (fst rg) \<Longrightarrow> router_ok env (fst rg')"
  by (induction rule: rtranclp_induct) (auto intro: rt_step_ok)

section \<open>Properties\<close>

text \<open>C12: Every configuration that loads is well-formed.  Listening addresses are set and the
  diagnostic ones name their interface; limits, timeouts, breaker and health settings are
  positive and probe bounds not negative; fair sharing, when enabled, has a positive allowance,
  window and burst; there is a node, and each node's workloads are known classes, its host is
  not a forbidden one, and a node with its own auth header has a usable key and a name that is a
  header token other than Authorization.\<close>

theorem loaded_config_wellformed:
  assumes "LoadConfig env ReadFile Unmarshal path = (Inr c :: 'e load_error + RouterConfig)"
  shows "rc_Listen c \<noteq> [] \<and> explicit_host (rc_MetricsAddr c) \<and> explicit_host (rc_DebugAddr c)
    \<and> defaults_ok (rc_Defaults c) \<and> health_config_ok (rc_HealthCheck c) \<and> fair_ok (rc_FairShare c)
    \<and> rc_Nodes c \<noteq> [] \<and> (\<forall>n \<in> set (rc_Nodes c). node_config_ok env n)"
  using LoadConfig_ok [OF assms] by (simp add: config_ok_def)


text \<open>C14: A reload is a restart without the restart.  It fails exactly when booting from the same
  files would, and then leaves the router as it was; otherwise the router has the configuration,
  nodes, limits, arming and policy a fresh boot would have, and keeps its rate limiters and
  attribution.\<close>

theorem reload_refines_restart:
  assumes "Reload be path (r, g) = (res, r', g')"
  shows "case LoadConfig (be_load be) (be_ReadFile be) (be_config be) path of
      Inl e \<Rightarrow> res = Some (LoadFailed e) \<and> r' = r \<and> g' = g
    | Inr c \<Rightarrow>
        (case newRouter be c g of
           (Inl e, g2) \<Rightarrow> res = Some e \<and> r' = r \<and> g' = g2
         | (Inr fresh, g2) \<Rightarrow> res = None \<and> g' = g2 \<and> snap r' = snap fresh \<and> rt_piiRuleArmed r' = rt_piiRuleArmed fresh
             \<and> rt_fairScheduler r' = rt_fairScheduler r \<and> rt_liveGate r' = rt_liveGate r
             \<and> rt_attribution r' = rt_attribution r)"
  using assms by (auto simp: Reload_def newRouter_def snap_def split: sum.splits prod.splits)

text \<open>A configuration of two nodes, one behind a gateway with its own auth header.\<close>

definition example_node_config :: "string \<Rightarrow> string \<Rightarrow> string \<Rightarrow> bool \<Rightarrow> TunnelConfig \<Rightarrow> NodeConfig" where
  "example_node_config name header key local tun =
     nodeConfig.extend
       \<lparr>nc_Name = name, nc_Tier = [], nc_Models = [''m''], nc_Priority = 0, nc_Weight = 0,
        nc_Workloads = [''internal''], nc_PIILocal = local, nc_HealthCheckDisabled = False, nc_APIKey = key,
        nc_APIKeys = [], nc_AuthHeader = header\<rparr>
       (NodeConfig.fields (''http://'' @ name) [] [] [] [] [] [] [] \<lparr>cc_Threshold = 0, cc_Cooldown = 0\<rparr> tun)"

definition no_tunnel :: TunnelConfig where
  "no_tunnel = \<lparr>tc_Enabled = False, tc_Host = [], tc_Port = 0, tc_User = [], tc_IdentityFile = [], tc_LocalPort = 0,
     tc_ConnectTimeout = 0\<rparr>"

definition example_router_config :: "TunnelConfig \<Rightarrow> RouterConfig" where
  "example_router_config tun =
     \<lparr>rc_Listen = [], rc_PIILocalRule = [], rc_MetricsAddr = '':9091'', rc_DebugAddr = [], rc_LogLevel = [],
      rc_AuthToken = ''${TOKEN}'', rc_CustomerTokens = [], rc_SlackWebhookURL = [], rc_SlackChannel = [],
      rc_Defaults = \<lparr>df_MaxQueueDepth = 0, df_MaxConcurrency = 0, df_RequestTimeout = 0, df_KeyCooldown = 0,
        df_MaxBodySize = 0, df_BodyReadTimeout = 0, df_Circuit = \<lparr>cc_Threshold = 0, cc_Cooldown = 0\<rparr>\<rparr>,
      rc_HealthCheck = healthConfig.extend \<lparr>hc_HealthyThreshold = 0, hc_UnhealthyThreshold = 0\<rparr>
        (HealthConfig.fields 0 0 [] \<lparr>lp_Interval = 0, lp_Burst = 0\<rparr>),
      rc_FairShare = \<lparr>fs_Enabled = True, fs_MaxRequestsPerUser = 0, fs_Window = 0, fs_Burst = 0\<rparr>,
      rc_Nodes = [example_node_config ''gpu'' [] [] True no_tunnel,
                  example_node_config ''gateway'' ''X-Key'' ''${KEY}'' False tun],
      rc_SmartRoute = \<lparr>src_Enabled = False, src_PolicyFile = []\<rparr>\<rparr>"

definition example_boot :: "TunnelConfig \<Rightarrow> string boot_env" where
  "example_boot tun =
     \<lparr>be_load = \<lparr>le_LookupEnv = (\<lambda>v. if v = ''KEY'' then Some ''s3'' else None), le_Hostname = (\<lambda>u. Some (drop 7 u)),
        le_uni = id, le_fold = (=)\<rparr>,
      be_ReadFile = (\<lambda>_. Inr []), be_config = (\<lambda>_. Inr (example_router_config tun)), be_policy = (\<lambda>_. Inl []),
      be_compile = (\<lambda>_. None), be_slack = []\<rparr>"

lemmas example_config_defs = example_boot_def example_router_config_def example_node_config_def no_tunnel_def
  nodeConfig.defs NodeConfig.defs healthConfig.defs HealthConfig.defs

definition boot_config :: "string boot_env \<Rightarrow> string load_error + RouterConfig" where
  "boot_config be = LoadConfig (be_load be) (be_ReadFile be) (be_config be) ''router.yml''"

lemmas example_load_defs = boot_config_def LoadConfig_def example_config_defs apply_config_def default_listeners_def
  default_limits_def default_circuit_def default_health_def default_fair_def Let_def
  DefaultBodyReadTimeout_def expand_node_def ExpandEnvValue_def HasPrefix_def HasSuffix_def
  check_node_def ValidateUpstreamURL_def validateAuthHeader_def validateWorkloads_def ToLower_def
  is_ascii_def ascii_lower_def EqualFold_def auth_header_char_def ForbiddenUpstreamHostSuffixes_def
  DiagnosticListenAddr_def SplitHostPort_def last_index_byte_def JoinHostPort_def LoopbackHost_def

lemma example_loads:
  "\<exists>c. boot_config (example_boot no_tunnel) = Inr c
     \<and> rc_MetricsAddr c = ''127.0.0.1:9091'' \<and> map nc_Name (rc_Nodes c) = [''gpu'', ''gateway'']
     \<and> (\<exists>r g. newRouter (example_boot no_tunnel) c (\<lambda>_. None) = (Inr r, g) \<and> length (rt_nodes r) = 2)"
  by (simp add: example_load_defs newRouter_def buildReloadable_def build_node_def NodeEnabled_def TrimSpace_def
    loadSmartRoute_def quota_New_def default_weight_def ResolvedCircuit_def case_prod_beta)

theorem loaded_config_wellformed_witness:
  "\<exists>c. boot_config (example_boot no_tunnel) = Inr c \<and> explicit_host (rc_MetricsAddr c) \<and> 0 < df_MaxConcurrency (rc_Defaults c)"
proof -
  obtain c where c: "boot_config (example_boot no_tunnel) = Inr c" using example_loads by blast
  show ?thesis using c loaded_config_wellformed [OF c [unfolded boot_config_def]] by (auto simp: defaults_ok_def)
qed


theorem reload_refines_restart_witness:
  "\<exists>c r g r' g'. boot_config (example_boot no_tunnel) = Inr c \<and> newRouter (example_boot no_tunnel) c (\<lambda>_. None) = (Inr r, g)
     \<and> Reload (example_boot no_tunnel) ''router.yml'' (r, \<lambda>_. None) = (None, r', g') \<and> snap r' = snap r"
proof -
  obtain c r g where c: "boot_config (example_boot no_tunnel) = Inr c"
    "newRouter (example_boot no_tunnel) c (\<lambda>_. None) = (Inr r, g)" using example_loads by blast
  obtain res r' g' where rl: "Reload (example_boot no_tunnel) ''router.yml'' (r, \<lambda>_. None) = (res, r', g')"
    by (cases "Reload (example_boot no_tunnel) ''router.yml'' (r, \<lambda>_. None)") auto
  have "res = None \<and> snap r' = snap r"
    using reload_refines_restart [OF rl] c unfolding boot_config_def by simp
  then show ?thesis using c rl by - (rule exI [of _ c], rule exI [of _ r], rule exI [of _ g], rule exI [of _ r'], rule exI [of _ g'], simp)
qed

text \<open>A reload that fails on a tunnel leaves the nodes alone but not the state gauge: the breakers it
  built before failing have already reported themselves closed.\<close>

definition broken_tunnel :: TunnelConfig where
  "broken_tunnel = no_tunnel\<lparr>tc_Enabled := True\<rparr>"

lemma failed_reload_resets_gauge:
  "Reload (example_boot broken_tunnel) ''router.yml'' (r, (\<lambda>_. None)((''gpu'', Open) \<mapsto> 1)) = (res, r', g') \<Longrightarrow>
   r' = r \<and> res \<noteq> None \<and> g' (''gpu'', Open) = Some 0"
  by (auto simp: Reload_def broken_tunnel_def example_load_defs buildReloadable_def build_node_def NodeEnabled_def TrimSpace_def
    quota_New_def default_weight_def ResolvedCircuit_def case_prod_beta WithName_def recordState_def NewBreaker_def ToRuntime_def)

end
