(* ===== verification/Spec2Isabelle.thy ===== *)
theory Spec2Isabelle
  imports Circuit Keypool Store_Properties Node_Select Failover Admission Gateway_Properties Tunnel Wrap_Stream
    Pii_Route Router_State
begin

text \<open>
  A verification library of llm-cluster-router.

  \<^bold>\<open>The program.\<close>  The repository holds two servers.  The \<^emph>\<open>router\<close> (\<open>main.go\<close>) accepts requests for
  language models, authenticates them, classifies them, admits them within limits, selects an
  upstream node and fails over to others.  The \<^emph>\<open>channel\<close> gateway (\<open>internal/channel\<close>) forwards requests
  to vendors with keys leased from rotating pools, and opens CONNECT tunnels to allowed hosts.  An
  encrypted connection (\<open>internal/crypto\<close>) carries either.

  \<^bold>\<open>Foundations.\<close>  \<open>Router_Prelude\<close> has the vocabulary of types and the shared lemmas.  The \<open>Go_\<close>
  theories write out what the sources use of Go's standard library: \<open>Go_Net\<close> (addresses),
  \<open>Go_Float\<close> and \<open>Go_Float_Text\<close> (float64 rounding, parsing and printing), \<open>Go_Duration\<close>
  (\<open>time.ParseDuration\<close>), \<open>Go_Json\<close>, \<open>Go_Json_Strings\<close> and \<open>Go_Json_Any\<close> (\<open>encoding/json\<close>),
  \<open>Go_Regexp\<close> (\<open>regexp\<close>), \<open>Go_Aes_Gcm\<close> (\<open>crypto/aes\<close> and \<open>crypto/cipher\<close>).

  \<^bold>\<open>The router.\<close>
  \<^item> \<open>Circuit\<close> is \<open>internal/circuit/breaker.go\<close>, \<open>Keypool\<close> is \<open>internal/keypool/keypool.go\<close>: a record
    each, one definition per method, the clock as an argument.  A breaker is closed exactly when
    too few failures were reported since the last success; a pool offers a cooling key only when
    all are cooling.
  \<^item> \<open>Node_Select\<close> has the nodes and \<open>selectNodeFromSnapExcluding\<close> of \<open>main.go\<close>: a selected node is fit
    for the request and of the best priority, and an eligible one is found if there is one.
  \<^item> \<open>Failover\<close> is \<open>doUpstream\<close> and the attempt loop of \<open>handleProxy\<close>, with the upstream answers as an
    argument: at most five attempts, each on a permitted node, and an answer that says what happened.
  \<^item> \<open>Admission\<close> has the counters of \<open>handleProxy\<close> as a step relation over concurrent requests, with
    the invariant that each counter is the number of its holders.
  \<^item> \<open>Json_Body\<close> is \<open>internal/router/helpers.go\<close>, \<open>Smart_Route\<close> is \<open>internal/smartroute\<close>: a rewritten body
    differs from the caller's exactly in the members the rewriting names.
  \<^item> \<open>Pii_Route\<close> is \<open>internal/piiroute/piiroute.go\<close>: an e-mail address is found wherever it stands, and
    the checksums catch a changed digit.
  \<^item> \<open>Token_Bucket\<close> has \<open>internal/fairshare\<close> and \<open>internal/health/liveprobe.go\<close>.  Both are instances of
    one locale of buckets that refill with time, in float64 arithmetic: a rested bucket grants
    exactly its capacity.
  \<^item> \<open>Router_Auth\<close> has the middlewares and headers of \<open>internal/proxy\<close> and \<open>main.go\<close>, \<open>Router_Config\<close> is
    \<open>internal/config\<close>, and \<open>Router_State\<close> is booting and reloading: what is loaded is well-formed, the
    state is always that of one configuration, and a reload refines a restart.

  \<^bold>\<open>The channel.\<close>
  \<^item> \<open>Rotation\<close>, \<open>Rotation_Store\<close> and \<open>Store_Properties\<close> are \<open>rotation.go\<close> and \<open>rotation_store.go\<close>.  The
    store's methods are atomic steps, since each holds the mutex; over any sequence of them the
    request caps hold, retired keys rest and the reported waits are true.
  \<^item> \<open>Channel_Route\<close>, \<open>Secret\<close>, \<open>Connect_Target\<close> and \<open>Channel_Config\<close> are \<open>config.go\<close>, \<open>secret.go\<close> and
    \<open>connect_target.go\<close>: what \<open>Validate\<close> accepts is sound, key pools resolve completely, and no
    spelling of a local address passes as a tunnel target.
  \<^item> \<open>Gateway_Auth\<close>, \<open>Vendor_Usage\<close>, \<open>Gateway\<close>, \<open>Gateway_Leases\<close> and \<open>Gateway_Properties\<close> are
    \<open>proxy_auth.go\<close>, \<open>auth.go\<close>, \<open>forward.go\<close>, \<open>usage.go\<close>, \<open>vendor_error.go\<close> and the proxy leg of \<open>server.go\<close>:
    admission by authority, exact forwarding, and every lease settled once under any interleaving
    of handlers.
  \<^item> \<open>Tunnel\<close> is the CONNECT leg of \<open>server.go\<close>: authority, bounded slots, deadlines that only tighten.

  \<^bold>\<open>The encrypted connection.\<close>  \<open>Crypto_Wrap\<close> is \<open>wrap.go\<close>, and \<open>Wrap_Stream\<close> its streams: what is written
  is read back whatever the cutting of the stream, and what is delivered was sealed under the key.

  \<^bold>\<open>Interfaces.\<close>  Each locale is a contract and is interpreted on the model's own definitions:
  \<open>cooldown_pool\<close> on the key pool, \<open>key_selector\<close> on the three rotation policies, \<open>secret_seam\<close> on the
  resolver, \<open>aead\<close> on AES-GCM, \<open>refilling\<close> on both token buckets.

  \<^bold>\<open>Conventions and bounds.\<close>  Instants and durations are integers of nanoseconds.  Counters are words
  or integers with the wrap-around written out where the code can reach it.  Finite float64 values
  are rationals with the rounding of each operation.  Concurrency is a relation of atomic steps, one
  for each region that holds a lock or performs one atomic operation.  No loop takes fuel: every
  recursive function has a termination proof, so each is total.

  \<^bold>\<open>Arguments.\<close>  The environment, the file system, the YAML library, the \<open>op\<close> command, host names of
  URLs, Unicode case folding and the answers of the network are arguments of the definitions that use
  them.

  \<^bold>\<open>Not modelled.\<close>  Sockets and HTTP serving (the accept loops, the copying of bodies, \<open>main\<close> and the
  commands under \<open>cmd\<close>), the ssh process behind a node, metrics, tracing and log output, the SOCKS5
  listener of the demonstration command, the GPU and release probes, and the vendor helpers under
  \<open>internal/proxy/integration\<close>, \<open>internal/cdp\<close> and \<open>internal/cli\<close>: they perform input and output, call
  third-party libraries, or report on state modelled here without changing it.
\<close>

end
